(* ===== verification/Prelude.thy ===== *)
theory Prelude
  imports Main "HOL-Library.Word"
begin

text \<open>
  Shared vocabulary of the BigOS development: the machine integer types of
  \<^verbatim>\<open>include/bigos/types.h\<close>, the fact collections the component theories add to, and
  generic facts on lists, words and options that more than one component needs.
\<close>

unbundle bit_operations_syntax

section \<open>Machine integers\<close>

type_synonym u8 = "8 word"
type_synonym u16 = "16 word"
type_synonym u32 = "32 word"
type_synonym u64 = "64 word"

text \<open>
  \<open>inv_intros\<close> collects the preservation lemmas of the components' invariants,
  \<open>model_defs\<close> the small helper definitions that proofs always unfold.
\<close>

named_theorems inv_intros
named_theorems model_defs

section \<open>Words\<close>

lemma unat_plus_if_no_wrap:
  fixes a b :: "'a::len word"
  shows "unat a + unat b < 2 ^ LENGTH('a) \<Longrightarrow> unat (a + b) = unat a + unat b"
  by (simp add: unat_word_ariths)

lemma unat_minus_le:
  fixes a b :: "'a::len word"
  shows "b \<le> a \<Longrightarrow> unat (a - b) = unat a - unat b"
  by (simp add: unat_sub word_le_nat_alt)

lemma unat_plus_one:
  fixes a :: "'a::len word"
  shows "unat a + 1 < 2 ^ LENGTH('a) \<Longrightarrow> unat (a + 1) = Suc (unat a)"
  using unat_plus_if_no_wrap[of a 1] by (cases "LENGTH('a) = 0") simp_all

lemma unat_u8_less [simp]: "unat (b :: u8) < 256"
  using unsigned_less [of b, where 'a = nat] by simp

lemma unat_u16_less [simp]: "unat (b :: u16) < 65536"
  using unsigned_less [of b, where 'a = nat] by simp

lemma unat_u32_less [simp]: "unat (b :: u32) < 4294967296"
  using unsigned_less [of b, where 'a = nat] by simp

lemma word_AND_NOT_self [simp]:
  fixes a b :: "'a::len word"
  shows "(a AND NOT b) AND b = 0"
  by (rule bit_word_eqI) (auto simp: bit_simps)

lemma word_AND_comm_zeroD:
  fixes a b :: "'a::len word"
  shows "a AND b = 0 \<Longrightarrow> a AND NOT b = a"
  by (auto simp: bit_eq_iff bit_simps)

section \<open>Lists\<close>

lemma list_update_append_length [simp]:
  "(xs @ y # ys)[length xs := z] = xs @ z # ys"
  by (induction xs) auto

lemma map_nth_upt_length [simp]: "map (\<lambda>i. xs ! i) [0..<length xs] = xs"
  by (rule map_nth)

lemma sorted_wrt_append_iff_mid:
  "sorted_wrt P (xs @ y # ys) \<longleftrightarrow>
     sorted_wrt P xs \<and> sorted_wrt P ys \<and> (\<forall>x\<in>set xs. P x y) \<and> (\<forall>z\<in>set ys. P y z) \<and>
     (\<forall>x\<in>set xs. \<forall>z\<in>set ys. P x z)"
  by (auto simp: sorted_wrt_append)

section \<open>Counting in 32 bits\<close>

lemma u32_bound: "unat (x :: u32) < 4294967296"
proof -
  have "unat x < 2 ^ LENGTH(32)" by (rule unsigned_less)
  also have "(2 :: nat) ^ LENGTH(32) = 4294967296" by simp
  finally show ?thesis .
qed

lemma unat_suc32: "unat (x :: u32) < unat (y :: u32) \<Longrightarrow> unat (x + 1) = Suc (unat x)"
proof -
  assume "unat x < unat y"
  then have "unat x < 4294967295" using u32_bound[of y] by linarith
  then show ?thesis by (subst unat_plus_if_no_wrap) simp_all
qed

end
