(* ===== verification/Ring.thy ===== *)
theory Ring
  imports Prelude
begin

text \<open>
  Ring buffers. The pipe buffer, the TCP receive buffer and the terminal input queue of the
  kernel all keep a fixed array, a read index and a count, and advance an index with
  \<open>% capacity\<close>. \<open>ring_list\<close> is the abstract content of such an array; the locale
  \<open>ring_buffer\<close> is the interface the clients rely on, a bounded first-in first-out
  byte queue, and holds what follows from it for the clients' copy loops.
\<close>

section \<open>The content of a ring\<close>

definition ring_list :: "'a list \<Rightarrow> nat \<Rightarrow> nat \<Rightarrow> 'a list" where
  "ring_list buf h n = map (\<lambda>i. buf ! ((h + i) mod length buf)) [0..<n]"

lemma length_ring_list [simp]: "length (ring_list buf h n) = n"
  by (simp add: ring_list_def)

lemma ring_list_0 [simp]: "ring_list buf h 0 = []"
  by (simp add: ring_list_def)

lemma ring_list_eq_Nil [simp]: "ring_list buf h n = [] \<longleftrightarrow> n = 0"
  using length_ring_list [of buf h n] by (metis length_0_conv)

lemma ring_list_nth: "i < n \<Longrightarrow> ring_list buf h n ! i = buf ! ((h + i) mod length buf)"
  by (simp add: ring_list_def)

text \<open>Reading the slot at the head and advancing the head removes the first element.\<close>

lemma ring_list_pop:
  assumes "h < length buf"
  shows "ring_list buf h (Suc n) = buf ! h # ring_list buf (Suc h mod length buf) n"
proof (rule nth_equalityI)
  fix i assume i: "i < length (ring_list buf h (Suc n))"
  show "ring_list buf h (Suc n) ! i = (buf ! h # ring_list buf (Suc h mod length buf) n) ! i"
    using i assms by (cases i) (auto simp: ring_list_nth mod_add_left_eq)
qed simp

lemma ring_slot_fresh:
  assumes "i < n" and "n < c"
  shows "(h + i) mod c \<noteq> (h + n) mod (c::nat)"
proof
  assume "(h + i) mod c = (h + n) mod c"
  then have "c dvd (h + n) - (h + i)"
    using assms by (metis less_imp_le add_le_cancel_left mod_eq_dvd_iff_nat)
  then have "c dvd n - i" by simp
  with assms show False by (auto dest: dvd_imp_le)
qed

text \<open>Writing the slot just past the last element, while there is room, appends.\<close>

lemma ring_list_push:
  assumes "n < length buf"
  shows "ring_list (buf[(h + n) mod length buf := x]) h (Suc n) = ring_list buf h n @ [x]"
proof (rule nth_equalityI)
  fix i assume "i < length (ring_list (buf[(h + n) mod length buf := x]) h (Suc n))"
  then have i: "i < Suc n" by simp
  have "(h + n) mod length buf < length buf"
    using assms by (intro mod_less_divisor) linarith
  then show "ring_list (buf[(h + n) mod length buf := x]) h (Suc n) ! i
               = (ring_list buf h n @ [x]) ! i"
    using i assms ring_slot_fresh [of i n "length buf" h]
    by (auto simp: ring_list_nth nth_append less_Suc_eq)
qed simp

section \<open>Copy loops over an abstract queue\<close>

text \<open>
  The drain and fill loops of the clients, over any \<open>get\<close> and \<open>put\<close>. A client's loop
  is shown equal to one of these, and the locale below then gives its effect.
\<close>

fun drain :: "('s \<Rightarrow> 'a \<times> 's) \<Rightarrow> nat \<Rightarrow> 's \<Rightarrow> 'a list \<times> 's" where
  "drain get 0 s = ([], s)"
| "drain get (Suc n) s = (let (x, s') = get s; (xs, s'') = drain get n s' in (x # xs, s''))"

fun fill :: "('a \<Rightarrow> 's \<Rightarrow> 's) \<Rightarrow> 'a list \<Rightarrow> 's \<Rightarrow> 's" where
  "fill put [] s = s"
| "fill put (x # xs) s = fill put xs (put x s)"

section \<open>The interface\<close>

locale ring_buffer =
  fixes cap :: nat
    and invar :: "'s \<Rightarrow> bool"
    and contents :: "'s \<Rightarrow> 'a list"
    and put :: "'a \<Rightarrow> 's \<Rightarrow> 's"
    and get :: "'s \<Rightarrow> 'a \<times> 's"
  assumes contents_bound: "invar s \<Longrightarrow> length (contents s) \<le> cap"
    and contents_put: "invar s \<Longrightarrow> length (contents s) < cap \<Longrightarrow> contents (put x s) = contents s @ [x]"
    and invar_put: "invar s \<Longrightarrow> length (contents s) < cap \<Longrightarrow> invar (put x s)"
    and contents_get: "invar s \<Longrightarrow> contents s \<noteq> [] \<Longrightarrow>
          contents s = fst (get s) # contents (snd (get s))"
    and invar_get: "invar s \<Longrightarrow> contents s \<noteq> [] \<Longrightarrow> invar (snd (get s))"
begin

lemma drain_spec:
  assumes "invar s" and "n \<le> length (contents s)"
  shows "fst (drain get n s) = take n (contents s)
       \<and> contents (snd (drain get n s)) = drop n (contents s)
       \<and> invar (snd (drain get n s))"
  using assms
proof (induction n arbitrary: s)
  case 0
  then show ?case by simp
next
  case (Suc n)
  then have ne: "contents s \<noteq> []" by auto
  obtain x s' where g: "get s = (x, s')" by force
  from contents_get [OF Suc.prems(1) ne] g have c: "contents s = x # contents s'" by simp
  from invar_get [OF Suc.prems(1) ne] g have i: "invar s'" by simp
  from c Suc.prems(2) have "n \<le> length (contents s')" by simp
  from Suc.IH [OF i this] c g show ?case by (auto simp: Let_def split: prod.splits)
qed

lemma fill_spec:
  assumes "invar s" and "length (contents s) + length xs \<le> cap"
  shows "contents (fill put xs s) = contents s @ xs \<and> invar (fill put xs s)"
  using assms
proof (induction xs arbitrary: s)
  case Nil
  then show ?case by simp
next
  case (Cons x xs)
  then have room: "length (contents s) < cap" by simp
  have c: "contents (put x s) = contents s @ [x]"
    by (rule contents_put [OF Cons.prems(1) room])
  have i: "invar (put x s)" by (rule invar_put [OF Cons.prems(1) room])
  from c Cons.prems(2) have "length (contents (put x s)) + length xs \<le> cap" by simp
  from Cons.IH [OF i this] c show ?case by simp
qed

text \<open>What goes in comes out unchanged and in order.\<close>

lemma fill_drain:
  assumes "invar s" and "contents s = []" and "length xs \<le> cap"
  shows "fst (drain get (length xs) (fill put xs s)) = xs
       \<and> contents (snd (drain get (length xs) (fill put xs s))) = []"
proof -
  from assms fill_spec [of s xs]
  have "contents (fill put xs s) = xs" and "invar (fill put xs s)" by auto
  with drain_spec [of "fill put xs s" "length xs"] show ?thesis by simp
qed

end

end
