(* ===== verification/Vfs_Types.thy ===== *)
theory Vfs_Types
  imports Prelude
begin

text \<open>
  The types of \<^verbatim>\<open>include/bigos/fs/vfs.h\<close> that every file backend shares: the status
  enumeration with its errno encoding, the open-file object and its two inline queries, and
  the readiness bits. Pointers between kernel objects are object numbers.
\<close>

section \<open>Status codes\<close>

text \<open>
  The enumerators of \<^verbatim>\<open>vfs::Status\<close>. The source gives \<open>NotRegularFile\<close> and
  \<open>IsDirectory\<close> the same value, so they are one value of the C++ type; the model has one
  constructor and an abbreviation for the second name.
\<close>

datatype status =
    Success | InvalidArgument | BadFileDescriptor | NotInitialized | NoMemory | NotFound
  | NotRegularFile | Unsupported | Overflow | BlockError | WouldBlock | ReadOnlyFs | NoSpace
  | AccessDenied | NotDirectory | NotSeekable | Exists | BrokenPipe | Range | NotEmpty
  | ConnectionReset | NotConnected

abbreviation IsDirectory :: status where "IsDirectory \<equiv> NotRegularFile"

fun status_code :: "status \<Rightarrow> int" where
  "status_code Success = 0"
| "status_code InvalidArgument = -22"
| "status_code BadFileDescriptor = -9"
| "status_code NotInitialized = -19"
| "status_code NoMemory = -12"
| "status_code NotFound = -2"
| "status_code NotRegularFile = -21"
| "status_code Unsupported = -95"
| "status_code Overflow = -75"
| "status_code BlockError = -5"
| "status_code WouldBlock = -11"
| "status_code ReadOnlyFs = -30"
| "status_code NoSpace = -28"
| "status_code AccessDenied = -13"
| "status_code NotDirectory = -20"
| "status_code NotSeekable = -29"
| "status_code Exists = -17"
| "status_code BrokenPipe = -32"
| "status_code Range = -34"
| "status_code NotEmpty = -39"
| "status_code ConnectionReset = -104"
| "status_code NotConnected = -107"

lemma status_code_inj [simp]: "status_code a = status_code b \<longleftrightarrow> a = b"
  by (cases a; cases b) simp_all

lemma status_code_nonpos: "status_code s \<le> 0"
  by (cases s) simp_all

section \<open>Readiness bits\<close>

definition READY_READABLE :: u32 where "READY_READABLE = 1"
definition READY_WRITABLE :: u32 where "READY_WRITABLE = 2"
definition READY_ERROR :: u32 where "READY_ERROR = 4"

lemmas ready_bits = READY_READABLE_def READY_WRITABLE_def READY_ERROR_def

section \<open>Open files\<close>

text \<open>
  The operation table a file points to is the backend that made the file; \<open>private_data\<close>
  is the object number of the backend's own record, \<open>None\<close> for a null pointer.
\<close>

datatype file_ops = PIPE_READ_OPS | PIPE_WRITE_OPS | OTHER_OPS nat

record vfile =
  f_ops :: file_ops
  f_offset :: u64
  f_ref_count :: u32
  f_readable :: bool
  f_close_on_exec :: bool
  f_private_data :: "nat option"
  f_writable :: bool
  f_nonblocking :: bool

definition OPEN_RDONLY :: u64 where "OPEN_RDONLY = 0"
definition OPEN_WRONLY :: u64 where "OPEN_WRONLY = 1"
definition OPEN_RDWR :: u64 where "OPEN_RDWR = 2"

definition file_is_nonblocking :: "vfile option \<Rightarrow> bool" where
  "file_is_nonblocking f = (case f of None \<Rightarrow> False | Some f \<Rightarrow> f_nonblocking f)"

definition file_access_mode :: "vfile option \<Rightarrow> u64" where
  "file_access_mode f =
     (case f of None \<Rightarrow> OPEN_RDONLY
      | Some f \<Rightarrow> if f_readable f \<and> f_writable f then OPEN_RDWR
                  else if f_writable f then OPEN_WRONLY else OPEN_RDONLY)"

end
