(* ===== verification/Vma.thy ===== *)
theory Vma
  imports Prelude "HOL-Library.Multiset"
begin

text \<open>
  User virtual memory areas, from \<^verbatim>\<open>kernel/core/proc/proc.cc\<close> and
  \<^verbatim>\<open>include/bigos/proc.h\<close>: the fixed table of areas a process owns, the policy that says
  which area may exist where, the range checks the syscall layer relies on, and the staged
  clip-and-replace operations behind \<^verbatim>\<open>munmap\<close> and \<^verbatim>\<open>mprotect\<close>. Addresses are 64-bit words,
  so every overflow check of the source is one here. \<open>vma_at\<close> is the abstract view:
  which area covers an address.
\<close>

section \<open>Address arithmetic\<close>

definition PAGE_SIZE :: u64 where "PAGE_SIZE = 0x1000"
definition USER_LOW_HALF_LIMIT :: u64 where "USER_LOW_HALF_LIMIT = 0x800000000000"

definition add_overflow :: "u64 \<Rightarrow> u64 \<Rightarrow> u64 option" where
  \<comment> \<open>\<open>None\<close> is the overflow result, \<open>Some\<close> the value stored through the out pointer\<close>
  "add_overflow a b = (let result = a + b in if result < a then None else Some result)"

definition page_down :: "u64 \<Rightarrow> u64" where
  "page_down v = v AND NOT (PAGE_SIZE - 1)"

definition page_up :: "u64 \<Rightarrow> u64 option" where
  "page_up v = (case add_overflow v (PAGE_SIZE - 1) of
                  None \<Rightarrow> None | Some with_padding \<Rightarrow> Some (page_down with_padding))"

definition is_power_of_two :: "u64 \<Rightarrow> bool" where
  "is_power_of_two v \<longleftrightarrow> v \<noteq> 0 \<and> v AND (v - 1) = 0"

definition ranges_overlap :: "u64 \<Rightarrow> u64 \<Rightarrow> u64 \<Rightarrow> u64 \<Rightarrow> bool" where
  "ranges_overlap a_base a_len b_base b_len =
     (case (add_overflow a_base a_len, add_overflow b_base b_len) of
        (Some a_end, Some b_end) \<Rightarrow> a_base < b_end \<and> b_base < a_end
      | _ \<Rightarrow> True)"

definition user_range_valid :: "u64 \<Rightarrow> u64 \<Rightarrow> bool" where
  "user_range_valid base len =
     (if len = 0 then False
      else case add_overflow base len of
             None \<Rightarrow> False | Some e \<Rightarrow> e \<le> USER_LOW_HALF_LIMIT)"

definition page_aligned :: "u64 \<Rightarrow> bool" where
  "page_aligned v \<longleftrightarrow> v AND (PAGE_SIZE - 1) = 0"

section \<open>Permissions\<close>

definition PermNone :: u8 where "PermNone = 0"
definition PermRead :: u8 where "PermRead = 1"
definition PermWrite :: u8 where "PermWrite = 2"
definition PermExecute :: u8 where "PermExecute = 4"

lemmas perm_defs = PermNone_def PermRead_def PermWrite_def PermExecute_def

definition PF_X :: u32 where "PF_X = 1"
definition PF_W :: u32 where "PF_W = 2"

definition permissions_include :: "u8 \<Rightarrow> u8 \<Rightarrow> bool" where
  "permissions_include have_p need \<longleftrightarrow> have_p AND need = need"

definition permissions_wx :: "u8 \<Rightarrow> bool" where
  "permissions_wx p \<longleftrightarrow> permissions_include p PermWrite \<and> permissions_include p PermExecute"

definition segment_permissions :: "u32 \<Rightarrow> u8" where
  "segment_permissions flags =
     PermRead OR (if flags AND PF_W \<noteq> 0 then PermWrite else 0)
              OR (if flags AND PF_X \<noteq> 0 then PermExecute else 0)"

definition permissions_supported :: "u8 \<Rightarrow> bool" where
  "permissions_supported p \<longleftrightarrow>
     p AND NOT (PermRead OR PermWrite OR PermExecute) = 0 \<and> \<not> permissions_wx p"

section \<open>Areas and layouts\<close>

datatype vma_purpose =
    PurposeCode | PurposeData | PurposeHeap | PurposeAnonymous | PurposeStack
  | PurposeStackGuard | PurposeFileMapped | PurposeDynInterp | PurposeDynLib

datatype vma_backing = BackingAnonymous | BackingElfSegment | BackingGuard | BackingFileBacked

datatype vma_growth = GrowthNone | GrowthUp | GrowthDown

record vma_entry =
  v_start :: u64
  v_end :: u64
  v_materialized_start :: u64
  v_materialized_end :: u64
  v_permissions :: u8
  v_purpose :: vma_purpose
  v_backing :: vma_backing
  v_growth :: vma_growth
  v_used :: bool
  v_file_backing :: "nat option"
  v_file_offset :: u64

definition MAX_VMAS :: nat where "MAX_VMAS = 16"

record vma_collection =
  vc_entries :: "vma_entry list"
  vc_count :: u32
  vc_heap_base :: u64
  vc_heap_break :: u64
  vc_heap_limit :: u64
  vc_anon_next :: u64
  vc_filemap_next :: u64

record user_range =
  ur_base :: u64
  ur_len :: u64

record user_runtime_layout =
  l_elf_load :: user_range
  l_heap :: user_range
  l_anonymous :: user_range
  l_stack_guard :: user_range
  l_stack_growth :: user_range
  l_stack :: user_range
  l_arguments :: user_range
  l_future_runtime :: user_range
  l_file_mapped :: user_range
  l_dyn_interp :: user_range
  l_dyn_lib :: user_range
  l_dynamic :: bool
  l_committed :: bool

definition vma_range_bounds :: "u64 \<Rightarrow> u64 \<Rightarrow> bool" where
  "vma_range_bounds s e \<longleftrightarrow>
     s < e \<and> page_aligned s \<and> page_aligned e \<and> e \<le> USER_LOW_HALF_LIMIT"

definition range_inside :: "u64 \<Rightarrow> u64 \<Rightarrow> user_range \<Rightarrow> bool" where
  "range_inside s e r =
     (if ur_len r = 0 then False
      else case add_overflow (ur_base r) (ur_len r) of
             None \<Rightarrow> False
           | Some range_end \<Rightarrow> s \<ge> ur_base r \<and> e \<le> range_end)"

definition range_inside_pair :: "u64 \<Rightarrow> u64 \<Rightarrow> user_range \<Rightarrow> user_range \<Rightarrow> bool" where
  "range_inside_pair s e low high =
     (if ur_len low = 0 \<or> ur_len high = 0 then False
      else case add_overflow (ur_base high) (ur_len high) of
             None \<Rightarrow> False
           | Some combined_end \<Rightarrow>
               s \<ge> ur_base low \<and> e \<le> combined_end \<and> ur_base low < ur_base high)"

definition range_overlaps_user_range :: "u64 \<Rightarrow> u64 \<Rightarrow> user_range \<Rightarrow> bool" where
  "range_overlaps_user_range s e r =
     (if ur_len r = 0 then False else ranges_overlap s (e - s) (ur_base r) (ur_len r))"

text \<open>The nested index loop of \<^verbatim>\<open>runtime_layout_valid\<close>: each range is checked, then compared
  with every later one.\<close>

definition layout_range_ok :: "user_range \<Rightarrow> bool" where
  "layout_range_ok r \<longleftrightarrow>
     ur_len r \<noteq> 0 \<and> user_range_valid (ur_base r) (ur_len r) \<and>
     page_aligned (ur_base r) \<and> page_aligned (ur_len r)"

fun ranges_disjoint_ok :: "(user_range \<Rightarrow> bool) \<Rightarrow> user_range list \<Rightarrow> bool" where
  "ranges_disjoint_ok ok [] = True"
| "ranges_disjoint_ok ok (r # rs) =
     (ok r \<and> list_all (\<lambda>s. \<not> range_overlaps_user_range (ur_base r) (ur_base r + ur_len r) s) rs \<and>
      ranges_disjoint_ok ok rs)"

definition static_ranges :: "user_runtime_layout \<Rightarrow> user_range list" where
  "static_ranges l =
     [l_elf_load l, l_heap l, l_anonymous l, l_stack_guard l, l_stack_growth l, l_stack l,
      l_future_runtime l, l_file_mapped l]"

definition runtime_layout_valid :: "user_runtime_layout \<Rightarrow> bool" where
  "runtime_layout_valid l \<longleftrightarrow>
     ranges_disjoint_ok layout_range_ok (static_ranges l) \<and>
     (l_dynamic l \<longrightarrow>
        ranges_disjoint_ok
          (\<lambda>r. layout_range_ok r \<and> range_inside (ur_base r) (ur_base r + ur_len r) (l_future_runtime l))
          [l_dyn_interp l, l_dyn_lib l])"


definition USER_STACK_TOP :: u64 where "USER_STACK_TOP = 0x800000"
definition USER_STACK_PAGES :: u64 where "USER_STACK_PAGES = 1"
definition USER_STACK_GUARD_PAGES :: u64 where "USER_STACK_GUARD_PAGES = 1"
definition USER_STACK_GROWTH_PAGES :: u64 where "USER_STACK_GROWTH_PAGES = 4"
definition USER_HEAP_MAX_PAGES :: u64 where "USER_HEAP_MAX_PAGES = 16"
definition USER_ANON_BASE :: u64 where "USER_ANON_BASE = 0x1000000"
definition USER_ANON_MAX_PAGES :: u64 where "USER_ANON_MAX_PAGES = 32"
definition USER_FILEMAP_BASE :: u64 where "USER_FILEMAP_BASE = 0x4000000"
definition USER_FILEMAP_MAX_PAGES :: u64 where "USER_FILEMAP_MAX_PAGES = 32"
definition USER_RUNTIME_RESERVED_BASE :: u64 where "USER_RUNTIME_RESERVED_BASE = USER_STACK_TOP"
definition USER_RUNTIME_RESERVED_END :: u64 where "USER_RUNTIME_RESERVED_END = USER_ANON_BASE"
definition USER_INTERP_BASE :: u64 where "USER_INTERP_BASE = 0x900000"
definition USER_INTERP_MAX_PAGES :: u64 where "USER_INTERP_MAX_PAGES = 64"
definition USER_DYN_LIB_BASE :: u64 where "USER_DYN_LIB_BASE = 0xa00000"
definition USER_DYN_LIB_MAX_PAGES :: u64 where "USER_DYN_LIB_MAX_PAGES = 256"

lemmas layout_consts =
  PAGE_SIZE_def USER_LOW_HALF_LIMIT_def USER_STACK_TOP_def USER_STACK_PAGES_def
  USER_STACK_GUARD_PAGES_def USER_STACK_GROWTH_PAGES_def USER_HEAP_MAX_PAGES_def
  USER_ANON_BASE_def USER_ANON_MAX_PAGES_def USER_FILEMAP_BASE_def USER_FILEMAP_MAX_PAGES_def
  USER_RUNTIME_RESERVED_BASE_def USER_RUNTIME_RESERVED_END_def USER_INTERP_BASE_def
  USER_INTERP_MAX_PAGES_def USER_DYN_LIB_BASE_def USER_DYN_LIB_MAX_PAGES_def

abbreviation mk_range :: "u64 \<Rightarrow> u64 \<Rightarrow> user_range" where
  "mk_range b n \<equiv> \<lparr>ur_base = b, ur_len = n\<rparr>"

text \<open>\<^verbatim>\<open>init_runtime_layout\<close> returns the layout it would store in the process, or \<open>None\<close> where
  the source returns false and leaves the process as it was.\<close>

definition init_runtime_layout :: "u64 \<Rightarrow> u64 \<Rightarrow> u64 \<Rightarrow> bool \<Rightarrow> user_runtime_layout option" where
  "init_runtime_layout elf_low elf_high heap_base dynamic =
    (if \<not> page_aligned elf_low \<or> \<not> page_aligned elf_high \<or> elf_low \<ge> elf_high then None
     else case add_overflow heap_base (USER_HEAP_MAX_PAGES * PAGE_SIZE) of
       None \<Rightarrow> None
     | Some heap_end \<Rightarrow>
        (let stack_base = USER_STACK_TOP - USER_STACK_PAGES * PAGE_SIZE;
             stack_growth_base = stack_base - USER_STACK_GROWTH_PAGES * PAGE_SIZE;
             stack_guard_base = stack_growth_base - USER_STACK_GUARD_PAGES * PAGE_SIZE
         in if elf_high > heap_base \<or> heap_end > stack_guard_base \<or>
               USER_RUNTIME_RESERVED_BASE > USER_RUNTIME_RESERVED_END then None
            else
              (let layout =
                 \<lparr>l_elf_load = mk_range elf_low (elf_high - elf_low),
                  l_heap = mk_range heap_base (heap_end - heap_base),
                  l_anonymous = mk_range USER_ANON_BASE (USER_ANON_MAX_PAGES * PAGE_SIZE),
                  l_stack_guard = mk_range stack_guard_base (USER_STACK_GUARD_PAGES * PAGE_SIZE),
                  l_stack_growth = mk_range stack_growth_base (USER_STACK_GROWTH_PAGES * PAGE_SIZE),
                  l_stack = mk_range stack_base (USER_STACK_PAGES * PAGE_SIZE),
                  l_arguments = mk_range stack_base (USER_STACK_PAGES * PAGE_SIZE),
                  l_future_runtime = mk_range USER_RUNTIME_RESERVED_BASE
                     (USER_RUNTIME_RESERVED_END - USER_RUNTIME_RESERVED_BASE),
                  l_file_mapped = mk_range USER_FILEMAP_BASE (USER_FILEMAP_MAX_PAGES * PAGE_SIZE),
                  l_dyn_interp = (if dynamic
                     then mk_range USER_INTERP_BASE (USER_INTERP_MAX_PAGES * PAGE_SIZE)
                     else mk_range 0 0),
                  l_dyn_lib = (if dynamic
                     then mk_range USER_DYN_LIB_BASE (USER_DYN_LIB_MAX_PAGES * PAGE_SIZE)
                     else mk_range 0 0),
                  l_dynamic = dynamic,
                  l_committed = True\<rparr>
               in if \<not> runtime_layout_valid layout then None else Some layout)))"

definition elf_backing_ok :: "vma_entry \<Rightarrow> bool" where
  "elf_backing_ok e \<longleftrightarrow>
     (v_backing e = BackingElfSegment \<or> v_backing e = BackingFileBacked \<or>
      v_backing e = BackingAnonymous) \<and>
     (v_backing e \<noteq> BackingFileBacked \<or> v_file_backing e \<noteq> None \<and> page_aligned (v_file_offset e))"

definition runtime_vma_allowed :: "user_runtime_layout \<Rightarrow> vma_entry \<Rightarrow> bool" where
  "runtime_vma_allowed layout e =
    (if \<not> l_committed layout \<or> \<not> vma_range_bounds (v_start e) (v_end e) then False
     else if v_backing e \<noteq> BackingGuard \<and>
             (v_materialized_start e < v_start e \<or> v_materialized_start e > v_end e \<or>
              v_materialized_end e < v_start e \<or> v_materialized_end e > v_end e) then False
     else case v_purpose e of
       PurposeCode \<Rightarrow>
         range_inside (v_start e) (v_end e) (l_elf_load layout) \<and> v_growth e = GrowthNone \<and>
         elf_backing_ok e \<and> permissions_include (v_permissions e) PermExecute \<and>
         \<not> permissions_include (v_permissions e) PermWrite
     | PurposeData \<Rightarrow>
         range_inside (v_start e) (v_end e) (l_elf_load layout) \<and> v_growth e = GrowthNone \<and>
         elf_backing_ok e \<and> \<not> permissions_include (v_permissions e) PermExecute
     | PurposeHeap \<Rightarrow>
         range_inside (v_start e) (v_end e) (l_heap layout) \<and> v_backing e = BackingAnonymous \<and>
         v_growth e = GrowthUp \<and> permissions_include (v_permissions e) PermRead \<and>
         permissions_include (v_permissions e) PermWrite \<and>
         \<not> permissions_include (v_permissions e) PermExecute
     | PurposeAnonymous \<Rightarrow>
         range_inside (v_start e) (v_end e) (l_anonymous layout) \<and>
         v_backing e = BackingAnonymous \<and> v_growth e = GrowthNone
     | PurposeStack \<Rightarrow>
         range_inside_pair (v_start e) (v_end e) (l_stack_growth layout) (l_stack layout) \<and>
         v_backing e = BackingAnonymous \<and> v_growth e = GrowthDown \<and>
         permissions_include (v_permissions e) PermRead \<and>
         permissions_include (v_permissions e) PermWrite \<and>
         \<not> permissions_include (v_permissions e) PermExecute
     | PurposeStackGuard \<Rightarrow>
         range_inside (v_start e) (v_end e) (l_stack_guard layout) \<and> v_backing e = BackingGuard \<and>
         v_growth e = GrowthNone \<and> v_permissions e = PermNone
     | PurposeFileMapped \<Rightarrow>
         range_inside (v_start e) (v_end e) (l_file_mapped layout) \<and>
         v_backing e = BackingFileBacked \<and> v_growth e = GrowthNone \<and>
         v_file_backing e \<noteq> None \<and> page_aligned (v_file_offset e) \<and>
         permissions_include (v_permissions e) PermRead \<and>
         \<not> permissions_include (v_permissions e) PermWrite
     | PurposeDynInterp \<Rightarrow>
         l_dynamic layout \<and> range_inside (v_start e) (v_end e) (l_dyn_interp layout) \<and>
         v_backing e = BackingElfSegment \<and> v_growth e = GrowthNone
     | PurposeDynLib \<Rightarrow>
         l_dynamic layout \<and> range_inside (v_start e) (v_end e) (l_dyn_lib layout) \<and>
         v_backing e = BackingAnonymous \<and> v_growth e = GrowthNone)"

section \<open>The area table\<close>

definition zero_vma :: vma_entry where
  "zero_vma = \<lparr>v_start = 0, v_end = 0, v_materialized_start = 0, v_materialized_end = 0,
     v_permissions = PermNone, v_purpose = PurposeCode, v_backing = BackingAnonymous,
     v_growth = GrowthNone, v_used = False, v_file_backing = None, v_file_offset = 0\<rparr>"

definition internal_init_vmas :: vma_collection where
  "internal_init_vmas = \<lparr>vc_entries = replicate MAX_VMAS zero_vma, vc_count = 0,
     vc_heap_base = 0, vc_heap_break = 0, vc_heap_limit = 0,
     vc_anon_next = USER_ANON_BASE, vc_filemap_next = USER_FILEMAP_BASE\<rparr>"

definition areas_clash :: "vma_entry \<Rightarrow> vma_entry \<Rightarrow> bool" where
  "areas_clash e existing \<longleftrightarrow> v_used existing \<and> v_start e < v_end existing \<and> v_start existing < v_end e"

fun place_vma :: "vma_entry \<Rightarrow> vma_entry list \<Rightarrow> vma_entry list option" where
  "place_vma e [] = None"
| "place_vma e (x # xs) =
     (if \<not> v_used x then Some (e\<lparr>v_used := True\<rparr> # xs)
      else case place_vma e xs of None \<Rightarrow> None | Some ys \<Rightarrow> Some (x # ys))"

definition internal_add_vma :: "vma_collection \<Rightarrow> vma_entry \<Rightarrow> vma_collection option" where
  "internal_add_vma vs e =
    (if \<not> vma_range_bounds (v_start e) (v_end e) \<or> permissions_wx (v_permissions e) \<or>
        unat (vc_count vs) \<ge> MAX_VMAS then None
     else if list_ex (areas_clash e) (vc_entries vs) then None
     else case place_vma e (vc_entries vs) of
            None \<Rightarrow> None
          | Some es \<Rightarrow> Some (vs\<lparr>vc_entries := es, vc_count := vc_count vs + 1\<rparr>))"

definition internal_add_process_vma ::
    "user_runtime_layout \<Rightarrow> vma_collection \<Rightarrow> vma_entry \<Rightarrow> vma_collection option" where
  "internal_add_process_vma layout vs e =
    (if \<not> runtime_vma_allowed layout e then None else internal_add_vma vs e)"

fun clear_vma :: "u64 \<Rightarrow> u64 \<Rightarrow> vma_entry list \<Rightarrow> vma_entry list option" where
  "clear_vma s e [] = None"
| "clear_vma s e (x # xs) =
     (if v_used x \<and> v_start x = s \<and> v_end x = e then Some (zero_vma # xs)
      else case clear_vma s e xs of None \<Rightarrow> None | Some ys \<Rightarrow> Some (x # ys))"

definition internal_remove_vma :: "vma_collection \<Rightarrow> u64 \<Rightarrow> u64 \<Rightarrow> vma_collection option" where
  "internal_remove_vma vs s e =
    (case clear_vma s e (vc_entries vs) of
       None \<Rightarrow> None
     | Some es \<Rightarrow> Some (vs\<lparr>vc_entries := es, vc_count := vc_count vs - 1\<rparr>))"

definition area_covers :: "u64 \<Rightarrow> vma_entry \<Rightarrow> bool" where
  "area_covers addr e \<longleftrightarrow> v_used e \<and> addr \<ge> v_start e \<and> addr < v_end e"

definition internal_find_vma :: "vma_collection \<Rightarrow> u64 \<Rightarrow> vma_entry option" where
  "internal_find_vma vs addr =
    (if addr \<ge> USER_LOW_HALF_LIMIT then None else find (area_covers addr) (vc_entries vs))"

text \<open>The cursor loop that \<^verbatim>\<open>internal_vma_range_allowed\<close> and \<^verbatim>\<open>runtime_range_allowed\<close> share; they
  differ in the test applied to the area found at the cursor.\<close>

function vma_walk :: "(vma_entry \<Rightarrow> bool) \<Rightarrow> vma_collection \<Rightarrow> u64 \<Rightarrow> u64 \<Rightarrow> bool" where
  "vma_walk ok vs cursor e =
    (if cursor < e then
       case internal_find_vma vs cursor of
         None \<Rightarrow> False
       | Some entry \<Rightarrow>
           if \<not> ok entry then False
           else if v_end entry \<le> cursor then False
           else vma_walk ok vs (if v_end entry < e then v_end entry else e) e
     else True)"
  by pat_completeness auto
termination
  by (relation "measure (\<lambda>(ok, vs, cursor, e). unat e - unat cursor)")
     (auto simp: word_less_nat_alt word_le_nat_alt not_le split: if_splits)

declare vma_walk.simps [simp del]

definition internal_vma_range_allowed :: "vma_collection \<Rightarrow> u64 \<Rightarrow> u64 \<Rightarrow> u8 \<Rightarrow> bool" where
  "internal_vma_range_allowed vs addr len perm =
    (if len = 0 \<or> \<not> user_range_valid addr len then False
     else case add_overflow addr len of
            None \<Rightarrow> False
          | Some e \<Rightarrow> vma_walk (\<lambda>x. permissions_include (v_permissions x) perm) vs addr e)"

definition runtime_range_allowed ::
    "user_runtime_layout \<Rightarrow> vma_collection \<Rightarrow> u64 \<Rightarrow> u64 \<Rightarrow> u8 \<Rightarrow> bool" where
  "runtime_range_allowed layout vs addr len perm =
    (if len = 0 \<or> \<not> user_range_valid addr len then False
     else case add_overflow addr len of
            None \<Rightarrow> False
          | Some e \<Rightarrow>
              vma_walk (\<lambda>x. runtime_vma_allowed layout x \<and> permissions_include (v_permissions x) perm)
                vs addr e)"


section \<open>Staged unmap and protect\<close>

definition lifecycle_range_bounds :: "u64 \<Rightarrow> u64 \<Rightarrow> u64 option" where
  "lifecycle_range_bounds addr len =
    (if len = 0 \<or> \<not> page_aligned addr \<or> \<not> page_aligned len then None
     else case add_overflow addr len of
            None \<Rightarrow> None
          | Some e \<Rightarrow> if e > USER_LOW_HALF_LIMIT \<or> e \<le> addr then None else Some e)"

definition anonymous_lifecycle_vma_compatible ::
    "user_runtime_layout \<Rightarrow> vma_entry option \<Rightarrow> u8 \<Rightarrow> bool" where
  "anonymous_lifecycle_vma_compatible layout entry perm =
    (case entry of
       None \<Rightarrow> False
     | Some e \<Rightarrow> v_backing e = BackingAnonymous \<and> v_purpose e = PurposeAnonymous \<and>
                 v_growth e = GrowthNone \<and> runtime_vma_allowed layout e \<and> permissions_supported perm)"

definition dyn_lib_protect_compatible :: "vma_entry option \<Rightarrow> bool" where
  "dyn_lib_protect_compatible entry =
    (case entry of
       None \<Rightarrow> False
     | Some e \<Rightarrow> v_purpose e = PurposeDynLib \<and> v_backing e = BackingAnonymous)"

definition clipped_vma :: "vma_entry \<Rightarrow> u64 \<Rightarrow> u64 \<Rightarrow> vma_entry" where
  "clipped_vma entry s e =
    (let c = entry\<lparr>v_start := s, v_end := e\<rparr>;
         c = (if v_materialized_start c < s then c\<lparr>v_materialized_start := s\<rparr> else c);
         c = (if v_materialized_start c > e then c\<lparr>v_materialized_start := e\<rparr> else c);
         c = (if v_materialized_end c < s then c\<lparr>v_materialized_end := s\<rparr> else c);
         c = (if v_materialized_end c > e then c\<lparr>v_materialized_end := e\<rparr> else c);
         c = (if v_materialized_end c < v_materialized_start c
              then c\<lparr>v_materialized_end := v_materialized_start c\<rparr> else c)
     in c)"

definition add_vma_if :: "bool \<Rightarrow> vma_collection \<Rightarrow> vma_entry \<Rightarrow> vma_collection option" where
  "add_vma_if c vs e = (if c then internal_add_vma vs e else Some vs)"

text \<open>One loop body of the staged operations. \<open>mid\<close> is the replacement for the covered piece:
  \<open>None\<close> when it is dropped, the new permissions when it is kept.\<close>

definition stage_cut ::
    "u8 option \<Rightarrow> vma_entry \<Rightarrow> u64 \<Rightarrow> u64 \<Rightarrow> vma_collection \<Rightarrow> vma_collection option" where
  "stage_cut mid entry cursor cut_end staged =
    (case internal_remove_vma staged (v_start entry) (v_end entry) of
       None \<Rightarrow> None
     | Some s1 \<Rightarrow>
       (case add_vma_if (v_start entry < cursor) s1 (clipped_vma entry (v_start entry) cursor) of
          None \<Rightarrow> None
        | Some s2 \<Rightarrow>
          (case (case mid of
                   None \<Rightarrow> Some s2
                 | Some perm \<Rightarrow>
                     internal_add_vma s2 ((clipped_vma entry cursor cut_end)\<lparr>v_permissions := perm\<rparr>)) of
             None \<Rightarrow> None
           | Some s3 \<Rightarrow>
               add_vma_if (cut_end < v_end entry) s3 (clipped_vma entry cut_end (v_end entry)))))"

text \<open>The outer loop. The guard of an area that does not extend past the cursor is not in the
  source; an area found at the cursor always does, and the guard gives the recursion its measure.\<close>

function stage_loop ::
    "(vma_entry option \<Rightarrow> bool) \<Rightarrow> u8 option \<Rightarrow> vma_collection \<Rightarrow> u64 \<Rightarrow> u64 \<Rightarrow> vma_collection
       \<Rightarrow> vma_collection option" where
  "stage_loop compatible mid vs cursor e staged =
    (if cursor < e then
       (case internal_find_vma vs cursor of
          None \<Rightarrow> None
        | Some entry \<Rightarrow>
            if \<not> compatible (Some entry) \<or> v_end entry \<le> cursor then None
            else
              (let cut_end = (if v_end entry < e then v_end entry else e)
               in case stage_cut mid entry cursor cut_end staged of
                    None \<Rightarrow> None
                  | Some staged' \<Rightarrow> stage_loop compatible mid vs cut_end e staged'))
     else Some staged)"
  by pat_completeness auto
termination
  by (relation "measure (\<lambda>(c, m, vs, cursor, e, st). unat e - unat cursor)")
     (auto simp: word_less_nat_alt word_le_nat_alt not_le split: if_splits)

declare stage_loop.simps [simp del]

definition stage_anonymous_unmap ::
    "user_runtime_layout \<Rightarrow> vma_collection \<Rightarrow> u64 \<Rightarrow> u64 \<Rightarrow> vma_collection option" where
  "stage_anonymous_unmap layout vs addr e =
     stage_loop
       (\<lambda>entry. anonymous_lifecycle_vma_compatible layout entry
                  (case entry of None \<Rightarrow> PermNone | Some x \<Rightarrow> v_permissions x))
       None vs addr e vs"

definition stage_anonymous_protect ::
    "user_runtime_layout \<Rightarrow> vma_collection \<Rightarrow> u64 \<Rightarrow> u64 \<Rightarrow> u8 \<Rightarrow> vma_collection option" where
  "stage_anonymous_protect layout vs addr e perm =
    (if \<not> permissions_supported perm then None
     else stage_loop (\<lambda>entry. anonymous_lifecycle_vma_compatible layout entry perm)
            (Some perm) vs addr e vs)"

definition stage_dyn_lib_protect :: "vma_collection \<Rightarrow> u64 \<Rightarrow> u64 \<Rightarrow> u8 \<Rightarrow> vma_collection option" where
  "stage_dyn_lib_protect vs addr e perm =
    (if \<not> permissions_supported perm then None
     else stage_loop dyn_lib_protect_compatible (Some perm) vs addr e vs)"


section \<open>The invariant of the table\<close>

text \<open>Every used area has page-aligned, non-empty bounds in the low half and is never writable
  and executable at once; used areas do not overlap; the counter is the number of used slots.\<close>

definition areas_apart :: "vma_entry \<Rightarrow> vma_entry \<Rightarrow> bool" where
  "areas_apart x y \<longleftrightarrow> v_end x \<le> v_start y \<or> v_end y \<le> v_start x"

definition area_ok :: "vma_entry \<Rightarrow> bool" where
  "area_ok x \<longleftrightarrow> vma_range_bounds (v_start x) (v_end x) \<and> \<not> permissions_wx (v_permissions x)"

definition used_areas :: "vma_collection \<Rightarrow> vma_entry list" where
  "used_areas vs = filter v_used (vc_entries vs)"

definition vma_inv :: "vma_collection \<Rightarrow> bool" where
  "vma_inv vs \<longleftrightarrow> length (vc_entries vs) = MAX_VMAS \<and>
     unat (vc_count vs) = length (used_areas vs) \<and>
     list_all area_ok (used_areas vs) \<and> sorted_wrt areas_apart (used_areas vs)"

definition vma_at :: "vma_collection \<Rightarrow> u64 \<Rightarrow> vma_entry option" where
  "vma_at vs addr = find (area_covers addr) (vc_entries vs)"

definition apart_mset :: "vma_entry multiset \<Rightarrow> bool" where
  "apart_mset M \<longleftrightarrow> (\<forall>x\<in>#M. \<forall>y\<in>#M - {#x#}. areas_apart x y)"

lemma areas_apart_sym: "areas_apart x y \<longleftrightarrow> areas_apart y x"
  by (auto simp: areas_apart_def)

lemma apart_mset_add:
  "apart_mset (add_mset x M) \<longleftrightarrow> (\<forall>y\<in>#M. areas_apart x y) \<and> apart_mset M" (is "?l \<longleftrightarrow> ?r")
proof
  assume l: ?l
  have "areas_apart y z" if "y \<in># M" "z \<in># M - {#y#}" for y z
  proof -
    from that have "z \<in># add_mset x M - {#y#}" by (auto dest: in_diffD split: if_splits)
    with l that show ?thesis by (auto simp: apart_mset_def)
  qed
  with l show ?r by (auto simp: apart_mset_def)
next
  assume r: ?r
  have "areas_apart y z" if "y \<in># add_mset x M" "z \<in># add_mset x M - {#y#}" for y z
  proof (cases "y = x")
    case True with that r show ?thesis by auto
  next
    case False
    with that have "y \<in># M" and "z = x \<or> z \<in># M - {#y#}" by auto
    with r show ?thesis by (auto simp: apart_mset_def areas_apart_sym)
  qed
  then show ?l by (auto simp: apart_mset_def)
qed

lemma sorted_wrt_apart_mset: "sorted_wrt areas_apart xs \<longleftrightarrow> apart_mset (mset xs)"
  by (induction xs) (auto simp: apart_mset_add, auto simp: apart_mset_def)

lemma vma_inv_mset:
  "vma_inv vs \<longleftrightarrow> length (vc_entries vs) = MAX_VMAS \<and>
     unat (vc_count vs) = size (mset (used_areas vs)) \<and>
     (\<forall>x\<in>#mset (used_areas vs). area_ok x) \<and> apart_mset (mset (used_areas vs))"
  by (simp add: vma_inv_def sorted_wrt_apart_mset list_all_iff)

lemma in_used_areas: "x \<in> set (used_areas vs) \<longleftrightarrow> x \<in> set (vc_entries vs) \<and> v_used x"
  by (auto simp: used_areas_def)

lemma apart_msetD:
  "apart_mset M \<Longrightarrow> x \<in># M \<Longrightarrow> y \<in># M \<Longrightarrow> x \<noteq> y \<Longrightarrow> areas_apart x y"
  by (simp add: apart_mset_def in_diff_count)

lemma area_okD: "area_ok x \<Longrightarrow> v_start x < v_end x"  "area_ok x \<Longrightarrow> v_end x \<le> USER_LOW_HALF_LIMIT"
  by (auto simp: area_ok_def vma_range_bounds_def)

text \<open>Under the invariant a lookup depends on the set of used areas only.\<close>

lemma vma_at_iff:
  assumes "vma_inv vs"
  shows "vma_at vs a = Some x \<longleftrightarrow> x \<in># mset (used_areas vs) \<and> v_start x \<le> a \<and> a < v_end x"
proof
  assume "vma_at vs a = Some x"
  then show "x \<in># mset (used_areas vs) \<and> v_start x \<le> a \<and> a < v_end x"
    by (auto simp: vma_at_def find_Some_iff area_covers_def in_used_areas)
next
  assume x: "x \<in># mset (used_areas vs) \<and> v_start x \<le> a \<and> a < v_end x"
  then have "\<exists>y. vma_at vs a = Some y"
    by (cases "vma_at vs a") (auto simp: vma_at_def find_None_iff area_covers_def in_used_areas)
  then obtain y where y: "vma_at vs a = Some y" ..
  then have "y \<in># mset (used_areas vs)" "v_start y \<le> a" "a < v_end y"
    by (auto simp: vma_at_def find_Some_iff area_covers_def in_used_areas)
  with x have "\<not> areas_apart x y" by (auto simp: areas_apart_def)
  with x y(1) assms \<open>y \<in># _\<close> have "x = y" unfolding vma_inv_mset using apart_msetD by blast
  with y show "vma_at vs a = Some x" by simp
qed

lemma vma_at_None_iff:
  "vma_at vs a = None \<longleftrightarrow> (\<forall>x\<in>#mset (used_areas vs). \<not> (v_start x \<le> a \<and> a < v_end x))"
  by (auto simp: vma_at_def find_None_iff area_covers_def in_used_areas)

lemma vma_at_cong:
  assumes "vma_inv vs" "vma_inv vs'"
    and "\<And>x. v_start x \<le> a \<Longrightarrow> a < v_end x \<Longrightarrow>
               x \<in># mset (used_areas vs') \<longleftrightarrow> x \<in># mset (used_areas vs)"
  shows "vma_at vs' a = vma_at vs a"
proof -
  have "vma_at vs' a = Some x \<longleftrightarrow> vma_at vs a = Some x" for x
    using assms(3) unfolding vma_at_iff[OF assms(1)] vma_at_iff[OF assms(2)] by blast
  then show ?thesis by (metis option.exhaust)
qed

lemma internal_find_vma_eq_vma_at:
  assumes "vma_inv vs" shows "internal_find_vma vs a = vma_at vs a"
proof (cases "a \<ge> USER_LOW_HALF_LIMIT")
  case True
  have "vma_at vs a \<noteq> Some x" for x
    using assms True area_okD(2)[of x] unfolding vma_at_iff[OF assms]
    by (auto simp: vma_inv_mset)
  with True show ?thesis by (cases "vma_at vs a") (auto simp: internal_find_vma_def)
qed (simp add: internal_find_vma_def vma_at_def)


subsection \<open>Adding and removing an area\<close>

lemma place_vma_mset:
  "place_vma e xs = Some ys \<Longrightarrow>
     mset (filter v_used ys) = add_mset (e\<lparr>v_used := True\<rparr>) (mset (filter v_used xs)) \<and>
     length ys = length xs"
  by (induction xs arbitrary: ys) (auto split: if_splits option.splits)

lemma place_vma_None: "place_vma e xs = None \<longleftrightarrow> (\<forall>x\<in>set xs. v_used x)"
  by (induction xs) (auto split: option.splits)

lemma clear_vma_mset:
  "clear_vma s e xs = Some ys \<Longrightarrow>
     (\<exists>x\<in>set xs. v_used x \<and> v_start x = s \<and> v_end x = e \<and>
        mset (filter v_used xs) = add_mset x (mset (filter v_used ys))) \<and> length ys = length xs"
  by (induction xs arbitrary: ys) (auto simp: zero_vma_def split: if_splits option.splits)

lemma clear_vma_None:
  "clear_vma s e xs = None \<longleftrightarrow> (\<forall>x\<in>set xs. \<not> (v_used x \<and> v_start x = s \<and> v_end x = e))"
  by (induction xs) (auto split: option.splits)

lemma unat_count_bounds:
  assumes "vma_inv vs"
  shows "unat (vc_count vs) \<le> MAX_VMAS"
  using assms length_filter_le[of v_used "vc_entries vs"] by (simp add: vma_inv_def used_areas_def)

lemma vma_init_inv [inv_intros]: "vma_inv internal_init_vmas"
  by (simp add: vma_inv_def internal_init_vmas_def used_areas_def zero_vma_def)

lemma internal_add_vma_mset:
  assumes "vma_inv vs" "internal_add_vma vs e = Some vs'"
  shows "mset (used_areas vs') = add_mset (e\<lparr>v_used := True\<rparr>) (mset (used_areas vs))"
  using assms(2) place_vma_mset
  by (fastforce simp: internal_add_vma_def used_areas_def split: if_splits option.splits)

lemma internal_add_vma_inv [inv_intros]:
  assumes inv: "vma_inv vs" and add: "internal_add_vma vs e = Some vs'"
  shows "vma_inv vs'"
proof -
  let ?e = "e\<lparr>v_used := True\<rparr>"
  from add obtain es where
    es: "place_vma e (vc_entries vs) = Some es" "vs' = vs\<lparr>vc_entries := es, vc_count := vc_count vs + 1\<rparr>"
    and ok: "vma_range_bounds (v_start e) (v_end e)" "\<not> permissions_wx (v_permissions e)"
    and lt: "unat (vc_count vs) < MAX_VMAS" and free: "\<not> list_ex (areas_clash e) (vc_entries vs)"
    by (auto simp: internal_add_vma_def split: if_splits option.splits)
  have "unat (vc_count vs + 1) = Suc (unat (vc_count vs))"
    using lt by (intro unat_plus_one) (simp add: MAX_VMAS_def)
  moreover have "areas_apart ?e y" if "y \<in># mset (used_areas vs)" for y
    using free that by (auto simp: list_ex_iff areas_clash_def areas_apart_def in_used_areas)
  moreover have "area_ok ?e" using ok by (simp add: area_ok_def)
  moreover have "length (vc_entries vs') = MAX_VMAS"
    using place_vma_mset[OF es(1)] inv es(2) by (simp add: vma_inv_def)
  ultimately show ?thesis
    using inv unfolding vma_inv_mset internal_add_vma_mset[OF inv add]
    by (auto simp: es(2) apart_mset_add)
qed

lemma internal_add_vma_at:
  assumes inv: "vma_inv vs" and add: "internal_add_vma vs e = Some vs'"
  shows "vma_at vs' a = (if v_start e \<le> a \<and> a < v_end e then Some (e\<lparr>v_used := True\<rparr>) else vma_at vs a)"
proof -
  note at' = vma_at_iff[OF internal_add_vma_inv[OF inv add]] internal_add_vma_mset[OF inv add]
  show ?thesis
  proof (cases "v_start e \<le> a \<and> a < v_end e")
    case False
    then have "vma_at vs' a = vma_at vs a"
      by (intro vma_at_cong inv internal_add_vma_inv[OF inv add]) (auto simp: at')
    with False show ?thesis by auto
  qed (simp add: at')
qed

lemma internal_remove_vma_mset:
  assumes "internal_remove_vma vs s t = Some vs'"
  obtains x where "v_start x = s" "v_end x = t" "mset (used_areas vs) = add_mset x (mset (used_areas vs'))"
  using assms clear_vma_mset
  by (fastforce simp: internal_remove_vma_def used_areas_def split: option.splits)

lemma internal_remove_vma_inv [inv_intros]:
  assumes inv: "vma_inv vs" and rem: "internal_remove_vma vs s t = Some vs'"
  shows "vma_inv vs'"
proof -
  from rem obtain x where x: "mset (used_areas vs) = add_mset x (mset (used_areas vs'))"
    by (rule internal_remove_vma_mset)
  have "vc_count vs \<noteq> 0" using inv x by (auto simp: vma_inv_mset)
  then have "unat (vc_count vs - 1) = unat (vc_count vs) - 1" by (rule unat_minus_one)
  moreover have "length (vc_entries vs') = MAX_VMAS" "vc_count vs' = vc_count vs - 1"
    using rem clear_vma_mset inv
    by (fastforce simp: internal_remove_vma_def vma_inv_def split: option.splits)+
  ultimately show ?thesis using inv unfolding vma_inv_mset x by (auto simp: apart_mset_add)
qed

lemma internal_remove_vma_at:
  assumes inv: "vma_inv vs" and rem: "internal_remove_vma vs s t = Some vs'"
  shows "vma_at vs' a = (if s \<le> a \<and> a < t then None else vma_at vs a)"
proof -
  from rem obtain x where x: "v_start x = s" "v_end x = t"
    "mset (used_areas vs) = add_mset x (mset (used_areas vs'))"
    by (rule internal_remove_vma_mset)
  have apart: "areas_apart x y" if "y \<in># mset (used_areas vs')" for y
    using inv that by (auto simp: vma_inv_mset x(3) apart_mset_add)
  show ?thesis
  proof (cases "s \<le> a \<and> a < t")
    case True
    with apart x(1,2) show ?thesis by (fastforce simp: vma_at_None_iff areas_apart_def)
  next
    case False
    then have "vma_at vs' a = vma_at vs a"
      by (intro vma_at_cong inv internal_remove_vma_inv[OF inv rem]) (auto simp: x)
    with False show ?thesis by auto
  qed
qed


subsection \<open>Range checks\<close>

lemma vma_at_covers: "vma_at vs a = Some x \<Longrightarrow> v_start x \<le> a \<and> a < v_end x"
  by (auto simp: vma_at_def find_Some_iff area_covers_def)

text \<open>The same area answers for every address it covers.\<close>

lemma vma_at_same:
  assumes "vma_inv vs" "vma_at vs a = Some x" "v_start x \<le> b" "b < v_end x"
  shows "vma_at vs b = Some x"
  using assms(2-) vma_at_iff[OF assms(1)] by blast

lemma vma_walk_iff:
  assumes "vma_inv vs"
  shows "vma_walk ok vs cursor e \<longleftrightarrow>
           (\<forall>a. cursor \<le> a \<and> a < e \<longrightarrow> (\<exists>x. vma_at vs a = Some x \<and> ok x))"
  using assms
proof (induction ok vs cursor e rule: vma_walk.induct)
  case (1 ok vs cursor e)
  note walk = vma_walk.simps[of ok vs cursor e] internal_find_vma_eq_vma_at[OF 1(2)]
  show ?case
  proof (cases "cursor < e \<and> (\<exists>x. vma_at vs cursor = Some x \<and> ok x)")
    case False
    then show ?thesis by (cases "vma_at vs cursor") (auto simp: walk)
  next
    case True
    then obtain x where x: "vma_at vs cursor = Some x" "ok x" and lt: "cursor < e" by blast
    from vma_at_covers[OF x(1)] have cov: "v_start x \<le> cursor" "cursor < v_end x" by auto
    let ?c = "if v_end x < e then v_end x else e"
    have "vma_walk ok vs cursor e \<longleftrightarrow> vma_walk ok vs ?c e"
      using x lt cov by (auto simp: walk not_le)
    also have "\<dots> \<longleftrightarrow> (\<forall>a. ?c \<le> a \<and> a < e \<longrightarrow> (\<exists>x. vma_at vs a = Some x \<and> ok x))"
      using 1 x lt cov by (simp add: internal_find_vma_eq_vma_at not_le)
    also have "\<dots> \<longleftrightarrow> (\<forall>a. cursor \<le> a \<and> a < e \<longrightarrow> (\<exists>x. vma_at vs a = Some x \<and> ok x))"
    proof -
      have "\<exists>x. vma_at vs a = Some x \<and> ok x" if "cursor \<le> a" "a < ?c" for a
        using vma_at_same[OF 1(2) x(1), of a] that cov x(2) by (auto split: if_splits)
      moreover have "cursor \<le> ?c" using lt cov by auto
      ultimately show ?thesis by (meson le_less_linear order_trans)
    qed
    finally show ?thesis .
  qed
qed

lemma add_overflow_eq: "add_overflow a b = (if unat a + unat b < 2 ^ 64 then Some (a + b) else None)"
  using no_olen_add_nat[of a b] by (auto simp: add_overflow_def Let_def not_less)

lemma unat_USER_LOW_HALF_LIMIT: "unat USER_LOW_HALF_LIMIT = 2 ^ 47"
  by (simp add: USER_LOW_HALF_LIMIT_def)

lemma user_range_valid_iff:
  "user_range_valid base len \<longleftrightarrow> len \<noteq> 0 \<and> unat base + unat len \<le> 2 ^ 47"
proof (cases "unat base + unat len < 2 ^ 64")
  case True
  then have "base + len \<le> USER_LOW_HALF_LIMIT \<longleftrightarrow> unat base + unat len \<le> 2 ^ 47"
    using unat_plus_if_no_wrap[of base len]
    by (simp add: word_le_nat_alt unat_USER_LOW_HALF_LIMIT)
  with True show ?thesis by (simp add: user_range_valid_def add_overflow_eq)
qed (simp add: user_range_valid_def add_overflow_eq)

lemma user_range_valid_nonempty: "user_range_valid base len \<Longrightarrow> len \<noteq> 0"
  by (simp add: user_range_valid_iff)

lemma range_in_low_half_overflow: "user_range_valid base len \<Longrightarrow> add_overflow base len = Some (base + len)"
  by (simp add: user_range_valid_iff add_overflow_eq)

lemma internal_vma_range_allowed_iff:
  assumes "vma_inv vs"
  shows "internal_vma_range_allowed vs addr len perm \<longleftrightarrow>
     user_range_valid addr len \<and>
     (\<forall>a. addr \<le> a \<and> a < addr + len \<longrightarrow>
        (\<exists>x. vma_at vs a = Some x \<and> permissions_include (v_permissions x) perm))"
  by (cases "user_range_valid addr len")
     (auto simp: internal_vma_range_allowed_def vma_walk_iff[OF assms] range_in_low_half_overflow
           dest: user_range_valid_nonempty)

lemma runtime_range_allowed_iff:
  assumes "vma_inv vs"
  shows "runtime_range_allowed layout vs addr len perm \<longleftrightarrow>
     user_range_valid addr len \<and>
     (\<forall>a. addr \<le> a \<and> a < addr + len \<longrightarrow>
        (\<exists>x. vma_at vs a = Some x \<and> runtime_vma_allowed layout x \<and>
             permissions_include (v_permissions x) perm))"
  by (cases "user_range_valid addr len")
     (auto simp: runtime_range_allowed_def vma_walk_iff[OF assms] range_in_low_half_overflow
           dest: user_range_valid_nonempty)


subsection \<open>Staged operations cut exactly the requested range\<close>

text \<open>What an area says about an address it covers, apart from its bounds.\<close>

definition area_view :: "vma_entry \<Rightarrow> u8 \<times> vma_purpose \<times> vma_backing \<times> vma_growth" where
  "area_view x = (v_permissions x, v_purpose x, v_backing x, v_growth x)"

definition view_at :: "vma_collection \<Rightarrow> u64 \<Rightarrow> (u8 \<times> vma_purpose \<times> vma_backing \<times> vma_growth) option" where
  "view_at vs a = map_option area_view (vma_at vs a)"

definition mid_view :: "u8 option \<Rightarrow> (u8 \<times> vma_purpose \<times> vma_backing \<times> vma_growth) option
    \<Rightarrow> (u8 \<times> vma_purpose \<times> vma_backing \<times> vma_growth) option" where
  "mid_view mid old = (case mid of None \<Rightarrow> None | Some perm \<Rightarrow> map_option (\<lambda>(_, r). (perm, r)) old)"

lemma clipped_vma_simps [simp]:
  "v_start (clipped_vma x s e) = s" "v_end (clipped_vma x s e) = e"
  "v_permissions (clipped_vma x s e) = v_permissions x"
  "v_purpose (clipped_vma x s e) = v_purpose x" "v_backing (clipped_vma x s e) = v_backing x"
  "v_growth (clipped_vma x s e) = v_growth x" "v_used (clipped_vma x s e) = v_used x"
  by (simp_all add: clipped_vma_def Let_def)

lemma clipped_vma_materialized:
  assumes "s \<le> e"
  shows "s \<le> v_materialized_start (clipped_vma x s e)" "v_materialized_start (clipped_vma x s e) \<le> e"
    "s \<le> v_materialized_end (clipped_vma x s e)" "v_materialized_end (clipped_vma x s e) \<le> e"
  using assms by (auto simp: clipped_vma_def Let_def)

lemma add_vma_if_inv:
  assumes "vma_inv vs" "add_vma_if c vs e = Some vs'" shows "vma_inv vs'"
  using assms by (auto simp: add_vma_if_def intro: inv_intros split: if_splits)

lemma add_vma_if_view:
  assumes "vma_inv vs" "add_vma_if c vs e = Some vs'"
  shows "view_at vs' a = (if c \<and> v_start e \<le> a \<and> a < v_end e then Some (area_view e) else view_at vs a)"
  using assms internal_add_vma_at[OF assms(1), of e vs']
  by (auto simp: add_vma_if_def view_at_def area_view_def split: if_splits)

lemma stage_cutE:
  assumes inv: "vma_inv st" and cut: "stage_cut mid x c t st = Some st'"
  obtains s1 s2 s3 where
    "internal_remove_vma st (v_start x) (v_end x) = Some s1"
    "add_vma_if (v_start x < c) s1 (clipped_vma x (v_start x) c) = Some s2"
    "(case mid of None \<Rightarrow> Some s2
      | Some perm \<Rightarrow> internal_add_vma s2 ((clipped_vma x c t)\<lparr>v_permissions := perm\<rparr>)) = Some s3"
    "add_vma_if (t < v_end x) s3 (clipped_vma x t (v_end x)) = Some st'"
    "vma_inv s1" "vma_inv s2" "vma_inv s3" "vma_inv st'"
proof -
  from cut obtain s1 s2 s3 where
    s1: "internal_remove_vma st (v_start x) (v_end x) = Some s1"
    and s2: "add_vma_if (v_start x < c) s1 (clipped_vma x (v_start x) c) = Some s2"
    and s3: "(case mid of None \<Rightarrow> Some s2
              | Some perm \<Rightarrow> internal_add_vma s2 ((clipped_vma x c t)\<lparr>v_permissions := perm\<rparr>)) = Some s3"
    and s4: "add_vma_if (t < v_end x) s3 (clipped_vma x t (v_end x)) = Some st'"
    by (auto simp: stage_cut_def split: option.splits)
  have i1: "vma_inv s1" using inv s1 by (rule inv_intros)
  have i2: "vma_inv s2" using i1 s2 by (rule add_vma_if_inv)
  have i3: "vma_inv s3" using s3 i2 by (auto intro: inv_intros split: option.splits)
  show thesis by (rule that[OF s1 s2 s3 s4 i1 i2 i3 add_vma_if_inv[OF i3 s4]])
qed

lemma stage_cut_view:
  assumes inv: "vma_inv st" and cut: "stage_cut mid x c t st = Some st'"
    and x: "x \<in># mset (used_areas st)" and ord: "v_start x \<le> c" "c < t" "t \<le> v_end x"
  shows "view_at st' a = (if c \<le> a \<and> a < t then mid_view mid (view_at st a) else view_at st a)"
proof -
  from inv cut obtain s1 s2 s3 where
    s1: "internal_remove_vma st (v_start x) (v_end x) = Some s1"
    and s2: "add_vma_if (v_start x < c) s1 (clipped_vma x (v_start x) c) = Some s2"
    and s3: "(case mid of None \<Rightarrow> Some s2
              | Some perm \<Rightarrow> internal_add_vma s2 ((clipped_vma x c t)\<lparr>v_permissions := perm\<rparr>)) = Some s3"
    and s4: "add_vma_if (t < v_end x) s3 (clipped_vma x t (v_end x)) = Some st'"
    and i1: "vma_inv s1" and i2: "vma_inv s2" and i3: "vma_inv s3"
    by (rule stage_cutE)
  have in_x: "view_at st b = Some (area_view x)" if "v_start x \<le> b" "b < v_end x" for b
    using vma_at_iff[OF inv, of b x] x that by (simp add: view_at_def)
  have v1: "view_at s1 b = (if v_start x \<le> b \<and> b < v_end x then None else view_at st b)" for b
    by (simp add: view_at_def internal_remove_vma_at[OF inv s1])
  have v3: "view_at s3 b = (if c \<le> b \<and> b < t \<and> mid \<noteq> None
              then Some (the mid, v_purpose x, v_backing x, v_growth x) else view_at s2 b)" for b
    using s3 internal_add_vma_at[OF i2]
    by (auto simp: view_at_def area_view_def split: option.splits)
  show ?thesis
    using ord in_x[of a]
    by (auto simp: add_vma_if_view[OF i3 s4] v3 add_vma_if_view[OF i1 s2] v1 area_view_def mid_view_def
             split: option.splits)
qed


lemma used_same_range:
  assumes "vma_inv vs" "x \<in># mset (used_areas vs)" "y \<in># mset (used_areas vs)"
    "v_start x = v_start y" "v_end x = v_end y"
  shows "x = y"
proof (rule ccontr)
  assume "x \<noteq> y"
  with assms have "areas_apart x y" "area_ok x"
    using apart_msetD[of "mset (used_areas vs)" x y] by (auto simp: vma_inv_mset)
  with assms(4,5) show False using area_okD(1)[of x] by (simp add: areas_apart_def)
qed

lemma add_vma_if_keeps:
  assumes "vma_inv vs" "add_vma_if c vs e = Some vs'" "y \<in># mset (used_areas vs)"
  shows "y \<in># mset (used_areas vs')"
proof (cases c)
  case True
  then have "internal_add_vma vs e = Some vs'" using assms(2) by (simp add: add_vma_if_def)
  from internal_add_vma_mset[OF assms(1) this] assms(3) show ?thesis by (simp only: set_mset_add_mset_insert insert_iff simp_thms)
qed (use assms in \<open>auto simp: add_vma_if_def\<close>)

lemma stage_cut_keeps:
  assumes inv: "vma_inv st" and cut: "stage_cut mid x c t st = Some st'"
    and x: "x \<in># mset (used_areas st)" and y: "y \<in># mset (used_areas st)" "y \<noteq> x"
  shows "y \<in># mset (used_areas st')"
proof -
  from inv cut obtain s1 s2 s3 where
    s1: "internal_remove_vma st (v_start x) (v_end x) = Some s1"
    and s2: "add_vma_if (v_start x < c) s1 (clipped_vma x (v_start x) c) = Some s2"
    and s3: "(case mid of None \<Rightarrow> Some s2
              | Some perm \<Rightarrow> internal_add_vma s2 ((clipped_vma x c t)\<lparr>v_permissions := perm\<rparr>)) = Some s3"
    and s4: "add_vma_if (t < v_end x) s3 (clipped_vma x t (v_end x)) = Some st'"
    and i1: "vma_inv s1" and i2: "vma_inv s2" and i3: "vma_inv s3"
    by (rule stage_cutE)
  from s1 obtain z where z: "v_start z = v_start x" "v_end z = v_end x"
    "mset (used_areas st) = add_mset z (mset (used_areas s1))"
    by (rule internal_remove_vma_mset)
  have "z = x" using used_same_range[OF inv, of z x] x z by simp
  with y z have "y \<in># mset (used_areas s1)" by simp
  then have "y \<in># mset (used_areas s2)" by (rule add_vma_if_keeps[OF i1 s2])
  then have "y \<in># mset (used_areas s3)"
    using s3 add_vma_if_keeps[OF i2, of True] by (auto simp: add_vma_if_def split: option.splits)
  then show ?thesis by (rule add_vma_if_keeps[OF i3 s4])
qed

lemma stage_loop_correct:
  assumes "vma_inv vs" "vma_inv st"
    and "\<forall>y\<in>#mset (used_areas vs). cursor < v_end y \<longrightarrow> y \<in># mset (used_areas st)"
    and "stage_loop cmp mid vs cursor e st = Some st'"
  shows "vma_inv st' \<and>
    (\<forall>a. view_at st' a = (if cursor \<le> a \<and> a < e then mid_view mid (view_at st a) else view_at st a))"
  using assms
proof (induction cmp mid vs cursor e st rule: stage_loop.induct)
  case (1 cmp mid vs cursor e st)
  note find = internal_find_vma_eq_vma_at[OF 1(2)]
  show ?case
  proof (cases "cursor < e")
    case False
    with 1(5) 1(3) show ?thesis by (auto simp: stage_loop.simps[of cmp mid vs cursor e st])
  next
    case lt: True
    with 1(5) obtain x st1 where x: "vma_at vs cursor = Some x" "cmp (Some x)"
      and cut: "stage_cut mid x cursor (if v_end x < e then v_end x else e) st = Some st1"
      and rest: "stage_loop cmp mid vs (if v_end x < e then v_end x else e) e st1 = Some st'"
      by (auto simp: stage_loop.simps[of cmp mid vs cursor e st] find Let_def
               split: option.splits if_splits)
    define t where "t = (if v_end x < e then v_end x else e)"
    from vma_at_covers[OF x(1)] lt have t: "v_start x \<le> cursor" "cursor < t" "t \<le> v_end x" "t \<le> e"
      by (auto simp: t_def)
    have xin: "x \<in># mset (used_areas vs)" using vma_at_iff[OF 1(2)] x(1) by blast
    with 1(4) t have xst: "x \<in># mset (used_areas st)" by simp
    note cut = cut[folded t_def] and rest = rest[folded t_def]
    have inv1: "vma_inv st1" using 1(3) cut by (rule stage_cutE)
    have view1: "view_at st1 a = (if cursor \<le> a \<and> a < t then mid_view mid (view_at st a) else view_at st a)"
      for a by (rule stage_cut_view[OF 1(3) cut xst t(1-3)])
    have "vma_inv st' \<and>
      (\<forall>a. view_at st' a = (if t \<le> a \<and> a < e then mid_view mid (view_at st1 a) else view_at st1 a))"
    proof (cases "v_end x < e")
      case True
      then have teq: "t = v_end x" by (simp add: t_def)
      have "\<forall>y\<in>#mset (used_areas vs). t < v_end y \<longrightarrow> y \<in># mset (used_areas st1)"
        using 1(4) t(2) stage_cut_keeps[OF 1(3) cut xst] unfolding teq
        by (metis less_irrefl order_less_trans)
      with 1(1)[OF lt, of x t st1] x t(2,3) cut rest inv1 1(2) show ?thesis
        by (simp add: find t_def not_le)
    next
      case False
      with rest inv1 show ?thesis by (auto simp: t_def stage_loop.simps[of _ _ _ e e])
    qed
    with view1 t show ?thesis by auto
  qed
qed

lemma stage_loop_whole:
  assumes "vma_inv vs" "stage_loop cmp mid vs addr e vs = Some staged"
  shows "vma_inv staged"
    "view_at staged a = (if addr \<le> a \<and> a < e then mid_view mid (view_at vs a) else view_at vs a)"
  using stage_loop_correct[OF assms(1) assms(1) _ assms(2)] by auto

subsection \<open>Every area stays where the layout allows it\<close>

definition areas_allowed :: "user_runtime_layout \<Rightarrow> vma_collection \<Rightarrow> bool" where
  "areas_allowed layout vs \<longleftrightarrow> list_all (runtime_vma_allowed layout) (used_areas vs)"

lemma areas_allowed_mset: "areas_allowed l vs \<longleftrightarrow> (\<forall>x\<in>#mset (used_areas vs). runtime_vma_allowed l x)"
  by (simp add: areas_allowed_def list_all_iff)

lemma runtime_vma_allowed_used [simp]:
  "runtime_vma_allowed l (x\<lparr>v_used := u\<rparr>) = runtime_vma_allowed l x"
  by (cases "v_purpose x") (simp_all add: runtime_vma_allowed_def elf_backing_ok_def)

lemma areas_allowed_add:
  assumes "vma_inv vs" "areas_allowed l vs" "internal_add_vma vs e = Some vs'" "runtime_vma_allowed l e"
  shows "areas_allowed l vs'"
  unfolding areas_allowed_mset internal_add_vma_mset[OF assms(1,3)]
  using assms(2,4) by (simp add: areas_allowed_def list_all_iff)

lemma areas_allowed_remove:
  assumes "areas_allowed l vs" "internal_remove_vma vs s e = Some vs'"
  shows "areas_allowed l vs'"
  by (rule internal_remove_vma_mset[OF assms(2)]) (use assms(1) in \<open>auto simp: areas_allowed_mset\<close>)

lemma range_inside_sub: "range_inside s e r \<Longrightarrow> s \<le> s' \<Longrightarrow> e' \<le> e \<Longrightarrow> range_inside s' e' r"
  by (auto simp: range_inside_def split: if_splits option.splits)

text \<open>Clipping an anonymous or shared-object area, with or without new permissions, never takes it
  out of its window.\<close>

lemma runtime_vma_allowed_clip:
  assumes "runtime_vma_allowed l x" "v_purpose x = PurposeAnonymous \<or> v_purpose x = PurposeDynLib"
    and "v_start x \<le> s" "e \<le> v_end x" "vma_range_bounds s e"
  shows "runtime_vma_allowed l (clipped_vma x s e)"
    and "runtime_vma_allowed l ((clipped_vma x s e)\<lparr>v_permissions := p\<rparr>)"
proof -
  have "s \<le> e" using assms(5) by (auto simp: vma_range_bounds_def)
  note mat = clipped_vma_materialized[OF this, of x]
  show "runtime_vma_allowed l (clipped_vma x s e)"
    "runtime_vma_allowed l ((clipped_vma x s e)\<lparr>v_permissions := p\<rparr>)"
    using assms mat
    by (auto simp: runtime_vma_allowed_def not_less split: if_splits intro: range_inside_sub)
qed

lemma add_bounds: "internal_add_vma vs e = Some vs' \<Longrightarrow> vma_range_bounds (v_start e) (v_end e)"
  by (simp add: internal_add_vma_def split: if_splits)

lemma add_vma_if_allowed:
  assumes "vma_inv vs" "areas_allowed l vs" "add_vma_if c vs e = Some vs'"
    "vma_range_bounds (v_start e) (v_end e) \<Longrightarrow> runtime_vma_allowed l e"
  shows "areas_allowed l vs'"
  using assms areas_allowed_add[OF assms(1,2)] add_bounds
  by (auto simp: add_vma_if_def split: if_splits)

lemma stage_cut_allowed:
  assumes inv: "vma_inv st" and all: "areas_allowed l st"
    and cut: "stage_cut mid x c t st = Some st'"
    and x: "runtime_vma_allowed l x" "v_purpose x = PurposeAnonymous \<or> v_purpose x = PurposeDynLib"
    and ord: "v_start x \<le> c" "c < t" "t \<le> v_end x"
  shows "areas_allowed l st'"
proof -
  from inv cut obtain s1 s2 s3 where
    s1: "internal_remove_vma st (v_start x) (v_end x) = Some s1"
    and s2: "add_vma_if (v_start x < c) s1 (clipped_vma x (v_start x) c) = Some s2"
    and s3: "(case mid of None \<Rightarrow> Some s2
              | Some perm \<Rightarrow> internal_add_vma s2 ((clipped_vma x c t)\<lparr>v_permissions := perm\<rparr>)) = Some s3"
    and s4: "add_vma_if (t < v_end x) s3 (clipped_vma x t (v_end x)) = Some st'"
    and i1: "vma_inv s1" and i2: "vma_inv s2" and i3: "vma_inv s3"
    by (rule stage_cutE)
  have a1: "areas_allowed l s1" using all s1 by (rule areas_allowed_remove)
  have a2: "areas_allowed l s2"
    using ord by (intro add_vma_if_allowed[OF i1 a1 s2] runtime_vma_allowed_clip[OF x]) auto
  have a3: "areas_allowed l s3"
  proof (cases mid)
    case (Some perm)
    with s3 have add: "internal_add_vma s2 ((clipped_vma x c t)\<lparr>v_permissions := perm\<rparr>) = Some s3"
      by simp
    show ?thesis
      using ord add_bounds[OF add]
      by (intro areas_allowed_add[OF i2 a2 add] runtime_vma_allowed_clip[OF x]) auto
  qed (use a2 s3 in simp)
  show ?thesis
    using ord by (intro add_vma_if_allowed[OF i3 a3 s4] runtime_vma_allowed_clip[OF x]) auto
qed

text \<open>A compatible area of a staged loop is one of the two kinds above.\<close>

lemma stage_loop_allowed:
  assumes "vma_inv vs" "vma_inv st" "areas_allowed l vs" "areas_allowed l st"
    and "\<And>x. cmp (Some x) \<Longrightarrow> v_purpose x = PurposeAnonymous \<or> v_purpose x = PurposeDynLib"
    and "stage_loop cmp mid vs cursor e st = Some st'"
  shows "areas_allowed l st'"
  using assms
proof (induction cmp mid vs cursor e st rule: stage_loop.induct)
  case (1 cmp mid vs cursor e st)
  note find = internal_find_vma_eq_vma_at[OF 1(2)]
  show ?case
  proof (cases "cursor < e")
    case False
    with 1(7) 1(5) show ?thesis by (auto simp: stage_loop.simps[of cmp mid vs cursor e st])
  next
    case lt: True
    with 1(7) obtain x st1 where x: "vma_at vs cursor = Some x" "cmp (Some x)"
      and cut: "stage_cut mid x cursor (if v_end x < e then v_end x else e) st = Some st1"
      and rest: "stage_loop cmp mid vs (if v_end x < e then v_end x else e) e st1 = Some st'"
      by (auto simp: stage_loop.simps[of cmp mid vs cursor e st] find Let_def
               split: option.splits if_splits)
    note cov = vma_at_covers[OF x(1)]
    have "runtime_vma_allowed l x"
      using vma_at_iff[OF 1(2)] x(1) 1(4) by (auto simp: areas_allowed_mset)
    then have a1: "areas_allowed l st1"
      using cov lt by (intro stage_cut_allowed[OF 1(3) 1(5) cut _ 1(6)[OF x(2)]]) auto
    have "vma_inv st1" using 1(3) cut by (rule stage_cutE)
    then show ?thesis
      using 1(1)[OF lt, of x _ st1] x cov cut rest 1 a1 by (simp add: find not_le)
  qed
qed

subsection \<open>The windows of a committed layout\<close>

text \<open>The order of the windows in the address space; code and data share the ELF window, and the
  stack window is the growth range and the initial stack together.\<close>

fun window_rank :: "vma_purpose \<Rightarrow> nat" where
  "window_rank PurposeCode = 0" | "window_rank PurposeData = 0" | "window_rank PurposeHeap = 1"
| "window_rank PurposeStackGuard = 2" | "window_rank PurposeStack = 3"
| "window_rank PurposeDynInterp = 4" | "window_rank PurposeDynLib = 5"
| "window_rank PurposeAnonymous = 6" | "window_rank PurposeFileMapped = 7"

fun window_lo :: "u64 \<Rightarrow> vma_purpose \<Rightarrow> u64" where
  "window_lo heap PurposeCode = 0" | "window_lo heap PurposeData = 0" | "window_lo heap PurposeHeap = heap"
| "window_lo heap PurposeStackGuard = 0x7fa000" | "window_lo heap PurposeStack = 0x7fb000"
| "window_lo heap PurposeDynInterp = 0x900000" | "window_lo heap PurposeDynLib = 0xa00000"
| "window_lo heap PurposeAnonymous = 0x1000000" | "window_lo heap PurposeFileMapped = 0x4000000"

fun window_hi :: "u64 \<Rightarrow> vma_purpose \<Rightarrow> u64" where
  "window_hi heap PurposeCode = heap" | "window_hi heap PurposeData = heap"
| "window_hi heap PurposeHeap = 0x7fa000" | "window_hi heap PurposeStackGuard = 0x7fb000"
| "window_hi heap PurposeStack = 0x800000" | "window_hi heap PurposeDynInterp = 0x940000"
| "window_hi heap PurposeDynLib = 0xb00000" | "window_hi heap PurposeAnonymous = 0x1020000"
| "window_hi heap PurposeFileMapped = 0x4020000"

lemma init_runtime_layoutD:
  assumes "init_runtime_layout lo hi heap dyn = Some l"
  shows "runtime_layout_valid l" "hi \<le> heap" "heap \<le> heap + 0x10000" "heap + 0x10000 \<le> 0x7fa000"
    and "l_elf_load l = mk_range lo (hi - lo)" "l_heap l = mk_range heap 0x10000"
    and "l_stack_guard l = mk_range 0x7fa000 0x1000" "l_stack_growth l = mk_range 0x7fb000 0x4000"
    and "l_stack l = mk_range 0x7ff000 0x1000" "l_anonymous l = mk_range 0x1000000 0x20000"
    and "l_file_mapped l = mk_range 0x4000000 0x20000" "l_dynamic l = dyn"
    and "dyn \<Longrightarrow> l_dyn_interp l = mk_range 0x900000 0x40000"
    and "dyn \<Longrightarrow> l_dyn_lib l = mk_range 0xa00000 0x100000"
  using assms
  by (auto simp: init_runtime_layout_def add_overflow_def Let_def layout_consts not_less
           split: if_splits option.splits)

definition purpose_range :: "user_runtime_layout \<Rightarrow> vma_purpose \<Rightarrow> user_range" where
  "purpose_range l p = (case p of PurposeCode \<Rightarrow> l_elf_load l | PurposeData \<Rightarrow> l_elf_load l
     | PurposeHeap \<Rightarrow> l_heap l | PurposeAnonymous \<Rightarrow> l_anonymous l | PurposeStack \<Rightarrow> l_stack l
     | PurposeStackGuard \<Rightarrow> l_stack_guard l | PurposeFileMapped \<Rightarrow> l_file_mapped l
     | PurposeDynInterp \<Rightarrow> l_dyn_interp l | PurposeDynLib \<Rightarrow> l_dyn_lib l)"

lemma runtime_vma_allowed_range:
  assumes "runtime_vma_allowed l x"
  shows "if v_purpose x = PurposeStack
         then range_inside_pair (v_start x) (v_end x) (l_stack_growth l) (l_stack l)
         else range_inside (v_start x) (v_end x) (purpose_range l (v_purpose x))"
    and "v_purpose x = PurposeDynInterp \<or> v_purpose x = PurposeDynLib \<Longrightarrow> l_dynamic l"
  using assms
  by (cases "v_purpose x"; simp add: runtime_vma_allowed_def purpose_range_def split: if_splits)+

lemma range_insideD:
  "range_inside s e (mk_range b n) \<Longrightarrow> b \<le> s \<and> e \<le> b + n"
  "range_inside_pair s e (mk_range c m) (mk_range b n) \<Longrightarrow> c \<le> s \<and> e \<le> b + n"
  by (auto simp: range_inside_def range_inside_pair_def add_overflow_def Let_def split: if_splits)

lemma runtime_vma_allowed_window:
  assumes l: "init_runtime_layout lo hi heap dyn = Some l" and ok: "runtime_vma_allowed l x"
  shows "window_lo heap (v_purpose x) \<le> v_start x \<and> v_end x \<le> window_hi heap (v_purpose x)"
  using runtime_vma_allowed_range[OF ok] init_runtime_layoutD[OF l]
  by (cases "v_purpose x") (force simp: purpose_range_def dest: range_insideD)+

lemma window_order:
  assumes "heap \<le> 0x7fa000" "window_rank p < window_rank q"
  shows "window_hi heap p \<le> window_lo heap q"
  using assms by (cases p; cases q) (simp_all add: order_trans[of heap "0x7fa000"])

subsection \<open>A concrete table for the witnesses\<close>

definition demo_layout :: user_runtime_layout where
  "demo_layout = the (init_runtime_layout 0x400000 0x401000 0x401000 False)"

definition demo_area :: vma_entry where
  "demo_area = \<lparr>v_start = 0x1000000, v_end = 0x1004000, v_materialized_start = 0x1000000,
     v_materialized_end = 0x1002000, v_permissions = 3, v_purpose = PurposeAnonymous,
     v_backing = BackingAnonymous, v_growth = GrowthNone, v_used = True,
     v_file_backing = None, v_file_offset = 0\<rparr>"

definition demo_vmas :: vma_collection where
  "demo_vmas = the (internal_add_vma internal_init_vmas demo_area)"

lemma demo_vmas_inv: "vma_inv demo_vmas"
  by code_simp

section \<open>Properties\<close>

text \<open>C3. A successful staged unmap keeps the table well formed and removes exactly the requested
  addresses: inside the range no area answers any more, and outside it every address keeps its
  permissions, purpose, backing and growth, although areas were split and re-clipped.\<close>

theorem stage_anonymous_unmap_correct:
  assumes "vma_inv vs" and "stage_anonymous_unmap layout vs addr e = Some staged"
  shows "vma_inv staged \<and> view_at staged a = (if addr \<le> a \<and> a < e then None else view_at vs a)"
  using stage_loop_whole[OF assms(1) assms(2)[unfolded stage_anonymous_unmap_def]]
  by (simp add: mid_view_def)

theorem stage_anonymous_unmap_correct_witness:
  "\<exists>st. stage_anonymous_unmap demo_layout demo_vmas 0x1001000 0x1002000 = Some st \<and>
        vma_inv demo_vmas \<and> vma_inv st \<and> view_at st 0x1001000 = None \<and>
        view_at st 0x1003fff = view_at demo_vmas 0x1003fff"
proof -
  have "stage_anonymous_unmap demo_layout demo_vmas 0x1001000 0x1002000 \<noteq> None" by code_simp
  then obtain st where st: "stage_anonymous_unmap demo_layout demo_vmas 0x1001000 0x1002000 = Some st"
    by blast
  show ?thesis
    using stage_anonymous_unmap_correct[OF demo_vmas_inv st, of "0x1001000"]
      stage_anonymous_unmap_correct[OF demo_vmas_inv st, of "0x1003fff"] st demo_vmas_inv
    by simp
qed



text \<open>C5. The cursor walk of the syscall range check is sound and complete: it accepts a range
  exactly when the range is non-empty, lies in the low half, and every single address of it is
  covered by an area that the layout allows and that carries the requested permission.\<close>

theorem runtime_range_allowed_correct:
  assumes "vma_inv vs"
  shows "runtime_range_allowed layout vs addr len perm \<longleftrightarrow>
     len \<noteq> 0 \<and> unat addr + unat len \<le> 2 ^ 47 \<and>
     (\<forall>a. addr \<le> a \<and> a < addr + len \<longrightarrow>
        (\<exists>x. vma_at vs a = Some x \<and> runtime_vma_allowed layout x \<and>
             permissions_include (v_permissions x) perm))"
  by (simp add: runtime_range_allowed_iff[OF assms] user_range_valid_iff)

theorem runtime_range_allowed_correct_witness:
  "vma_inv demo_vmas \<and> runtime_range_allowed demo_layout demo_vmas 0x1000ff0 0x20 PermWrite \<and>
   (\<exists>x. vma_at demo_vmas 0x1001000 = Some x \<and> permissions_include (v_permissions x) PermWrite)"
proof -
  have "runtime_range_allowed demo_layout demo_vmas 0x1000ff0 0x20 PermWrite" by code_simp
  with runtime_range_allowed_correct[OF demo_vmas_inv, of demo_layout "0x1000ff0" "0x20" PermWrite]
  have "\<forall>a. 0x1000ff0 \<le> a \<and> a < 0x1000ff0 + 0x20 \<longrightarrow>
      (\<exists>x. vma_at demo_vmas a = Some x \<and> permissions_include (v_permissions x) PermWrite)"
    by blast
  from this[rule_format, of "0x1001000"]
  have "\<exists>x. vma_at demo_vmas 0x1001000 = Some x \<and> permissions_include (v_permissions x) PermWrite"
    by simp
  with \<open>runtime_range_allowed _ _ _ _ _\<close> demo_vmas_inv show ?thesis by blast
qed


text \<open>C6. Under any layout the kernel commits, areas of different windows never touch each other:
  an area the policy admits in a lower window ends at or before the start of any area it admits in
  a higher one, so the heap cannot reach the stack guard, nor a mapping the stack.\<close>

theorem layout_windows_disjoint:
  assumes "init_runtime_layout elf_low elf_high heap_base dynamic = Some l"
    and "runtime_vma_allowed l x" "runtime_vma_allowed l y"
    and "window_rank (v_purpose x) < window_rank (v_purpose y)"
  shows "v_end x \<le> v_start y"
proof -
  have "heap_base \<le> 0x7fa000" using init_runtime_layoutD(3,4)[OF assms(1)] by (rule order_trans)
  from window_order[OF this assms(4)] runtime_vma_allowed_window[OF assms(1,2)]
    runtime_vma_allowed_window[OF assms(1,3)]
  show ?thesis by (meson order_trans)
qed

definition demo_heap :: vma_entry where
  "demo_heap = demo_area\<lparr>v_start := 0x401000, v_end := 0x411000, v_materialized_start := 0x401000,
     v_materialized_end := 0x401000, v_purpose := PurposeHeap, v_growth := GrowthUp\<rparr>"

theorem layout_windows_disjoint_witness:
  "init_runtime_layout 0x400000 0x401000 0x401000 False = Some demo_layout \<and>
   runtime_vma_allowed demo_layout demo_heap \<and> runtime_vma_allowed demo_layout demo_area \<and>
   v_end demo_heap \<le> v_start demo_area"
proof -
  have l: "init_runtime_layout 0x400000 0x401000 0x401000 False = Some demo_layout"
    unfolding demo_layout_def by code_simp
  have x: "runtime_vma_allowed demo_layout demo_heap" "runtime_vma_allowed demo_layout demo_area"
    "window_rank (v_purpose demo_heap) < window_rank (v_purpose demo_area)"
    by code_simp+
  show ?thesis using layout_windows_disjoint[OF l x] l x by blast
qed

end
