(* ===== verification/Process.thy ===== *)
theory Process
  imports Vma
begin

text \<open>
  The process object of \<^verbatim>\<open>include/bigos/proc.h\<close>, with the fields the modelled operations read or
  write: the address space, the life-cycle state, the identity quad, the ownership numbers and the
  signal state. Fields that only drive thread switching, the registry links and the file table are
  left out. The errno values of \<^verbatim>\<open>include/bigos/errno.h\<close> are integers; a system call returns them negated.
\<close>

section \<open>Error numbers\<close>

definition EPERM :: int where "EPERM = 1"
definition ESRCH :: int where "ESRCH = 3"
definition EBADF :: int where "EBADF = 9"
definition EWOULDBLOCK :: int where "EWOULDBLOCK = 11"
definition ENOMEM :: int where "ENOMEM = 12"
definition EACCES :: int where "EACCES = 13"
definition EFAULT :: int where "EFAULT = 14"
definition EINVAL :: int where "EINVAL = 22"

lemmas errno_defs = EPERM_def ESRCH_def EBADF_def EWOULDBLOCK_def ENOMEM_def EACCES_def EFAULT_def EINVAL_def

section \<open>Processes\<close>

datatype process_state =
  StateEmpty | Created | Running | Terminated | Faulted | Zombie | ReapPending | Reaped

datatype sig_action = ActionDefault | ActionIgnore | ActionHandler

record sig_disposition =
  sd_action :: sig_action
  sd_handler :: u64

record process =
  p_pid :: u32
  p_address_space_root :: u64
  p_runtime_layout :: user_runtime_layout
  p_vmas :: vma_collection
  p_state :: process_state
  p_uid :: u32
  p_gid :: u32
  p_euid :: u32
  p_egid :: u32
  p_sig_pending :: u64
  p_sig_mask :: u64
  p_sig_disp :: "sig_disposition list"

end
