(* ===== verification/Page_Table.thy ===== *)
theory Page_Table
  imports Vma
begin

text \<open>
  User page tables, from \<^verbatim>\<open>kernel/mm/vmem.cc\<close>: the table-frame registry, the four-level walk,
  mapping with roll-back, unmapping with reclamation of empty tables, tear-down, and the
  copy-on-write frame reference counts. Table frames are seen as arrays of 512 descriptors,
  data frames as bytes; the physical frame allocator is an argument, a record of its two
  entry points over an abstract heap. Interrupt guards and TLB maintenance have no effect on the
  state modelled here and are left out.
\<close>

section \<open>Descriptors\<close>

definition PAGING_DESCRIPTOR_ADDR_MASK :: u64 where "PAGING_DESCRIPTOR_ADDR_MASK = 0x000ffffffffff000"
definition PAGING_DESCRIPTOR_LARGE_PAGE :: u64 where "PAGING_DESCRIPTOR_LARGE_PAGE = 0x80"
definition DEFAULT_ATTR_PML4E :: u64 where "DEFAULT_ATTR_PML4E = 3"
definition INDEX_MASK :: u64 where "INDEX_MASK = 0x1ff"
definition INVALID_PHYS_ADDR :: u64 where "INVALID_PHYS_ADDR = 0xffffffffffffffff"
definition KDIRECT_LEN :: u64 where "KDIRECT_LEN = 0x400000000000"

definition ATTR_PRESENT :: u64 where "ATTR_PRESENT = 1"
definition ATTR_WRITABLE :: u64 where "ATTR_WRITABLE = 2"
definition ATTR_USER :: u64 where "ATTR_USER = 4"
definition ATTR_NO_EXECUTE :: u64 where "ATTR_NO_EXECUTE = 0x8000000000000000"
definition ATTR_PTE_COW :: u64 where "ATTR_PTE_COW = 0x200"

lemmas attr_defs = ATTR_PRESENT_def ATTR_WRITABLE_def ATTR_USER_def ATTR_NO_EXECUTE_def ATTR_PTE_COW_def

abbreviation frame_of :: "u64 \<Rightarrow> u64" where
  "frame_of d \<equiv> d AND PAGING_DESCRIPTOR_ADDR_MASK"

definition get_pml4_index :: "u64 \<Rightarrow> u64" where "get_pml4_index a = drop_bit 39 a AND INDEX_MASK"
definition get_pdpt_index :: "u64 \<Rightarrow> u64" where "get_pdpt_index a = drop_bit 30 a AND INDEX_MASK"
definition get_pd_index :: "u64 \<Rightarrow> u64" where "get_pd_index a = drop_bit 21 a AND INDEX_MASK"
definition get_pt_index :: "u64 \<Rightarrow> u64" where "get_pt_index a = drop_bit 12 a AND INDEX_MASK"

definition paging_present :: "u64 \<Rightarrow> bool" where
  "paging_present d \<longleftrightarrow> d AND 1 \<noteq> 0"

section \<open>State\<close>

datatype page_table_owner = OwnerNone | KernelVmem | UserAddressSpace
datatype page_table_level = Pml4 | Pdpt | Pd | Pt

record page_table_metadata =
  m_used :: bool
  m_owner :: page_table_owner
  m_level :: page_table_level
  m_root_phys :: u64
  m_frame_phys :: u64
  m_present_entries :: u16

definition PAGE_TABLE_METADATA_CAPACITY :: nat where "PAGE_TABLE_METADATA_CAPACITY = 512"

record 'h vm_state =
  vm_tables :: "u64 \<Rightarrow> u64 \<Rightarrow> u64"
  vm_bytes :: "u64 \<Rightarrow> u8"
  vm_meta :: "page_table_metadata list"
  vm_direct :: "(u64 \<times> u64) list"
  vm_refs :: "u64 \<Rightarrow> u16"
  vm_refs_max :: "u64 option"
  vm_cr3 :: u64
  vm_heap :: 'h

text \<open>The frame allocator: \<^verbatim>\<open>alloc_physical_order(0, 0)\<close>, with 0 for failure, and
  \<^verbatim>\<open>free_physical_order\<close>.\<close>

record 'h frame_ops =
  fo_alloc :: "'h \<Rightarrow> u64 \<times> 'h"
  fo_free :: "u64 \<Rightarrow> 'h \<Rightarrow> 'h"

definition alloc_frame :: "'h frame_ops \<Rightarrow> 'h vm_state \<Rightarrow> u64 \<times> 'h vm_state" where
  "alloc_frame ops st = (let (p, h) = fo_alloc ops (vm_heap st) in (p, st\<lparr>vm_heap := h\<rparr>))"

definition free_frame :: "'h frame_ops \<Rightarrow> u64 \<Rightarrow> 'h vm_state \<Rightarrow> 'h vm_state" where
  "free_frame ops p st = st\<lparr>vm_heap := fo_free ops p (vm_heap st)\<rparr>"

abbreviation entry_at :: "'h vm_state \<Rightarrow> u64 \<Rightarrow> u64 \<Rightarrow> u64" where
  "entry_at st f i \<equiv> vm_tables st f i"

definition set_entry :: "u64 \<Rightarrow> u64 \<Rightarrow> u64 \<Rightarrow> 'h vm_state \<Rightarrow> 'h vm_state" where
  "set_entry f i d st = st\<lparr>vm_tables := (vm_tables st)(f := (vm_tables st f)(i := d))\<rparr>"

definition zero_table :: "u64 \<Rightarrow> 'h vm_state \<Rightarrow> 'h vm_state" where
  "zero_table f st = st\<lparr>vm_tables := (vm_tables st)(f := (\<lambda>_. 0))\<rparr>"

definition direct_map_range_covered :: "'h vm_state \<Rightarrow> u64 \<Rightarrow> u64 \<Rightarrow> bool" where
  "direct_map_range_covered st phys len =
    (if len = 0 \<or> phys \<ge> KDIRECT_LEN then False
     else let e = phys + len in
       if e \<le> phys \<or> e > KDIRECT_LEN then False
       else list_ex (\<lambda>(base, n). phys \<ge> base \<and> e \<le> base + n) (vm_direct st))"

definition phys_to_direct :: "'h vm_state \<Rightarrow> u64 \<Rightarrow> u64 option" where
  \<comment> \<open>the direct-map pointer of a physical address, named by that address\<close>
  "phys_to_direct st phys = (if \<not> direct_map_range_covered st phys 1 then None else Some phys)"

definition direct_table :: "'h vm_state \<Rightarrow> u64 \<Rightarrow> u64 option" where
  "direct_table st phys = phys_to_direct st (frame_of phys)"

section \<open>The table registry\<close>

definition meta_matches :: "u64 \<Rightarrow> page_table_metadata \<Rightarrow> bool" where
  "meta_matches frame m \<longleftrightarrow> m_used m \<and> m_frame_phys m = frame"

definition find_page_table_metadata :: "'h vm_state \<Rightarrow> u64 \<Rightarrow> page_table_metadata option" where
  "find_page_table_metadata st frame = find (meta_matches (frame_of frame)) (vm_meta st)"

fun update_first :: "('a \<Rightarrow> bool) \<Rightarrow> ('a \<Rightarrow> 'a) \<Rightarrow> 'a list \<Rightarrow> 'a list" where
  "update_first P f [] = []"
| "update_first P f (x # xs) = (if P x then f x # xs else x # update_first P f xs)"

definition register_page_table ::
    "u64 \<Rightarrow> u64 \<Rightarrow> page_table_owner \<Rightarrow> page_table_level \<Rightarrow> 'h vm_state \<Rightarrow> 'h vm_state option" where
  "register_page_table root frame owner level st =
    (if find_page_table_metadata st (frame_of frame) \<noteq> None then None
     else if \<not> list_ex (\<lambda>m. \<not> m_used m) (vm_meta st) then None
     else Some (st\<lparr>vm_meta := update_first (\<lambda>m. \<not> m_used m)
            (\<lambda>_. \<lparr>m_used = True, m_owner = owner, m_level = level, m_root_phys = frame_of root,
                   m_frame_phys = frame_of frame, m_present_entries = 0\<rparr>) (vm_meta st)\<rparr>))"

definition update_metadata :: "u64 \<Rightarrow> (page_table_metadata \<Rightarrow> page_table_metadata) \<Rightarrow> 'h vm_state \<Rightarrow> 'h vm_state" where
  "update_metadata frame g st = st\<lparr>vm_meta := update_first (meta_matches (frame_of frame)) g (vm_meta st)\<rparr>"

definition unregister_page_table :: "u64 \<Rightarrow> 'h vm_state \<Rightarrow> 'h vm_state" where
  "unregister_page_table frame st = update_metadata frame (\<lambda>m. m\<lparr>m_used := False\<rparr>) st"

definition page_table_owned_by ::
    "'h vm_state \<Rightarrow> u64 \<Rightarrow> u64 \<Rightarrow> page_table_owner \<Rightarrow> page_table_level \<Rightarrow> bool" where
  "page_table_owned_by st frame root owner level =
    (case find_page_table_metadata st frame of
       None \<Rightarrow> False
     | Some m \<Rightarrow> m_owner m = owner \<and> m_level m = level \<and> m_root_phys m = frame_of root)"

definition increment_present_entry :: "u64 \<Rightarrow> 'h vm_state \<Rightarrow> 'h vm_state option" where
  "increment_present_entry frame st =
    (case find_page_table_metadata st frame of
       None \<Rightarrow> Some st
     | Some m \<Rightarrow>
         if m_present_entries m = 0x200 then None
         else Some (update_metadata frame (\<lambda>m. m\<lparr>m_present_entries := m_present_entries m + 1\<rparr>) st))"

definition decrement_present_entry :: "u64 \<Rightarrow> 'h vm_state \<Rightarrow> 'h vm_state option" where
  "decrement_present_entry frame st =
    (case find_page_table_metadata st frame of
       None \<Rightarrow> Some st
     | Some m \<Rightarrow>
         if m_present_entries m = 0 then None
         else Some (update_metadata frame (\<lambda>m. m\<lparr>m_present_entries := m_present_entries m - 1\<rparr>) st))"

definition page_table_empty :: "'h vm_state \<Rightarrow> u64 \<Rightarrow> bool" where
  "page_table_empty st frame =
    (case find_page_table_metadata st frame of None \<Rightarrow> False | Some m \<Rightarrow> m_present_entries m = 0)"


section \<open>Walking and editing a user root\<close>

text \<open>A leaf slot is named by its table frame and index, as the source's \<^verbatim>\<open>uint64_t *\<close> is.\<close>

definition next_table :: "'h vm_state \<Rightarrow> u64 \<Rightarrow> u64 \<Rightarrow> u64 option" where
  "next_table st f i =
    (if \<not> paging_present (entry_at st f i) then None else direct_table st (entry_at st f i))"

definition root_pte :: "'h vm_state \<Rightarrow> u64 \<Rightarrow> u64 \<Rightarrow> (u64 \<times> u64) option" where
  "root_pte st root v =
    (case direct_table st root of
       None \<Rightarrow> None
     | Some pml4 \<Rightarrow>
       (case next_table st pml4 (get_pml4_index v) of
          None \<Rightarrow> None
        | Some pdpt \<Rightarrow>
          (case next_table st pdpt (get_pdpt_index v) of
             None \<Rightarrow> None
           | Some pd \<Rightarrow>
             if \<not> paging_present (entry_at st pd (get_pd_index v)) then None
             else if entry_at st pd (get_pd_index v) AND PAGING_DESCRIPTOR_LARGE_PAGE \<noteq> 0 then None
             else (case direct_table st (entry_at st pd (get_pd_index v)) of
                     None \<Rightarrow> None
                   | Some pt \<Rightarrow> Some (pt, get_pt_index v)))))"

record owned_change =
  oc_entry :: u64
  oc_index :: u64
  oc_parent_frame :: u64
  oc_child_frame :: u64

text \<open>The roll-back loop runs over the recorded changes from the last to the first; the result of
  the decrement is ignored, as in the source.\<close>

fun clear_owned_paging_descriptors ::
    "'h frame_ops \<Rightarrow> owned_change list \<Rightarrow> 'h vm_state \<Rightarrow> 'h vm_state" where
  "clear_owned_paging_descriptors ops [] st = st"
| "clear_owned_paging_descriptors ops (c # cs) st =
    (let st = clear_owned_paging_descriptors ops cs st;
         st = set_entry (oc_entry c) (oc_index c) 0 st;
         st = (case decrement_present_entry (oc_parent_frame c) st of None \<Rightarrow> st | Some st' \<Rightarrow> st');
         st = unregister_page_table (oc_child_frame c) st
     in free_frame ops (oc_child_frame c) st)"

definition ensure_owned_descriptor ::
    "'h frame_ops \<Rightarrow> u64 \<Rightarrow> u64 \<Rightarrow> u64 \<Rightarrow> u64 \<Rightarrow> u64 \<Rightarrow> page_table_owner \<Rightarrow> page_table_level \<Rightarrow>
     'h vm_state \<Rightarrow> owned_change list \<Rightarrow> bool \<times> 'h vm_state \<times> owned_change list" where
  "ensure_owned_descriptor ops f i attr parent root owner child_level st changes =
    (if paging_present (entry_at st f i) then
       (if attr AND ATTR_USER \<noteq> 0 \<and> entry_at st f i AND ATTR_USER = 0
        then (True, set_entry f i (entry_at st f i OR ATTR_USER) st, changes)
        else (True, st, changes))
     else
       (let (page, st) = alloc_frame ops st in
        if page = 0 then (False, st, changes)
        else case direct_table st page of
          None \<Rightarrow> (False, free_frame ops page st, changes)
        | Some new_table \<Rightarrow>
          (let st = zero_table new_table st in
           case register_page_table root page owner child_level st of
             None \<Rightarrow> (False, free_frame ops page st, changes)
           | Some st \<Rightarrow>
             (let st = set_entry f i (frame_of page OR attr) st in
              case increment_present_entry parent st of
                None \<Rightarrow>
                  (False, free_frame ops page (unregister_page_table page (set_entry f i 0 st)), changes)
              | Some st \<Rightarrow>
                  (True, st, changes @ [\<lparr>oc_entry = f, oc_index = i, oc_parent_frame = parent,
                                          oc_child_frame = page\<rparr>])))))"

text \<open>One level of \<^verbatim>\<open>map_root_page\<close>: make the descriptor, roll everything back when that fails, and
  step to the child table. \<open>Inl\<close> is the early return.\<close>

definition map_descend ::
    "'h frame_ops \<Rightarrow> u64 \<Rightarrow> u64 \<Rightarrow> u64 \<Rightarrow> u64 \<Rightarrow> u64 \<Rightarrow> page_table_level \<Rightarrow>
     'h vm_state \<Rightarrow> owned_change list \<Rightarrow> 'h vm_state + u64 \<times> 'h vm_state \<times> owned_change list" where
  "map_descend ops f i attr parent root child_level st changes =
    (case ensure_owned_descriptor ops f i attr parent root UserAddressSpace child_level st changes of
       (ok, st, changes) \<Rightarrow>
         if \<not> ok then Inl (clear_owned_paging_descriptors ops changes st)
         else case direct_table st (entry_at st f i) of
                None \<Rightarrow> Inl st
              | Some f' \<Rightarrow> Inr (f', st, changes))"

definition map_leaf ::
    "'h frame_ops \<Rightarrow> u64 \<Rightarrow> u64 \<Rightarrow> u64 \<Rightarrow> u64 \<Rightarrow> 'h vm_state \<Rightarrow> owned_change list \<Rightarrow> bool \<times> 'h vm_state" where
  "map_leaf ops pt i phys attr st changes =
    (if paging_present (entry_at st pt i) then (False, clear_owned_paging_descriptors ops changes st)
     else
       (let st = set_entry pt i (frame_of phys OR attr) st in
        case increment_present_entry pt st of
          None \<Rightarrow> (False, clear_owned_paging_descriptors ops changes (set_entry pt i 0 st))
        | Some st \<Rightarrow> (True, st)))"

definition map_root_page ::
    "'h frame_ops \<Rightarrow> u64 \<Rightarrow> u64 \<Rightarrow> u64 \<Rightarrow> u64 \<Rightarrow> 'h vm_state \<Rightarrow> bool \<times> 'h vm_state" where
  "map_root_page ops root v phys attr st =
    (let root_phys = frame_of root;
         intermediate_attr = (if attr AND ATTR_USER \<noteq> 0 then DEFAULT_ATTR_PML4E OR ATTR_USER
                              else DEFAULT_ATTR_PML4E)
     in case direct_table st root of
       None \<Rightarrow> (False, st)
     | Some pml4 \<Rightarrow>
       (case map_descend ops pml4 (get_pml4_index v) intermediate_attr root_phys root_phys Pdpt st [] of
          Inl st \<Rightarrow> (False, st)
        | Inr (pdpt, st, ch) \<Rightarrow>
          (case map_descend ops pdpt (get_pdpt_index v) intermediate_attr pdpt root_phys Pd st ch of
             Inl st \<Rightarrow> (False, st)
           | Inr (pd, st, ch) \<Rightarrow>
             (case map_descend ops pd (get_pd_index v) intermediate_attr pd root_phys Pt st ch of
                Inl st \<Rightarrow> (False, st)
              | Inr (pt, st, ch) \<Rightarrow> map_leaf ops pt (get_pt_index v) phys attr st ch))))"

definition map_page_in_root ::
    "'h frame_ops \<Rightarrow> u64 \<Rightarrow> u64 \<Rightarrow> u64 \<Rightarrow> u64 \<Rightarrow> 'h vm_state \<Rightarrow> bool \<times> 'h vm_state" where
  "map_page_in_root ops root v phys attr st =
    (if root = INVALID_PHYS_ADDR \<or> v AND (PAGE_SIZE - 1) \<noteq> 0 \<or> phys AND (PAGE_SIZE - 1) \<noteq> 0
     then (False, st) else map_root_page ops root v phys attr st)"

section \<open>Unmapping\<close>

definition is_user_leaf :: "u64 \<Rightarrow> bool" where
  "is_user_leaf d \<longleftrightarrow> paging_present d \<and> d AND ATTR_USER \<noteq> 0"

text \<open>One level of \<^verbatim>\<open>reclaim_empty_tables_in_root\<close>: drop the child table when this root owns it and
  it is empty. \<open>None\<close> is the failed decrement (return false), \<open>Some (False, _)\<close> the early
  \<^verbatim>\<open>return true\<close>. The top level does not decrement its parent.\<close>

definition reclaim_level ::
    "'h frame_ops \<Rightarrow> bool \<Rightarrow> u64 \<Rightarrow> u64 \<Rightarrow> u64 \<Rightarrow> u64 \<Rightarrow> page_table_level \<Rightarrow> 'h vm_state \<Rightarrow>
     (bool \<times> 'h vm_state) + 'h vm_state" where
  "reclaim_level ops dec parent i child root level st =
    (if page_table_owned_by st child root UserAddressSpace level \<and> page_table_empty st child then
       (let st = set_entry parent i 0 st in
        case (if dec then decrement_present_entry parent st else Some st) of
          None \<Rightarrow> Inr st
        | Some st \<Rightarrow> Inl (True, free_frame ops child (unregister_page_table child st)))
     else Inl (False, st))"

definition reclaim_empty_tables_in_root ::
    "'h frame_ops \<Rightarrow> u64 \<Rightarrow> u64 \<Rightarrow> 'h vm_state \<Rightarrow> bool \<times> 'h vm_state" where
  "reclaim_empty_tables_in_root ops root_phys v st =
    (let root = frame_of root_phys;
         i4 = get_pml4_index v; i3 = get_pdpt_index v; i2 = get_pd_index v
     in case direct_table st root of
       None \<Rightarrow> (False, st)
     | Some pml4 \<Rightarrow>
       if \<not> paging_present (entry_at st pml4 i4) then (True, st)
       else case direct_table st (entry_at st pml4 i4) of
         None \<Rightarrow> (False, st)
       | Some pdpt \<Rightarrow>
         if \<not> paging_present (entry_at st pdpt i3) then (True, st)
         else case direct_table st (entry_at st pdpt i3) of
           None \<Rightarrow> (False, st)
         | Some pd \<Rightarrow>
           if \<not> paging_present (entry_at st pd i2) then (True, st)
           else
             (let pdpt_phys = frame_of (entry_at st pml4 i4);
                  pd_phys = frame_of (entry_at st pdpt i3);
                  pt_phys = frame_of (entry_at st pd i2)
              in case reclaim_level ops True pd_phys i2 pt_phys root Pt st of
                Inr st \<Rightarrow> (False, st)
              | Inl (False, st) \<Rightarrow> (True, st)
              | Inl (True, st) \<Rightarrow>
                (case reclaim_level ops True pdpt_phys i3 pd_phys root Pd st of
                   Inr st \<Rightarrow> (False, st)
                 | Inl (False, st) \<Rightarrow> (True, st)
                 | Inl (True, st) \<Rightarrow>
                   (case reclaim_level ops False pml4 i4 pdpt_phys root Pdpt st of
                      Inr st \<Rightarrow> (False, st)
                    | Inl (_, st) \<Rightarrow> (True, st)))))"

definition unmap_user_page_in_root ::
    "'h frame_ops \<Rightarrow> u64 \<Rightarrow> u64 \<Rightarrow> 'h vm_state \<Rightarrow> u64 option \<times> 'h vm_state" where
  \<comment> \<open>\<open>None\<close> is the false return, \<open>Some\<close> the physical address of the removed leaf\<close>
  "unmap_user_page_in_root ops root_phys v st =
    (if root_phys = INVALID_PHYS_ADDR \<or> v AND (PAGE_SIZE - 1) \<noteq> 0 then (None, st)
     else case root_pte st root_phys v of
       None \<Rightarrow> (None, st)
     | Some (pt, i) \<Rightarrow>
       if \<not> is_user_leaf (entry_at st pt i) then (None, st)
       else
         (let root = frame_of root_phys;
              phys = frame_of (entry_at st pt i);
              st1 = set_entry pt i 0 st
          in case decrement_present_entry pt st1 of
            None \<Rightarrow> (None, st1)
          | Some st2 \<Rightarrow>
            (case reclaim_empty_tables_in_root ops root v st2 of
               (ok, st3) \<Rightarrow> if \<not> ok then (None, st3) else (Some phys, st3))))"

definition read_user_leaf_in_root :: "'h vm_state \<Rightarrow> u64 \<Rightarrow> u64 \<Rightarrow> (u64 \<times> u64) option" where
  "read_user_leaf_in_root st root v =
    (if root = INVALID_PHYS_ADDR \<or> v AND (PAGE_SIZE - 1) \<noteq> 0 then None
     else case root_pte st root v of
       None \<Rightarrow> None
     | Some (pt, i) \<Rightarrow>
       if \<not> is_user_leaf (entry_at st pt i) then None
       else Some (frame_of (entry_at st pt i), entry_at st pt i AND NOT PAGING_DESCRIPTOR_ADDR_MASK))"

definition remap_user_page_in_root ::
    "u64 \<Rightarrow> u64 \<Rightarrow> u64 \<Rightarrow> u64 \<Rightarrow> 'h vm_state \<Rightarrow> bool \<times> 'h vm_state" where
  "remap_user_page_in_root root v phys attr st =
    (if root = INVALID_PHYS_ADDR \<or> v AND (PAGE_SIZE - 1) \<noteq> 0 \<or> phys AND (PAGE_SIZE - 1) \<noteq> 0
     then (False, st)
     else case root_pte st root v of
       None \<Rightarrow> (False, st)
     | Some (pt, i) \<Rightarrow>
       if \<not> is_user_leaf (entry_at st pt i) then (False, st)
       else (True, set_entry pt i (frame_of phys OR attr) st))"


section \<open>Creating and tearing down a root\<close>

definition derive_user_address_space_root ::
    "'h frame_ops \<Rightarrow> (u64 \<Rightarrow> u64) \<Rightarrow> 'h vm_state \<Rightarrow> u64 \<times> 'h vm_state" where
  \<comment> \<open>\<open>kernel_pml4\<close> is the active kernel root the self-mapping shows\<close>
  "derive_user_address_space_root ops kernel_pml4 st =
    (let (new_root, st) = alloc_frame ops st in
     if new_root = 0 then (INVALID_PHYS_ADDR, st)
     else case phys_to_direct st new_root of
       None \<Rightarrow> (INVALID_PHYS_ADDR, free_frame ops new_root st)
     | Some dst \<Rightarrow>
       (let st = st\<lparr>vm_tables := (vm_tables st)(dst :=
                     (\<lambda>i. if i < 256 then 0 else if i < 512 then kernel_pml4 i else vm_tables st dst i))\<rparr>
        in case register_page_table new_root new_root UserAddressSpace Pml4 st of
          None \<Rightarrow> (INVALID_PHYS_ADDR, free_frame ops new_root st)
        | Some st \<Rightarrow> (new_root, st)))"

text \<open>A counting loop whose body may return false early: the index runs over the list.\<close>

fun loop_indices :: "(u64 \<Rightarrow> 's \<Rightarrow> bool \<times> 's) \<Rightarrow> nat list \<Rightarrow> 's \<Rightarrow> bool \<times> 's" where
  "loop_indices body [] st = (True, st)"
| "loop_indices body (i # is) st =
    (case body (word_of_nat i) st of (ok, st) \<Rightarrow> if \<not> ok then (False, st) else loop_indices body is st)"

section \<open>Frame reference counts\<close>

definition FRAME_REFCOUNT_MAX :: u16 where "FRAME_REFCOUNT_MAX = 0xffff"

definition frame_refcount_slot :: "'h vm_state \<Rightarrow> u64 \<Rightarrow> u64 option" where
  \<comment> \<open>the index of the counter, \<open>None\<close> for the null pointer\<close>
  "frame_refcount_slot st phys =
    (case vm_refs_max st of
       None \<Rightarrow> None
     | Some max_frame \<Rightarrow>
       (let frame = drop_bit 12 (frame_of phys) in if frame > max_frame then None else Some frame))"

definition frame_ref_inc :: "u64 \<Rightarrow> 'h vm_state \<Rightarrow> bool \<times> 'h vm_state" where
  "frame_ref_inc phys st =
    (case frame_refcount_slot st phys of
       None \<Rightarrow> (False, st)
     | Some k \<Rightarrow>
       if vm_refs st k = 0 then (True, st\<lparr>vm_refs := (vm_refs st)(k := 2)\<rparr>)
       else if vm_refs st k = FRAME_REFCOUNT_MAX then (False, st)
       else (True, st\<lparr>vm_refs := (vm_refs st)(k := vm_refs st k + 1)\<rparr>))"

definition frame_ref_dec_and_maybe_free :: "'h frame_ops \<Rightarrow> u64 \<Rightarrow> 'h vm_state \<Rightarrow> 'h vm_state" where
  "frame_ref_dec_and_maybe_free ops phys st =
    (case frame_refcount_slot st (frame_of phys) of
       None \<Rightarrow> free_frame ops (frame_of phys) st
     | Some k \<Rightarrow>
       if vm_refs st k = 0 then free_frame ops (frame_of phys) st
       else
         (let n = vm_refs st k - 1
          in st\<lparr>vm_refs := (vm_refs st)(k := (if n = 1 then 0 else n))\<rparr>))"

definition frame_ref_is_shared :: "'h vm_state \<Rightarrow> u64 \<Rightarrow> bool" where
  "frame_ref_is_shared st phys =
    (case frame_refcount_slot st phys of None \<Rightarrow> False | Some k \<Rightarrow> vm_refs st k \<ge> 2)"

text \<open>Tear-down of the low half: one definition per nesting level of the source's loops.\<close>

definition teardown_pt_entry :: "'h frame_ops \<Rightarrow> u64 \<Rightarrow> u64 \<Rightarrow> 'h vm_state \<Rightarrow> bool \<times> 'h vm_state" where
  "teardown_pt_entry ops pt i st =
    (if \<not> paging_present (entry_at st pt i) then (True, st)
     else
       (let leaf_phys = frame_of (entry_at st pt i);
            st = set_entry pt i 0 st
        in case decrement_present_entry pt st of
             None \<Rightarrow> (False, st)
           | Some st \<Rightarrow> (True, frame_ref_dec_and_maybe_free ops leaf_phys st)))"

definition teardown_child ::
    "'h frame_ops \<Rightarrow> (u64 \<Rightarrow> u64 \<Rightarrow> 'h vm_state \<Rightarrow> bool \<times> 'h vm_state) \<Rightarrow> bool \<Rightarrow> u64 \<Rightarrow> page_table_level \<Rightarrow>
     u64 \<Rightarrow> u64 \<Rightarrow> 'h vm_state \<Rightarrow> bool \<times> 'h vm_state" where
  "teardown_child ops body reject_large root level parent i st =
    (if \<not> paging_present (entry_at st parent i) then (True, st)
     else if reject_large \<and> entry_at st parent i AND PAGING_DESCRIPTOR_LARGE_PAGE \<noteq> 0 then (False, st)
     else
       (let child = frame_of (entry_at st parent i) in
        if \<not> page_table_owned_by st child root UserAddressSpace level then (False, st)
        else case direct_table st child of
          None \<Rightarrow> (False, st)
        | Some t \<Rightarrow>
          (case loop_indices (body t) [0..<512] st of
             (ok, st) \<Rightarrow>
               if \<not> ok \<or> \<not> page_table_empty st child then (False, st)
               else
                 (let st = set_entry parent i 0 st in
                  case decrement_present_entry parent st of
                    None \<Rightarrow> (False, st)
                  | Some st \<Rightarrow> (True, free_frame ops child (unregister_page_table child st))))))"

definition teardown_user_low_half :: "'h frame_ops \<Rightarrow> u64 \<Rightarrow> 'h vm_state \<Rightarrow> bool \<times> 'h vm_state" where
  "teardown_user_low_half ops root st =
    (case direct_table st root of
       None \<Rightarrow> (False, st)
     | Some pml4 \<Rightarrow>
       (case loop_indices
               (teardown_child ops
                  (teardown_child ops
                     (teardown_child ops (teardown_pt_entry ops) True root Pt)
                     False root Pd)
                  False root Pdpt pml4)
               [0..<256] st of
          (ok, st) \<Rightarrow> if \<not> ok then (False, st) else (page_table_empty st root, st)))"

definition teardown_user_address_space :: "'h frame_ops \<Rightarrow> u64 \<Rightarrow> 'h vm_state \<Rightarrow> bool \<times> 'h vm_state" where
  "teardown_user_address_space ops root_phys st =
    (if root_phys = INVALID_PHYS_ADDR then (False, st)
     else
       (let root = frame_of root_phys in
        if root = frame_of (vm_cr3 st) then (False, st)
        else if \<not> page_table_owned_by st root root UserAddressSpace Pml4 then (False, st)
        else case teardown_user_low_half ops root st of
          (ok, st) \<Rightarrow>
            if \<not> ok then (False, st)
            else (True, free_frame ops root (unregister_page_table root st))))"

end
