(* ===== verification/Page_Table_Correct.thy ===== *)
theory Page_Table_Correct
  imports Page_Table "HOL-Library.Sublist"
begin

text \<open>
  Correctness of the user page tables. \<open>leaf_at\<close> is the abstract view, a finite map from
  (root, page) to leaf descriptors; the tables implement it as long as they form a forest, which
  \<open>pt_wf\<close> says with a ghost assignment of a position (root and index path) to every table
  frame. Mapping, remapping and unmapping then change exactly one leaf of one root, and a mapping
  that fails changes none.
\<close>

section \<open>Addresses as index paths\<close>

definition user_addr :: "u64 \<Rightarrow> bool" where
  "user_addr v \<longleftrightarrow> v < USER_LOW_HALF_LIMIT"

lemma index_mask: "(INDEX_MASK :: u64) = mask 9"
  by (simp add: INDEX_MASK_def mask_eq_exp_minus_1)

lemma page_mask: "PAGE_SIZE - 1 = (mask 12 :: u64)"
  by (simp add: PAGE_SIZE_def mask_eq_exp_minus_1)

lemma bit_index_simps:
  "bit (get_pml4_index v) n \<longleftrightarrow> n < 9 \<and> bit v (n + 39)"
  "bit (get_pdpt_index v) n \<longleftrightarrow> n < 9 \<and> bit v (n + 30)"
  "bit (get_pd_index v) n \<longleftrightarrow> n < 9 \<and> bit v (n + 21)"
  "bit (get_pt_index v) n \<longleftrightarrow> n < 9 \<and> bit v (n + 12)"
  by (auto simp: get_pml4_index_def get_pdpt_index_def get_pd_index_def get_pt_index_def index_mask
      bit_simps add.commute dest: bit_imp_le_length)

lemma user_addr_bits: "user_addr v \<Longrightarrow> 47 \<le> n \<Longrightarrow> \<not> bit v n"
proof -
  assume u: "user_addr v" and n: "47 \<le> n"
  have "unat v < 2 ^ 47" using u by (simp add: user_addr_def word_less_nat_alt unat_USER_LOW_HALF_LIMIT)
  then have "take_bit 47 (unat v) = unat v" by (simp add: take_bit_nat_eq_self)
  then have "\<not> bit (unat v) n" using n by (metis bit_take_bit_iff not_le)
  then show "\<not> bit v n" by (simp add: bit_unsigned_iff)
qed

lemma page_aligned_bits: "v AND (PAGE_SIZE - 1) = 0 \<longleftrightarrow> (\<forall>n < 12. \<not> bit v n)"
proof -
  have "v AND mask 12 = 0 \<longleftrightarrow> (\<forall>n < 64. bit v n \<longrightarrow> \<not> n < 12)"
    by (auto simp: bit_eq_iff bit_simps)
  also have "\<dots> \<longleftrightarrow> (\<forall>n < 12. \<not> bit v n)"
  proof -
    have "n < 64" if "bit v n" for n using bit_imp_le_length[OF that] by simp
    then show ?thesis by blast
  qed
  finally show ?thesis unfolding page_mask .
qed

lemma user_pml4_index: "user_addr v \<Longrightarrow> get_pml4_index v < 256"
proof -
  assume u: "user_addr v"
  have "get_pml4_index v = take_bit 8 (get_pml4_index v)"
  proof (rule bit_word_eqI)
    fix n
    have "\<not> bit v (8 + 39)" using user_addr_bits[OF u] by simp
    then show "bit (get_pml4_index v) n = bit (take_bit 8 (get_pml4_index v)) n"
      by (cases "n = 8") (auto simp: bit_index_simps bit_take_bit_iff less_Suc_eq)
  qed
  also have "\<dots> < 256"
    using take_bit_nat_less_exp[of 8 "unat (get_pml4_index v)"]
    by (simp add: word_less_nat_alt unsigned_take_bit_eq)
  finally show ?thesis .
qed

lemma indices_inj:
  assumes u: "user_addr v" "user_addr w" and al: "v AND (PAGE_SIZE - 1) = 0" "w AND (PAGE_SIZE - 1) = 0"
    and eq: "get_pml4_index v = get_pml4_index w" "get_pdpt_index v = get_pdpt_index w"
    "get_pd_index v = get_pd_index w" "get_pt_index v = get_pt_index w"
  shows "v = w"
proof (rule bit_word_eqI)
  fix n assume "n < LENGTH(64)"
  note b = eq[THEN arg_cong[of _ _ "\<lambda>x. bit x k" for k], unfolded bit_index_simps]
  consider "n < 12" | "12 \<le> n" "n < 21" | "21 \<le> n" "n < 30" | "30 \<le> n" "n < 39"
    | "39 \<le> n" "n < 47" | "47 \<le> n" by linarith
  then show "bit v n = bit w n"
  proof cases
    case 1 then show ?thesis using al by (simp add: page_aligned_bits)
  next
    case 2 then show ?thesis using b(4)[of "n - 12"] by (simp add: less_diff_conv2)
  next
    case 3 then show ?thesis using b(3)[of "n - 21"] by (simp add: less_diff_conv2)
  next
    case 4 then show ?thesis using b(2)[of "n - 30"] by (simp add: less_diff_conv2)
  next
    case 5 then show ?thesis using b(1)[of "n - 39"] by (simp add: less_diff_conv2)
  next
    case 6 then show ?thesis using user_addr_bits[OF u(1)] user_addr_bits[OF u(2)] by simp
  qed
qed

lemma bit_addr_mask: "bit PAGING_DESCRIPTOR_ADDR_MASK n \<longleftrightarrow> 12 \<le> n \<and> n < 52"
proof -
  have "PAGING_DESCRIPTOR_ADDR_MASK = push_bit 12 (mask 40)"
    by (simp add: PAGING_DESCRIPTOR_ADDR_MASK_def mask_eq_exp_minus_1 push_bit_eq_mult)
  from arg_cong[OF this, of "\<lambda>x. bit x n"] show ?thesis
    by (simp only: bit_push_bit_iff bit_mask_iff) (auto dest: bit_imp_le_length)
qed

lemma bit_frame_of [bit_simps]: "bit (frame_of d) n \<longleftrightarrow> bit d n \<and> 12 \<le> n \<and> n < 52"
  by (auto simp: bit_and_iff bit_addr_mask)

lemma frame_of_idem [simp]: "frame_of (frame_of d) = frame_of d"
  by (rule bit_word_eqI) (auto simp: bit_frame_of)

lemma paging_present_bit: "paging_present d \<longleftrightarrow> bit d 0"
  by (simp add: paging_present_def bit_iff_odd and_one_eq odd_iff_mod_2_eq_one)

section \<open>Table forests\<close>

type_synonym positions = "u64 \<Rightarrow> (u64 \<times> u64 list) option"

text \<open>Every table frame has one position; a present entry leads to the child position; every
  child position is linked from its parent; second-level entries are never large pages.\<close>

definition pt_wf :: "positions \<Rightarrow> 'h vm_state \<Rightarrow> bool" where
  "pt_wf own st \<longleftrightarrow>
    (\<forall>f r p. own f = Some (r, p) \<longrightarrow> frame_of f = f \<and> length p \<le> 3 \<and> (p = [] \<longrightarrow> f = r)) \<and>
    (\<forall>f r p i. own f = Some (r, p) \<and> length p < 3 \<and> (p = [] \<longrightarrow> i < 256) \<and>
        paging_present (entry_at st f i) \<longrightarrow>
        own (frame_of (entry_at st f i)) = Some (r, p @ [i]) \<and>
        (length p = 2 \<longrightarrow> entry_at st f i AND PAGING_DESCRIPTOR_LARGE_PAGE = 0)) \<and>
    (\<forall>f r p i. own f = Some (r, p @ [i]) \<longrightarrow> (p = [] \<longrightarrow> i < 256) \<and>
        (\<exists>g. own g = Some (r, p) \<and> paging_present (entry_at st g i) \<and> frame_of (entry_at st g i) = f))"

lemma pt_wfI:
  assumes "\<And>f r p. own f = Some (r, p) \<Longrightarrow> frame_of f = f \<and> length p \<le> 3 \<and> (p = [] \<longrightarrow> f = r)"
    and "\<And>f r p i. own f = Some (r, p) \<Longrightarrow> length p < 3 \<Longrightarrow> (p = [] \<Longrightarrow> i < 256) \<Longrightarrow>
        paging_present (entry_at st f i) \<Longrightarrow>
        own (frame_of (entry_at st f i)) = Some (r, p @ [i]) \<and>
        (length p = 2 \<longrightarrow> entry_at st f i AND PAGING_DESCRIPTOR_LARGE_PAGE = 0)"
    and "\<And>f r p i. own f = Some (r, p @ [i]) \<Longrightarrow> (p = [] \<longrightarrow> i < 256) \<and>
        (\<exists>g. own g = Some (r, p) \<and> paging_present (entry_at st g i) \<and> frame_of (entry_at st g i) = f)"
  shows "pt_wf own st"
  unfolding pt_wf_def
proof (intro conjI, goal_cases)
  case 1 show ?case using assms(1) by simp
next
  case 2 show ?case using assms(2) by simp
next
  case 3 show ?case using assms(3) by simp
qed

definition is_root :: "positions \<Rightarrow> u64 \<Rightarrow> bool" where
  "is_root own r \<longleftrightarrow> own (frame_of r) = Some (frame_of r, [])"

abbreviation path_of :: "u64 \<Rightarrow> u64 list" where
  "path_of v \<equiv> [get_pml4_index v, get_pdpt_index v, get_pd_index v]"

definition leaf_at :: "'h vm_state \<Rightarrow> u64 \<Rightarrow> u64 \<Rightarrow> u64 option" where
  "leaf_at st root v =
    (case root_pte st root v of
       None \<Rightarrow> None
     | Some (f, i) \<Rightarrow> if paging_present (entry_at st f i) then Some (entry_at st f i) else None)"

lemma pt_wfD:
  assumes "pt_wf own st" "own f = Some (r, p)"
  shows "frame_of f = f" "length p \<le> 3" "p = [] \<Longrightarrow> f = r"
  using assms by (auto simp: pt_wf_def)

lemma pt_wf_child:
  assumes "pt_wf own st" "own f = Some (r, p)" "length p < 3" "p = [] \<Longrightarrow> i < 256"
    "paging_present (entry_at st f i)"
  shows "own (frame_of (entry_at st f i)) = Some (r, p @ [i])"
    "length p = 2 \<Longrightarrow> entry_at st f i AND PAGING_DESCRIPTOR_LARGE_PAGE = 0"
  using assms unfolding pt_wf_def by blast+

lemma pt_wf_parent:
  assumes "pt_wf own st" "own f = Some (r, p @ [i])"
  obtains g where "own g = Some (r, p)" "paging_present (entry_at st g i)" "frame_of (entry_at st g i) = f"
    "p = [] \<longrightarrow> i < 256"
  using assms unfolding pt_wf_def by blast

lemma pt_wf_inj:
  assumes "pt_wf own st" "own f = Some (r, p)" "own g = Some (r, p)"
  shows "f = g"
  using assms(2,3)
proof (induction p arbitrary: f g rule: rev_induct)
  case Nil
  then show ?case using pt_wfD(3)[OF assms(1) Nil(1)] pt_wfD(3)[OF assms(1) Nil(2)] by simp
next
  case (snoc i p)
  from pt_wf_parent[OF assms(1) snoc(2)] obtain f' where f': "own f' = Some (r, p)"
    "frame_of (entry_at st f' i) = f" by metis
  from pt_wf_parent[OF assms(1) snoc(3)] obtain g' where g': "own g' = Some (r, p)"
    "frame_of (entry_at st g' i) = g" by metis
  show ?case using snoc(1)[OF f'(1) g'(1)] f'(2) g'(2) by simp
qed

section \<open>Walks\<close>

fun walk :: "'h vm_state \<Rightarrow> u64 \<Rightarrow> u64 list \<Rightarrow> u64 option" where
  "walk st f [] = Some f"
| "walk st f (i # is) = (case next_table st f i of None \<Rightarrow> None | Some g \<Rightarrow> walk st g is)"

lemma direct_table_Some: "direct_table st d = Some f \<Longrightarrow> f = frame_of d"
  by (auto simp: direct_table_def phys_to_direct_def split: if_splits)

lemma next_table_Some:
  "next_table st f i = Some g \<Longrightarrow> paging_present (entry_at st f i) \<and> g = frame_of (entry_at st f i)"
  by (auto simp: next_table_def dest: direct_table_Some split: if_splits)

lemma next_table_own:
  assumes "pt_wf own st" "own f = Some (r, p)" "length p < 3" "p = [] \<Longrightarrow> i < 256" "next_table st f i = Some g"
  shows "own g = Some (r, p @ [i])"
  using pt_wf_child(1)[OF assms(1-4)] next_table_Some[OF assms(5)] by simp

lemma walk_own:
  assumes "pt_wf own st" "own f = Some (r, p)" "length p + length is \<le> 3" "p = [] \<Longrightarrow> is \<noteq> [] \<Longrightarrow> hd is < 256"
    "walk st f is = Some g"
  shows "own g = Some (r, p @ is)"
  using assms(2-)
proof (induction "is" arbitrary: f p)
  case (Cons i "is")
  then obtain h where h: "next_table st f i = Some h" "walk st h is = Some g"
    by (auto split: option.splits)
  have "own h = Some (r, p @ [i])" using Cons.prems h(1) by (intro next_table_own[OF assms(1)]) auto
  from Cons.IH[OF this _ _ h(2)] Cons.prems show ?case by simp
qed simp

lemma walk_append: "walk st f (xs @ ys) = (case walk st f xs of None \<Rightarrow> None | Some g \<Rightarrow> walk st g ys)"
  by (induction xs arbitrary: f) (auto split: option.splits)

text \<open>The walk of the source in these terms.\<close>

lemma root_pte_walk:
  assumes wf: "pt_wf own st" and r: "is_root own root" and u: "user_addr v"
  shows "root_pte st root v =
    (case direct_table st root of None \<Rightarrow> None
     | Some f \<Rightarrow> map_option (\<lambda>pt. (pt, get_pt_index v)) (walk st f (path_of v)))"
proof (cases "direct_table st root")
  case (Some f4)
  have o4: "own f4 = Some (frame_of root, [])" using r direct_table_Some[OF Some] by (simp add: is_root_def)
  note u4 = user_pml4_index[OF u]
  show ?thesis
  proof (cases "walk st f4 [get_pml4_index v, get_pdpt_index v]")
    case None
    then show ?thesis using Some by (auto simp: root_pte_def split: option.splits)
  next
    case (Some f2)
    have o2: "own f2 = Some (frame_of root, [get_pml4_index v, get_pdpt_index v])"
      using walk_own[OF wf o4 _ _ Some] u4 by simp
    show ?thesis
      using Some \<open>direct_table st root = Some f4\<close> pt_wf_child(2)[OF wf o2, of "get_pd_index v"]
      by (auto simp: root_pte_def next_table_def split: option.splits if_splits)
  qed
qed (simp add: root_pte_def)

lemma root_pte_own:
  assumes wf: "pt_wf own st" and r: "is_root own root" and u: "user_addr v"
    and pte: "root_pte st root v = Some (pt, i)"
  shows "own pt = Some (frame_of root, path_of v)" "i = get_pt_index v"
proof -
  from pte obtain f4 where f4: "direct_table st root = Some f4" "walk st f4 (path_of v) = Some pt"
    and i: "i = get_pt_index v"
    unfolding root_pte_walk[OF wf r u] by (auto split: option.splits)
  have "own f4 = Some (frame_of root, [])" using r direct_table_Some[OF f4(1)] by (simp add: is_root_def)
  from walk_own[OF wf this _ _ f4(2)] user_pml4_index[OF u] i
  show "own pt = Some (frame_of root, path_of v)" "i = get_pt_index v" by simp_all
qed

section \<open>Editing one entry\<close>

lemma set_entry_simps [simp]:
  "entry_at (set_entry f i d st) g j = (if g = f \<and> j = i then d else entry_at st g j)"
  "vm_direct (set_entry f i d st) = vm_direct st" "vm_heap (set_entry f i d st) = vm_heap st"
  "vm_meta (set_entry f i d st) = vm_meta st" "vm_bytes (set_entry f i d st) = vm_bytes st"
  "vm_refs (set_entry f i d st) = vm_refs st" "vm_refs_max (set_entry f i d st) = vm_refs_max st"
  "vm_cr3 (set_entry f i d st) = vm_cr3 st"
  by (auto simp: set_entry_def)

lemma direct_table_cong: "vm_direct st' = vm_direct st \<Longrightarrow> direct_table st' d = direct_table st d"
  by (simp add: direct_table_def phys_to_direct_def direct_map_range_covered_def)

lemma direct_table_set_entry [simp]: "direct_table (set_entry f i e st) d = direct_table st d"
  by (rule direct_table_cong) simp

lemma next_table_set_entry:
  "next_table (set_entry f i d st) g j =
    (if g = f \<and> j = i then if paging_present d then direct_table st d else None else next_table st g j)"
  by (simp add: next_table_def)

lemma walk_set_entry:
  assumes wf: "pt_wf own st" and f0: "own f0 = Some (r0, p0)"
    and "own f = Some (r, p)" "length p + length is \<le> 3" "p = [] \<Longrightarrow> is \<noteq> [] \<Longrightarrow> hd is < 256"
    and "\<not> (r = r0 \<and> prefix (p0 @ [i0]) (p @ is) \<and> length p \<le> length p0)"
  shows "walk (set_entry f0 i0 d st) f is = walk st f is"
  using assms(3-)
proof (induction "is" arbitrary: f p)
  case (Cons i "is")
  have "\<not> (f = f0 \<and> i = i0)"
  proof
    assume "f = f0 \<and> i = i0"
    with Cons.prems(1) f0 have "r = r0" "p = p0" "i = i0" by simp_all
    with Cons.prems(4) show False by (simp add: prefix_def)
  qed
  then have nt: "next_table (set_entry f0 i0 d st) f i = next_table st f i"
    by (auto simp: next_table_set_entry)
  show ?case
  proof (cases "next_table st f i")
    case (Some h)
    have h: "own h = Some (r, p @ [i])" using Cons.prems Some by (intro next_table_own[OF wf]) auto
    have "walk (set_entry f0 i0 d st) h is = walk st h is"
      using Cons.prems by (intro Cons.IH[OF h]) auto
    with nt Some show ?thesis by simp
  qed (simp add: nt)
qed simp

text \<open>A leaf slot is at the bottom of the forest: writing it leaves the shape alone and changes the
  view at one page of one root.\<close>

lemma set_leaf_wf:
  assumes wf: "pt_wf own st" and pt: "own pt = Some (r, q)" "length q = 3"
  shows "pt_wf own (set_entry pt i d st)"
proof -
  have ne: "g \<noteq> pt" if "own g = Some (r', q')" "length q' < 3" for g r' q'
    using that pt by auto
  have len: "length q' < 3" if "own g = Some (r', q' @ [j])" for g r' q' j
    using pt_wfD(2)[OF wf that] by simp
  show ?thesis
  proof (rule pt_wfI, goal_cases)
    case (1 f r' p) then show ?case using pt_wfD[OF wf 1] by simp
  next
    case (2 f r' p j)
    then show ?case using pt_wf_child[OF wf 2(1-3)] ne[OF 2(1,2)] by simp
  next
    case (3 f r' p j)
    from pt_wf_parent[OF wf 3] obtain g where g: "own g = Some (r', p)"
      "paging_present (entry_at st g j)" "frame_of (entry_at st g j) = f" "p = [] \<longrightarrow> j < 256" .
    moreover from ne[OF g(1) len[OF 3]] have "entry_at (set_entry pt i d st) g j = entry_at st g j" by simp
    ultimately show ?case by metis
  qed
qed

lemma set_leaf_pte:
  assumes wf: "pt_wf own st" and pt: "own pt = Some (r, q)" "length q = 3"
    and r: "is_root own root" and u: "user_addr v"
  shows "root_pte (set_entry pt i d st) root v = root_pte st root v"
proof (cases "direct_table st root")
  case None
  then show ?thesis by (simp add: root_pte_def)
next
  case (Some f4)
  have o4: "own f4 = Some (frame_of root, [])" using r direct_table_Some[OF Some] by (simp add: is_root_def)
  have "walk (set_entry pt i d st) f4 (path_of v) = walk st f4 (path_of v)"
    using user_pml4_index[OF u] pt(2)
    by (intro walk_set_entry[OF wf pt(1) o4]) (auto dest!: prefix_length_le)
  then show ?thesis
    using Some by (simp add: root_pte_walk[OF wf r u] root_pte_walk[OF set_leaf_wf[OF wf pt] r u])
qed

lemma same_frame_pte: "frame_of root' = frame_of root \<Longrightarrow> root_pte st root' v = root_pte st root v"
  by (simp add: root_pte_def direct_table_def)

lemma set_leaf_view:
  assumes wf: "pt_wf own st" and pte: "root_pte st root v = Some (pt, i)"
    and r: "is_root own root" "is_root own root'"
    and u: "user_addr v" "user_addr w" and al: "v AND (PAGE_SIZE - 1) = 0" "w AND (PAGE_SIZE - 1) = 0"
  shows "leaf_at (set_entry pt i d st) root' w =
    (if frame_of root' = frame_of root \<and> w = v then if paging_present d then Some d else None
     else leaf_at st root' w)"
proof -
  note pt = root_pte_own[OF wf r(1) u(1) pte]
  have same: "root_pte (set_entry pt i d st) root' w = root_pte st root' w"
    by (rule set_leaf_pte[OF wf pt(1) _ r(2) u(2)]) simp
  show ?thesis
  proof (cases "root_pte st root' w")
    case None
    then have "\<not> (frame_of root' = frame_of root \<and> w = v)"
      using pte same_frame_pte[of root' root st v] by auto
    with None show ?thesis by (simp only: leaf_at_def same if_False option.case)
  next
    case (Some loc)
    then obtain pt' i' where loc: "root_pte st root' w = Some (pt', i')" by (cases loc) auto
    note pt' = root_pte_own[OF wf r(2) u(2) loc]
    have "pt' = pt \<and> i' = i \<longleftrightarrow> frame_of root' = frame_of root \<and> w = v"
    proof
      assume eq: "pt' = pt \<and> i' = i"
      then have "Some (frame_of root', path_of w) = Some (frame_of root, path_of v)"
        using pt(1) pt'(1) by metis
      then have "frame_of root' = frame_of root" "get_pml4_index w = get_pml4_index v"
        "get_pdpt_index w = get_pdpt_index v" "get_pd_index w = get_pd_index v" by simp_all
      moreover have "get_pt_index w = get_pt_index v" using eq pt(2) pt'(2) by simp
      ultimately show "frame_of root' = frame_of root \<and> w = v"
        using indices_inj[OF u(2,1) al(2,1)] by blast
    next
      assume eq: "frame_of root' = frame_of root \<and> w = v"
      then have "root_pte st root' w = root_pte st root v" using same_frame_pte by blast
      with loc pte show "pt' = pt \<and> i' = i" by simp
    qed
    then show ?thesis by (simp add: leaf_at_def same loc)
  qed
qed

text \<open>Unlinking an empty table: \<open>f\<close> at position \<open>(r, p)\<close> has a present entry \<open>i\<close> whose
  table holds nothing. The forest loses one node and no leaf.\<close>

definition empty_child :: "positions \<Rightarrow> 'h vm_state \<Rightarrow> u64 \<Rightarrow> u64 \<Rightarrow> u64 \<Rightarrow> u64 \<Rightarrow> u64 list \<Rightarrow> bool" where
  "empty_child own st f i child r p \<longleftrightarrow>
     own f = Some (r, p) \<and> length p < 3 \<and> (p = [] \<longrightarrow> i < 256) \<and>
     paging_present (entry_at st f i) \<and> frame_of (entry_at st f i) = child \<and>
     (\<forall>j. \<not> paging_present (entry_at st child j))"

lemma empty_child_own:
  assumes "pt_wf own st" "empty_child own st f i child r p"
  shows "own child = Some (r, p @ [i])" "child \<noteq> f"
proof -
  show c: "own child = Some (r, p @ [i])"
    using assms pt_wf_child(1)[OF assms(1), of f r p i] by (auto simp: empty_child_def)
  show "child \<noteq> f" using c assms(2) by (auto simp: empty_child_def)
qed

lemma unlink_wf:
  assumes wf: "pt_wf own st" and c: "empty_child own st f i child r p" and d: "\<not> paging_present d"
  shows "pt_wf (own(child := None)) (set_entry f i d st)"
proof -
  note oc = empty_child_own[OF wf c]
  have of: "own f = Some (r, p)" "length p < 3" using c by (auto simp: empty_child_def)
  show ?thesis
  proof (rule pt_wfI, goal_cases)
    case (1 g r' q) then show ?case using pt_wfD[OF wf, of g r' q] by (auto split: if_splits)
  next
    case (2 g r' q j)
    then have g: "own g = Some (r', q)" "g \<noteq> child" "\<not> (g = f \<and> j = i)"
      using d by (auto split: if_splits)
    with 2 have pr: "paging_present (entry_at st g j)" "entry_at (set_entry f i d st) g j = entry_at st g j"
      by (auto split: if_splits)
    note ch = pt_wf_child[OF wf g(1) 2(2,3) pr(1)]
    have "frame_of (entry_at st g j) \<noteq> child"
    proof
      assume "frame_of (entry_at st g j) = child"
      with ch(1) oc(1) have "r' = r" "q = p" "j = i" by auto
      with pt_wf_inj[OF wf g(1)] of(1) g(3) show False by auto
    qed
    with ch show ?case unfolding pr(2) by simp
  next
    case (3 g r' q j)
    then have g: "own g = Some (r', q @ [j])" "g \<noteq> child" by (simp_all split: if_splits)
    from pt_wf_parent[OF wf g(1)] obtain h where h: "own h = Some (r', q)"
      "paging_present (entry_at st h j)" "frame_of (entry_at st h j) = g" "q = [] \<longrightarrow> j < 256" .
    have "h \<noteq> child" using h(2) c unfolding empty_child_def by blast
    moreover have "\<not> (h = f \<and> j = i)" using h(3) g(2) c unfolding empty_child_def by blast
    then have "entry_at (set_entry f i d st) h j = entry_at st h j" by auto
    ultimately show ?case using h by (intro conjI exI[of _ h]) simp_all
  qed
qed

lemma unlink_view:
  assumes wf: "pt_wf own st" and c: "empty_child own st f i child r p" and d: "\<not> paging_present d"
    and rt: "is_root own root" and u: "user_addr v"
  shows "is_root (own(child := None)) root \<and> leaf_at (set_entry f i d st) root v = leaf_at st root v"
proof -
  note oc = empty_child_own[OF wf c]
  have of: "own f = Some (r, p)" "length p < 3" "p = [] \<longrightarrow> i < 256" using c by (auto simp: empty_child_def)
  have rt': "is_root (own(child := None)) root" using rt oc(1) by (auto simp: is_root_def)
  note wf' = unlink_wf[OF wf c d]
  show ?thesis
  proof (cases "direct_table st root")
    case None then show ?thesis using rt' by (simp add: leaf_at_def root_pte_def)
  next
    case (Some f4)
    have o4: "own f4 = Some (frame_of root, [])" using rt direct_table_Some[OF Some] by (simp add: is_root_def)
    note pte = root_pte_walk[OF wf rt u] root_pte_walk[OF wf' rt' u]
    show ?thesis
    proof (cases "frame_of root = r \<and> prefix (p @ [i]) (path_of v)")
      case False
      then have w: "walk (set_entry f i d st) f4 (path_of v) = walk st f4 (path_of v)"
        using user_pml4_index[OF u] by (intro walk_set_entry[OF wf of(1) o4]) auto
      have "pt \<noteq> f" if "walk st f4 (path_of v) = Some pt" for pt
        using walk_own[OF wf o4 _ _ that] user_pml4_index[OF u] of(1,2) by auto
      then show ?thesis using Some rt' w by (auto simp: leaf_at_def pte split: option.splits)
    next
      case True
      then obtain q where q: "path_of v = p @ i # q" by (auto simp: prefix_def)
      have hd4: "p = [] \<Longrightarrow> i < 256" using of(3) by simp
      have hd: "p \<noteq> [] \<Longrightarrow> hd p < 256" using q user_pml4_index[OF u] by (cases p) auto
      have at_f: "g = f" if "walk st f4 p = Some g" for g
        using walk_own[OF wf o4 _ _ that] hd of(1,2) True pt_wf_inj[OF wf, of g r p f] by auto
      have st': "walk (set_entry f i d st) f4 p = walk st f4 p"
        using hd of(2) by (intro walk_set_entry[OF wf of(1) o4]) (auto dest: prefix_length_le)
      have "leaf_at (set_entry f i d st) root v = None"
        using Some d at_f
        by (auto simp: leaf_at_def pte q walk_append st' next_table_set_entry split: option.splits)
      moreover have "leaf_at st root v = None"
      proof (cases "walk st f4 p = Some f \<and> next_table st f i = Some child")
        case w: True
        have empty: "\<not> paging_present (entry_at st child j)" for j using c by (simp add: empty_child_def)
        show ?thesis
        proof (cases q)
          case Nil then show ?thesis using Some w empty by (simp add: leaf_at_def pte q walk_append)
        next
          case (Cons j js)
          then show ?thesis using Some w empty
            by (simp add: leaf_at_def pte q walk_append next_table_def)
        qed
      next
        case False
        have "next_table st f i = None \<or> next_table st f i = Some child"
          using next_table_Some[of st f i] c by (cases "next_table st f i") (auto simp: empty_child_def)
        with False at_f have "walk st f4 (p @ i # q) = None"
          by (cases "walk st f4 p") (auto simp: walk_append)
        with Some show ?thesis by (simp add: leaf_at_def pte q)
      qed
      ultimately show ?thesis using rt' by simp
    qed
  qed
qed

text \<open>Linking a fresh, empty table is the converse.\<close>

definition fresh_slot :: "positions \<Rightarrow> 'h vm_state \<Rightarrow> u64 \<Rightarrow> u64 \<Rightarrow> u64 \<Rightarrow> u64 list \<Rightarrow> bool" where
  "fresh_slot own st f i r p \<longleftrightarrow>
     own f = Some (r, p) \<and> length p < 3 \<and> (p = [] \<longrightarrow> i < 256) \<and> \<not> paging_present (entry_at st f i)"

definition links_to :: "u64 \<Rightarrow> u64 \<Rightarrow> bool" where
  "links_to d page \<longleftrightarrow> paging_present d \<and> frame_of d = page \<and> d AND PAGING_DESCRIPTOR_LARGE_PAGE = 0"

lemma link_wf:
  assumes wf: "pt_wf own st" and s: "fresh_slot own st f i r p"
    and page: "own page = None" "frame_of page = page" "\<And>j. \<not> paging_present (entry_at st page j)"
    and d: "links_to d page"
  shows "pt_wf (own(page \<mapsto> (r, p @ [i]))) (set_entry f i d st)"
proof -
  have of: "own f = Some (r, p)" "length p < 3" "p = [] \<longrightarrow> i < 256" "\<not> paging_present (entry_at st f i)"
    using s by (auto simp: fresh_slot_def)
  have pf: "page \<noteq> f" using page(1) of(1) by auto
  have dd: "paging_present d" "frame_of d = page" "d AND PAGING_DESCRIPTOR_LARGE_PAGE = 0"
    using d by (auto simp: links_to_def)
  show ?thesis
  proof (rule pt_wfI, goal_cases)
    case (1 g r' q)
    show ?case
    proof (cases "g = page")
      case True with 1 page(2) of(2) show ?thesis by auto
    next
      case False with 1 have "own g = Some (r', q)" by simp
      then show ?thesis using pt_wfD[OF wf, of g r' q] by auto
    qed
  next
    case (2 g r' q j)
    consider "g = page" | "g = f" "j = i" | "g \<noteq> page" "\<not> (g = f \<and> j = i)" by blast
    then show ?case
    proof cases
      case 1 then have "\<not> paging_present (entry_at (set_entry f i d st) g j)" using page(3) pf by simp
      with 2(4) show ?thesis by blast
    next
      case at_slot: 2
      with 2(1) of(1) pf at_slot have "r' = r" "q = p" by auto
      with at_slot dd show ?thesis by simp
    next
      case 3
      then have e: "entry_at (set_entry f i d st) g j = entry_at st g j" by auto
      have g: "own g = Some (r', q)" using 2(1) 3(1) by simp
      note ch = pt_wf_child[OF wf g 2(2,3) 2(4)[unfolded e]]
      have "frame_of (entry_at st g j) \<noteq> page" using ch(1) page(1) by auto
      with ch show ?thesis unfolding e by simp
    qed
  next
    case (3 g r' q j)
    show ?case
    proof (cases "g = page")
      case True
      with 3 have "r' = r" "q = p" "j = i" by auto
      then show ?thesis using of pf dd True by (intro conjI exI[of _ f]) simp_all
    next
      case False
      with 3 have g: "own g = Some (r', q @ [j])" by simp
      from pt_wf_parent[OF wf g] obtain h where h: "own h = Some (r', q)"
        "paging_present (entry_at st h j)" "frame_of (entry_at st h j) = g" "q = [] \<longrightarrow> j < 256" .
      have "h \<noteq> page" using h(1) page(1) by auto
      moreover have "\<not> (h = f \<and> j = i)" using h(2) of(4) by auto
      then have "entry_at (set_entry f i d st) h j = entry_at st h j" by auto
      ultimately show ?thesis using h by (intro conjI exI[of _ h]) simp_all
    qed
  qed
qed

lemma set_entry_back: "set_entry f i (entry_at st f i) (set_entry f i d st) = st"
  by (simp add: set_entry_def)

lemma link_view:
  assumes wf: "pt_wf own st" and s: "fresh_slot own st f i r p"
    and page: "own page = None" "frame_of page = page" "\<And>j. \<not> paging_present (entry_at st page j)"
    and d: "links_to d page" and rt: "is_root own root" and u: "user_addr v"
  shows "is_root (own(page \<mapsto> (r, p @ [i]))) root \<and> leaf_at (set_entry f i d st) root v = leaf_at st root v"
proof -
  let ?own = "own(page \<mapsto> (r, p @ [i]))" and ?st = "set_entry f i d st"
  have of: "own f = Some (r, p)" "length p < 3" "p = [] \<longrightarrow> i < 256" "\<not> paging_present (entry_at st f i)"
    using s by (auto simp: fresh_slot_def)
  have pf: "page \<noteq> f" using page(1) of(1) by auto
  have c: "empty_child ?own ?st f i page r p"
    using of pf d page(3) by (auto simp: empty_child_def links_to_def)
  have rt': "is_root ?own root" using rt page(1) by (auto simp: is_root_def)
  from unlink_view[OF link_wf[OF wf s page d] c of(4) rt' u] rt'
  show ?thesis by (simp add: set_entry_back)
qed

text \<open>Parts of the state the view does not read.\<close>

lemma pt_wf_indep [simp]:
  "pt_wf own (st\<lparr>vm_meta := m\<rparr>) = pt_wf own st" "pt_wf own (st\<lparr>vm_heap := h\<rparr>) = pt_wf own st"
  "pt_wf own (st\<lparr>vm_refs := rf\<rparr>) = pt_wf own st" "pt_wf own (st\<lparr>vm_bytes := b\<rparr>) = pt_wf own st"
  by (simp_all add: pt_wf_def)

lemma leaf_at_cong:
  assumes "vm_tables st' = vm_tables st" "vm_direct st' = vm_direct st"
  shows "leaf_at st' root v = leaf_at st root v"
proof -
  note dt = direct_table_cong[OF assms(2)]
  show ?thesis by (simp only: leaf_at_def root_pte_def next_table_def dt assms(1))
qed

lemma leaf_at_indep [simp]:
  "leaf_at (st\<lparr>vm_meta := m\<rparr>) = leaf_at st" "leaf_at (st\<lparr>vm_heap := h\<rparr>) = leaf_at st"
  "leaf_at (st\<lparr>vm_refs := rf\<rparr>) = leaf_at st" "leaf_at (st\<lparr>vm_bytes := b\<rparr>) = leaf_at st"
  by (intro ext leaf_at_cong; simp)+


section \<open>States with the same shape\<close>

text \<open>Two states agree on the forest when entries agree in presence and target, and present leaf
  entries agree entirely; the user bit of inner entries may differ.\<close>

definition entry_sim :: "bool \<Rightarrow> u64 \<Rightarrow> u64 \<Rightarrow> bool" where
  "entry_sim is_leaf d d' \<longleftrightarrow>
     paging_present d' = paging_present d \<and>
     (paging_present d \<longrightarrow> frame_of d' = frame_of d \<and>
        d' AND PAGING_DESCRIPTOR_LARGE_PAGE = d AND PAGING_DESCRIPTOR_LARGE_PAGE) \<and>
     (is_leaf \<and> paging_present d \<longrightarrow> d' = d)"

definition sim :: "positions \<Rightarrow> 'h vm_state \<Rightarrow> 'h vm_state \<Rightarrow> bool" where
  "sim own st st' \<longleftrightarrow> vm_direct st' = vm_direct st \<and>
    (\<forall>g r p j. own g = Some (r, p) \<longrightarrow> entry_sim (length p = 3) (entry_at st g j) (entry_at st' g j))"

lemma entry_sim_refl [simp]: "entry_sim b d d"
  by (simp add: entry_sim_def)

lemma entry_sim_trans: "entry_sim b d d' \<Longrightarrow> entry_sim b d' d'' \<Longrightarrow> entry_sim b d d''"
  by (auto simp: entry_sim_def)

lemma simD:
  assumes "sim own st st'" "own g = Some (r, p)"
  shows "paging_present (entry_at st' g j) = paging_present (entry_at st g j)"
    and "paging_present (entry_at st g j) \<Longrightarrow> frame_of (entry_at st' g j) = frame_of (entry_at st g j)"
    and "paging_present (entry_at st g j) \<Longrightarrow>
       entry_at st' g j AND PAGING_DESCRIPTOR_LARGE_PAGE = entry_at st g j AND PAGING_DESCRIPTOR_LARGE_PAGE"
    and "length p = 3 \<Longrightarrow> paging_present (entry_at st g j) \<Longrightarrow> entry_at st' g j = entry_at st g j"
proof -
  have "entry_sim (length p = 3) (entry_at st g j) (entry_at st' g j)" for j
    using assms by (simp add: sim_def)
  from this[of j, unfolded entry_sim_def]
  show "paging_present (entry_at st' g j) = paging_present (entry_at st g j)"
    "paging_present (entry_at st g j) \<Longrightarrow> frame_of (entry_at st' g j) = frame_of (entry_at st g j)"
    "paging_present (entry_at st g j) \<Longrightarrow>
       entry_at st' g j AND PAGING_DESCRIPTOR_LARGE_PAGE = entry_at st g j AND PAGING_DESCRIPTOR_LARGE_PAGE"
    "length p = 3 \<Longrightarrow> paging_present (entry_at st g j) \<Longrightarrow> entry_at st' g j = entry_at st g j"
    by blast+
qed

lemma sim_direct: "sim own st st' \<Longrightarrow> direct_table st' d = direct_table st d"
  by (rule direct_table_cong) (simp add: sim_def)

lemma sim_wf:
  assumes s: "sim own st st'" and wf: "pt_wf own st"
  shows "pt_wf own st'"
proof (rule pt_wfI, goal_cases)
  case (1 g r p) then show ?case using pt_wfD[OF wf 1] by blast
next
  case (2 g r p j)
  then show ?case using pt_wf_child[OF wf 2(1-3)] simD[OF s 2(1), of j] by simp
next
  case (3 g r p j)
  from pt_wf_parent[OF wf 3] obtain h where h: "own h = Some (r, p)"
    "paging_present (entry_at st h j)" "frame_of (entry_at st h j) = g" "p = [] \<longrightarrow> j < 256" .
  then show ?case using simD[OF s h(1), of j] by (intro conjI exI[of _ h]) simp_all
qed

lemma sim_walk:
  assumes s: "sim own st st'" and wf: "pt_wf own st"
    and "own f = Some (r, p)" "length p + length is \<le> 3" "p = [] \<Longrightarrow> is \<noteq> [] \<Longrightarrow> hd is < 256"
  shows "walk st' f is = walk st f is"
  using assms(3-)
proof (induction "is" arbitrary: f p)
  case (Cons i "is")
  have nt: "next_table st' f i = next_table st f i"
    using simD(1,2)[OF s Cons.prems(1), of i] sim_direct[OF s]
    by (simp add: next_table_def) (simp add: direct_table_def)
  show ?case
  proof (cases "next_table st f i")
    case (Some h)
    have h: "own h = Some (r, p @ [i])" using Cons.prems Some by (intro next_table_own[OF wf]) auto
    have "walk st' h is = walk st h is" using Cons.prems by (intro Cons.IH[OF h]) auto
    with nt Some show ?thesis by simp
  qed (simp add: nt)
qed simp

lemma sim_view:
  assumes s: "sim own st st'" and wf: "pt_wf own st" and r: "is_root own root" and u: "user_addr v"
  shows "leaf_at st' root v = leaf_at st root v"
proof (cases "direct_table st root")
  case None
  then show ?thesis by (simp add: leaf_at_def root_pte_def sim_direct[OF s])
next
  case (Some f4)
  have o4: "own f4 = Some (frame_of root, [])" using r direct_table_Some[OF Some] by (simp add: is_root_def)
  have "walk st' f4 (path_of v) = walk st f4 (path_of v)"
    using user_pml4_index[OF u] by (intro sim_walk[OF s wf o4]) auto
  then have pte: "root_pte st' root v = root_pte st root v"
    by (simp add: root_pte_walk[OF wf r u] root_pte_walk[OF sim_wf[OF s wf] r u] sim_direct[OF s] Some)
  show ?thesis
  proof (cases "root_pte st root v")
    case (Some loc)
    then obtain pt i where loc: "root_pte st root v = Some (pt, i)" by (cases loc) auto
    from simD(1,4)[OF s root_pte_own(1)[OF wf r u loc], of i]
    show ?thesis by (simp add: leaf_at_def pte loc)
  qed (simp add: leaf_at_def pte)
qed

lemma sim_indep [simp]:
  "sim own st (st'\<lparr>vm_meta := m\<rparr>) = sim own st st'" "sim own st (st'\<lparr>vm_heap := h\<rparr>) = sim own st st'"
  "sim own (st\<lparr>vm_meta := m\<rparr>) st' = sim own st st'" "sim own (st\<lparr>vm_heap := h\<rparr>) st' = sim own st st'"
  by (simp_all add: sim_def)

lemma sim_refl [simp]: "sim own st st"
  by (simp add: sim_def)

lemma sim_trans:
  assumes "sim own st st'" "sim own st' st''" shows "sim own st st''"
proof -
  have "entry_sim (length p = 3) (entry_at st g j) (entry_at st'' g j)" if "own g = Some (r, p)" for g r p j
  proof (rule entry_sim_trans)
    show "entry_sim (length p = 3) (entry_at st g j) (entry_at st' g j)"
      using assms(1) that unfolding sim_def by blast
    show "entry_sim (length p = 3) (entry_at st' g j) (entry_at st'' g j)"
      using assms(2) that unfolding sim_def by blast
  qed
  with assms show ?thesis unfolding sim_def by simp
qed

lemma zero_table_simps [simp]:
  "entry_at (zero_table f st) g j = (if g = f then 0 else entry_at st g j)"
  "vm_direct (zero_table f st) = vm_direct st" "vm_heap (zero_table f st) = vm_heap st"
  "vm_meta (zero_table f st) = vm_meta st"
  by (simp_all add: zero_table_def)

lemma absent_zero [simp]: "\<not> paging_present 0"
  by (simp add: paging_present_def)

lemma sim_zero_fresh: "own page = None \<Longrightarrow> sim own st (zero_table page st)"
  by (auto simp: sim_def)

lemma sim_set_absent:
  assumes "\<not> paging_present (entry_at st f i)" "\<not> paging_present d"
  shows "sim own st (set_entry f i d st)"
  using assms by (auto simp: sim_def entry_sim_def)

lemma bit_low_attr: "k < 12 \<Longrightarrow> \<not> bit (frame_of d) k"
  by (simp add: bit_frame_of)

lemma sim_set_user:
  assumes "own f = Some (r, p)" "length p < 3"
  shows "sim own st (set_entry f i (entry_at st f i OR ATTR_USER) st)"
proof -
  have u: "ATTR_USER = push_bit 2 1" by (simp add: ATTR_USER_def push_bit_eq_mult)
  have "paging_present (d OR ATTR_USER) = paging_present d" for d
    by (simp add: paging_present_bit u bit_simps)
  moreover have "frame_of (d OR ATTR_USER) = frame_of d" for d
    by (simp add: ATTR_USER_def PAGING_DESCRIPTOR_ADDR_MASK_def bit.conj_disj_distrib2)
  moreover have "(d OR ATTR_USER) AND PAGING_DESCRIPTOR_LARGE_PAGE = d AND PAGING_DESCRIPTOR_LARGE_PAGE" for d
    by (simp add: ATTR_USER_def PAGING_DESCRIPTOR_LARGE_PAGE_def bit.conj_disj_distrib2)
  ultimately have "entry_sim False d (d OR ATTR_USER)" for d by (simp add: entry_sim_def)
  then show ?thesis using assms by (auto simp: sim_def)
qed


section \<open>The frame allocator as an interface\<close>

text \<open>What the page tables rely on: an allocated frame is page aligned, was free and is not free any
  more; a frame comes back only when it is freed. \<open>hinv\<close> is the allocator's invariant and
  \<open>frees\<close> the set of frames it may still hand out.\<close>

definition pt_inv :: "('h \<Rightarrow> bool) \<Rightarrow> ('h \<Rightarrow> u64 set) \<Rightarrow> positions \<Rightarrow> 'h vm_state \<Rightarrow> bool" where
  "pt_inv hinv frees own st \<longleftrightarrow>
     pt_wf own st \<and> hinv (vm_heap st) \<and> own 0 = None \<and> (\<forall>f\<in>frees (vm_heap st). own f = None)"

text \<open>Roll-back: the recorded changes form a chain of empty tables, the last one innermost.\<close>

fun chain_ok :: "positions \<Rightarrow> 'h vm_state \<Rightarrow> owned_change list \<Rightarrow> bool" where
  "chain_ok own st [] = True"
| "chain_ok own st (c # cs) =
    ((\<exists>r p. empty_child own st (oc_entry c) (oc_index c) (oc_child_frame c) r p) \<and>
     chain_ok (own(oc_child_frame c := None)) (set_entry (oc_entry c) (oc_index c) 0 st) cs)"

lemma clear_snoc:
  "clear_owned_paging_descriptors ops (cs @ [c]) st =
   clear_owned_paging_descriptors ops cs (clear_owned_paging_descriptors ops [c] st)"
  by (induction cs) (simp_all add: Let_def)

lemma registry_only_meta:
  "unregister_page_table f st = st\<lparr>vm_meta := vm_meta (unregister_page_table f st)\<rparr>"
  "decrement_present_entry f st = Some st' \<Longrightarrow> st' = st\<lparr>vm_meta := vm_meta st'\<rparr>"
  "increment_present_entry f st = Some st' \<Longrightarrow> st' = st\<lparr>vm_meta := vm_meta st'\<rparr>"
  "register_page_table root f ow l st = Some st' \<Longrightarrow> st' = st\<lparr>vm_meta := vm_meta st'\<rparr>"
  by (auto simp: unregister_page_table_def update_metadata_def decrement_present_entry_def
      increment_present_entry_def register_page_table_def split: option.splits if_splits)

lemma clear_one_eq:
  "\<exists>m. clear_owned_paging_descriptors ops [c] st =
       free_frame ops (oc_child_frame c) ((set_entry (oc_entry c) (oc_index c) 0 st)\<lparr>vm_meta := m\<rparr>)"
proof -
  let ?s = "set_entry (oc_entry c) (oc_index c) 0 st"
  obtain s2 where s2: "(case decrement_present_entry (oc_parent_frame c) ?s of None \<Rightarrow> ?s | Some st' \<Rightarrow> st') = s2"
    and "\<exists>m. s2 = ?s\<lparr>vm_meta := m\<rparr>"
  proof (cases "decrement_present_entry (oc_parent_frame c) ?s")
    case None
    have "?s = ?s\<lparr>vm_meta := vm_meta ?s\<rparr>" by simp
    with None show ?thesis by (intro that[of ?s]) (simp, blast)
  next
    case (Some st')
    with registry_only_meta(2)[OF Some] show ?thesis by (intro that[of st']) (simp, blast)
  qed
  then obtain m where "s2 = ?s\<lparr>vm_meta := m\<rparr>" by blast
  then have "unregister_page_table (oc_child_frame c) s2 = ?s\<lparr>vm_meta := vm_meta (unregister_page_table (oc_child_frame c) s2)\<rparr>"
    using registry_only_meta(1)[of "oc_child_frame c" s2] by simp
  moreover have "clear_owned_paging_descriptors ops [c] st =
      free_frame ops (oc_child_frame c) (unregister_page_table (oc_child_frame c) s2)"
    using s2 by (simp add: Let_def)
  ultimately show ?thesis by metis
qed

lemma empty_child_sim:
  assumes "sim own st st'" "empty_child own st f i child r p" "own child \<noteq> None"
  shows "empty_child own st' f i child r p"
proof -
  have f: "own f = Some (r, p)" using assms(2) by (simp add: empty_child_def)
  obtain x where "own child = Some x" using assms(3) by blast
  then show ?thesis
    using assms(2) simD(1,2)[OF assms(1) f] simD(1)[OF assms(1), of child "fst x" "snd x"]
    by (auto simp: empty_child_def)
qed

lemma sim_set_entry:
  assumes "sim own st st'" "\<And>g. own' g \<noteq> None \<Longrightarrow> own' g = own g"
  shows "sim own' (set_entry f i d st) (set_entry f i d st')"
proof -
  have "entry_sim (length p = 3) (entry_at (set_entry f i d st) g j) (entry_at (set_entry f i d st') g j)"
    if "own' g = Some (r, p)" for g r p j
  proof -
    have "own g = Some (r, p)" using assms(2)[of g] that by simp
    then have "entry_sim (length p = 3) (entry_at st g j) (entry_at st' g j)"
      using assms(1) unfolding sim_def by blast
    then show ?thesis by simp
  qed
  with assms(1) show ?thesis by (simp add: sim_def)
qed

lemma chain_ok_sim:
  "pt_wf own st \<Longrightarrow> sim own st st' \<Longrightarrow> chain_ok own st cs \<Longrightarrow> chain_ok own st' cs"
proof (induction cs arbitrary: own st st')
  case (Cons c cs)
  let ?f = "oc_entry c" and ?i = "oc_index c" and ?g = "oc_child_frame c"
  from Cons.prems(3) obtain r p where e: "empty_child own st ?f ?i ?g r p"
    and rest: "chain_ok (own(?g := None)) (set_entry ?f ?i 0 st) cs" by auto
  note og = empty_child_own[OF Cons.prems(1) e]
  have "sim (own(?g := None)) (set_entry ?f ?i 0 st) (set_entry ?f ?i 0 st')"
    by (rule sim_set_entry[OF Cons.prems(2)]) (simp split: if_splits)
  from Cons.IH[OF unlink_wf[OF Cons.prems(1) e absent_zero] this rest]
  have "chain_ok (own(?g := None)) (set_entry ?f ?i 0 st') cs" .
  moreover have "empty_child own st' ?f ?i ?g r p"
    using og(1) by (intro empty_child_sim[OF Cons.prems(2) e]) simp
  ultimately show ?case unfolding chain_ok.simps by blast
qed simp

locale frame_allocator =
  fixes ops :: "'h frame_ops" and hinv :: "'h \<Rightarrow> bool" and frees :: "'h \<Rightarrow> u64 set"
  assumes alloc_laws: "hinv h \<Longrightarrow> fo_alloc ops h = (p, h') \<Longrightarrow>
      hinv h' \<and> frees h' \<subseteq> frees h \<and> (p \<noteq> 0 \<longrightarrow> p \<in> frees h \<and> p \<notin> frees h' \<and> frame_of p = p)"
    and free_laws: "hinv h \<Longrightarrow> p \<noteq> 0 \<Longrightarrow> frame_of p = p \<Longrightarrow> p \<notin> frees h \<Longrightarrow>
      hinv (fo_free ops p h) \<and> frees (fo_free ops p h) \<subseteq> insert p (frees h)"
begin

lemma pt_inv_sim:
  "pt_inv hinv frees own st \<Longrightarrow> sim own st st' \<Longrightarrow> vm_heap st' = vm_heap st \<Longrightarrow> pt_inv hinv frees own st'"
  by (simp add: pt_inv_def sim_wf)

lemma alloc_frame_inv:
  assumes "pt_inv hinv frees own st" "alloc_frame ops st = (page, st1)"
  shows "pt_inv hinv frees own st1" "sim own st st1" "vm_tables st1 = vm_tables st"
    "page \<noteq> 0 \<Longrightarrow> own page = None \<and> frame_of page = page \<and> page \<notin> frees (vm_heap st1)"
proof -
  obtain h where h: "fo_alloc ops (vm_heap st) = (page, h)" "st1 = st\<lparr>vm_heap := h\<rparr>"
    using assms(2) by (auto simp: alloc_frame_def split: prod.splits)
  from alloc_laws[OF _ h(1)] assms(1) h(2)
  show "pt_inv hinv frees own st1" "sim own st st1" "vm_tables st1 = vm_tables st"
    "page \<noteq> 0 \<Longrightarrow> own page = None \<and> frame_of page = page \<and> page \<notin> frees (vm_heap st1)"
    by (auto simp: pt_inv_def)
qed

lemma free_frame_inv:
  assumes "pt_inv hinv frees own st" "own page = None" "page \<noteq> 0" "frame_of page = page"
    "page \<notin> frees (vm_heap st)"
  shows "pt_inv hinv frees own (free_frame ops page st)"
  using assms free_laws[of "vm_heap st" page] by (auto simp: pt_inv_def free_frame_def)


text \<open>Rolling back a chain of changes restores the view and gives every table frame back.\<close>

lemma clear_changes:
  assumes "pt_inv hinv frees own st" "chain_ok own st (rev cs)"
  shows "\<exists>own'. pt_inv hinv frees own' (clear_owned_paging_descriptors ops cs st) \<and>
    vm_direct (clear_owned_paging_descriptors ops cs st) = vm_direct st \<and>
    (\<forall>root. is_root own root \<longrightarrow> is_root own' root \<and>
       (\<forall>v. user_addr v \<longrightarrow> leaf_at (clear_owned_paging_descriptors ops cs st) root v = leaf_at st root v))"
  using assms
proof (induction cs arbitrary: own st rule: rev_induct)
  case Nil
  then show ?case by auto
next
  case (snoc c cs)
  let ?f = "oc_entry c" and ?i = "oc_index c" and ?g = "oc_child_frame c"
  let ?s = "set_entry ?f ?i 0 st" and ?own = "own(?g := None)"
  from snoc.prems(2) obtain r p where e: "empty_child own st ?f ?i ?g r p"
    and rest: "chain_ok ?own ?s (rev cs)" by auto
  obtain m where m: "clear_owned_paging_descriptors ops [c] st = free_frame ops ?g (?s\<lparr>vm_meta := m\<rparr>)"
    using clear_one_eq by blast
  let ?t = "free_frame ops ?g (?s\<lparr>vm_meta := m\<rparr>)"
  have wf: "pt_wf own st" using snoc.prems(1) by (simp add: pt_inv_def)
  note og = empty_child_own[OF wf e]
  have fg: "frame_of ?g = ?g" using pt_wfD(1)[OF wf og(1)] .
  have g0: "?g \<noteq> 0" "?g \<notin> frees (vm_heap st)" using snoc.prems(1) og(1) by (auto simp: pt_inv_def)
  have "pt_inv hinv frees ?own (?s\<lparr>vm_meta := m\<rparr>)"
    using snoc.prems(1) unlink_wf[OF wf e absent_zero] by (auto simp: pt_inv_def)
  then have inv: "pt_inv hinv frees ?own ?t" by (rule free_frame_inv) (use g0 fg in auto)
  have simt: "sim ?own ?s ?t" by (simp add: free_frame_def)
  have "chain_ok ?own ?t (rev cs)"
    using unlink_wf[OF wf e absent_zero] simt rest by (rule chain_ok_sim)
  from snoc.IH[OF inv this] obtain own' where
    own': "pt_inv hinv frees own' (clear_owned_paging_descriptors ops cs ?t)"
    and dir: "vm_direct (clear_owned_paging_descriptors ops cs ?t) = vm_direct ?t"
    and view: "\<And>root v. is_root ?own root \<Longrightarrow> is_root own' root \<and>
       (user_addr v \<longrightarrow> leaf_at (clear_owned_paging_descriptors ops cs ?t) root v = leaf_at ?t root v)"
    by blast
  have "leaf_at ?t root v = leaf_at st root v" if "is_root own root" "user_addr v" for root v
    using unlink_view[OF wf e absent_zero that] by (simp add: free_frame_def)
  moreover have "is_root ?own root" if "is_root own root" for root
    using that og(1) by (auto simp: is_root_def)
  moreover have "vm_direct ?t = vm_direct st" by (simp add: free_frame_def)
  moreover have "clear_owned_paging_descriptors ops (cs @ [c]) st = clear_owned_paging_descriptors ops cs ?t"
    by (simp only: clear_snoc m)
  ultimately show ?case using own' dir view by metis
qed

end

section \<open>Mapping a page\<close>

lemma next_table_from_own:
  assumes "pt_wf own st" "own f = Some (r, p)" "own g = Some (r, p @ [i])" "direct_table st g = Some g"
  shows "next_table st f i = Some g"
proof -
  from pt_wf_parent[OF assms(1,3)] obtain h where h: "own h = Some (r, p)"
    "paging_present (entry_at st h i)" "frame_of (entry_at st h i) = g" "p = [] \<longrightarrow> i < 256" .
  have "h = f" using pt_wf_inj[OF assms(1) h(1) assms(2)] .
  moreover have "direct_table st (entry_at st h i) = direct_table st g"
    using h(3) pt_wfD(1)[OF assms(1,3)] by (simp add: direct_table_def)
  ultimately show ?thesis using h assms(4) by (simp add: next_table_def)
qed

text \<open>A step of the mapping algorithm that only grows the forest: the invariant and the chain of
  changes carry over and no leaf moves.\<close>

definition grows :: "('h \<Rightarrow> bool) \<Rightarrow> ('h \<Rightarrow> u64 set) \<Rightarrow> positions \<Rightarrow> 'h vm_state \<Rightarrow>
    positions \<Rightarrow> 'h vm_state \<Rightarrow> owned_change list \<Rightarrow> bool" where
  "grows hinv frees own st own' st' chs' \<longleftrightarrow>
     pt_inv hinv frees own' st' \<and> chain_ok own' st' (rev chs') \<and> vm_direct st' = vm_direct st \<and>
     (\<forall>g x. own g = Some x \<longrightarrow> own' g = Some x) \<and>
     (\<forall>root v. is_root own root \<longrightarrow> user_addr v \<longrightarrow> leaf_at st' root v = leaf_at st root v)"

lemma grows_root: "grows hinv frees own st own' st' chs' \<Longrightarrow> is_root own root \<Longrightarrow> is_root own' root"
  by (simp add: grows_def is_root_def)

lemma grows_trans:
  assumes "grows hinv frees own st own1 st1 chs1" "grows hinv frees own1 st1 own2 st2 chs2"
  shows "grows hinv frees own st own2 st2 chs2"
proof -
  have "leaf_at st2 root v = leaf_at st root v" if "is_root own root" "user_addr v" for root v
    using assms grows_root[OF assms(1) that(1)] that by (simp add: grows_def)
  with assms show ?thesis by (simp add: grows_def)
qed

lemma grows_sim:
  assumes "pt_inv hinv frees own st" "chain_ok own st (rev chs)" "sim own st st'"
    "pt_inv hinv frees own st'"
  shows "grows hinv frees own st own st' chs"
proof -
  have wf: "pt_wf own st" using assms(1) by (simp add: pt_inv_def)
  have "vm_direct st' = vm_direct st" using assms(3) by (simp add: sim_def)
  then show ?thesis
    using assms(4) chain_ok_sim[OF wf assms(3,2)] sim_view[OF assms(3) wf] by (simp add: grows_def)
qed

lemma link_attr:
  assumes "attr = 3 \<or> attr = 7" "frame_of page = page"
  shows "links_to (frame_of page OR attr) page"
proof -
  have "paging_present (d OR attr)" for d
    using assms(1) by (auto simp: paging_present_def bit.conj_disj_distrib2)
  moreover have "frame_of (frame_of page OR attr) = frame_of page"
    using assms(1) by (auto simp: bit.conj_disj_distrib2 PAGING_DESCRIPTOR_ADDR_MASK_def and.assoc)
  moreover have "(frame_of page OR attr) AND PAGING_DESCRIPTOR_LARGE_PAGE = 0"
    using assms(1)
    by (auto simp: bit.conj_disj_distrib2 PAGING_DESCRIPTOR_ADDR_MASK_def PAGING_DESCRIPTOR_LARGE_PAGE_def and.assoc)
  ultimately show ?thesis using assms(2) by (simp add: links_to_def)
qed

text \<open>A failed step leaves a well-formed forest with the same leaves.\<close>

definition same_leaves :: "('h \<Rightarrow> bool) \<Rightarrow> ('h \<Rightarrow> u64 set) \<Rightarrow> positions \<Rightarrow> 'h vm_state \<Rightarrow>
    positions \<Rightarrow> 'h vm_state \<Rightarrow> bool" where
  "same_leaves hinv frees own st own' st' \<longleftrightarrow>
     pt_inv hinv frees own' st' \<and> vm_direct st' = vm_direct st \<and>
     (\<forall>root. is_root own root \<longrightarrow> is_root own' root \<and>
        (\<forall>v. user_addr v \<longrightarrow> leaf_at st' root v = leaf_at st root v))"

lemma grows_same_leaves:
  assumes "grows hinv frees own st own' st' chs'" shows "same_leaves hinv frees own st own' st'"
  using assms grows_root[OF assms] unfolding same_leaves_def grows_def by blast

text \<open>The outcome of mapping \<open>v\<close> in \<open>root\<close>: on success one leaf appears where there was
  none, on failure the view is as before; both ways the forest stays well formed.\<close>

definition map_outcome :: "('h \<Rightarrow> bool) \<Rightarrow> ('h \<Rightarrow> u64 set) \<Rightarrow> positions \<Rightarrow> 'h vm_state \<Rightarrow>
    u64 \<Rightarrow> u64 \<Rightarrow> u64 \<Rightarrow> bool \<Rightarrow> positions \<Rightarrow> 'h vm_state \<Rightarrow> bool" where
  "map_outcome hinv frees own st root v d ok own' st' \<longleftrightarrow>
     pt_inv hinv frees own' st' \<and> vm_direct st' = vm_direct st \<and>
     (\<forall>root'. is_root own root' \<longrightarrow> is_root own' root') \<and>
     (ok \<longrightarrow> leaf_at st root v = None) \<and>
     (\<forall>root' w. is_root own root' \<longrightarrow> user_addr w \<longrightarrow> w AND (PAGE_SIZE - 1) = 0 \<longrightarrow>
        leaf_at st' root' w =
          (if ok \<and> frame_of root' = frame_of root \<and> w = v then Some d else leaf_at st root' w))"

lemma same_leaves_outcome:
  "same_leaves hinv frees own st own' st' \<Longrightarrow> map_outcome hinv frees own st root v d False own' st'"
  by (simp add: same_leaves_def map_outcome_def)

context frame_allocator begin

lemma ensure_fresh:
  assumes inv: "pt_inv hinv frees own st" and chain: "chain_ok own st (rev chs)"
    and s: "fresh_slot own st f i r p" and attr: "attr = 3 \<or> attr = 7"
    and page: "own page = None" "frame_of page = page" "page \<notin> frees (vm_heap st)" "page \<noteq> 0"
    and st': "st' = (set_entry f i (frame_of page OR attr) (zero_table page st))\<lparr>vm_meta := m\<rparr>"
  shows "grows hinv frees own st (own(page \<mapsto> (r, p @ [i]))) st'
     (chs @ [\<lparr>oc_entry = f, oc_index = i, oc_parent_frame = parent, oc_child_frame = page\<rparr>])"
proof -
  let ?own = "own(page \<mapsto> (r, p @ [i]))" and ?z = "zero_table page st"
  let ?s = "set_entry f i (frame_of page OR attr) ?z"
  have wf: "pt_wf own st" using inv by (simp add: pt_inv_def)
  have of: "own f = Some (r, p)" "length p < 3" "p = [] \<longrightarrow> i < 256" "\<not> paging_present (entry_at st f i)"
    using s by (auto simp: fresh_slot_def)
  have pf: "page \<noteq> f" using page(1) of(1) by auto
  note simz = sim_zero_fresh[of own page st, OF page(1)]
  have wfz: "pt_wf own ?z" by (rule sim_wf[OF simz wf])
  have sz: "fresh_slot own ?z f i r p" using s pf by (simp add: fresh_slot_def)
  have empty: "\<not> paging_present (entry_at ?z page j)" for j by simp
  note d = link_attr[OF attr page(2)]
  note wf' = link_wf[OF wfz sz page(1,2) empty d]
  have view: "leaf_at ?s root v = leaf_at st root v" if "is_root own root" "user_addr v" for root v
    using link_view[OF wfz sz page(1,2) empty d that] sim_view[OF simz wf that] by simp
  have c: "empty_child ?own ?s f i page r p"
    using of pf d by (auto simp: empty_child_def links_to_def)
  have "sim own st (set_entry f i 0 ?s)"
  proof -
    have "set_entry f i 0 ?s = set_entry f i 0 ?z" by (simp add: set_entry_def)
    moreover have "sim own ?z (set_entry f i 0 ?z)"
      using of pf by (intro sim_set_absent) auto
    ultimately show ?thesis using sim_trans[OF simz] by simp
  qed
  from chain_ok_sim[OF wf this chain] have "chain_ok (?own(page := None)) (set_entry f i 0 ?s) (rev chs)"
    using page(1) by (simp add: fun_upd_idem)
  with c have chain': "chain_ok ?own ?s
      (rev (chs @ [\<lparr>oc_entry = f, oc_index = i, oc_parent_frame = parent, oc_child_frame = page\<rparr>]))"
    by auto
  have sims: "sim ?own ?s st'" by (simp add: st')
  have "pt_inv hinv frees ?own st'"
    using inv wf' page(3,4) by (auto simp: pt_inv_def st')
  moreover have "vm_direct st' = vm_direct st" by (simp add: st')
  moreover have "leaf_at st' = leaf_at ?s" by (simp add: st')
  ultimately show ?thesis
    using chain_ok_sim[OF wf' sims chain'] view page(1) by (auto simp: grows_def)
qed

lemma grows_refl:
  "pt_inv hinv frees own st \<Longrightarrow> chain_ok own st (rev chs) \<Longrightarrow> grows hinv frees own st own st chs"
  by (simp add: grows_def)

lemma ensure_owned_descriptor_grows:
  assumes inv: "pt_inv hinv frees own st" and chain: "chain_ok own st (rev chs)"
    and f: "own f = Some (r, p)" "length p < 3" "p = [] \<longrightarrow> i < 256" and attr: "attr = 3 \<or> attr = 7"
    and res: "ensure_owned_descriptor ops f i attr parent root ow lvl st chs = (ok, st', chs')"
  shows "\<exists>own'. grows hinv frees own st own' st' chs' \<and> (ok \<longrightarrow> paging_present (entry_at st' f i))"
proof (cases "paging_present (entry_at st f i)")
  case True
  then have st': "st' = st \<or> st' = set_entry f i (entry_at st f i OR ATTR_USER) st" and ok: "chs' = chs"
    using res by (auto simp: ensure_owned_descriptor_def split: if_splits)
  have sims: "sim own st st'" using st' sim_set_user[of own f r p st i, OF f(1,2)] by auto
  have "pt_inv hinv frees own st'" using inv sims by (rule pt_inv_sim) (use st' in auto)
  then show ?thesis
    using grows_sim[OF inv chain sims] simD(1)[of own st st' f r p i, OF sims f(1)] True ok by auto
next
  case False
  obtain page st1 where al: "alloc_frame ops st = (page, st1)" by (cases "alloc_frame ops st")
  note a = alloc_frame_inv[OF inv al]
  note g1 = grows_sim[OF inv chain a(2,1)]
  have chain1: "chain_ok own st1 (rev chs)" using g1 by (simp add: grows_def)
  have wf1: "pt_wf own st1" using a(1) by (simp add: pt_inv_def)
  show ?thesis
  proof (cases "page = 0")
    case True
    then show ?thesis using res False al g1 by (auto simp: ensure_owned_descriptor_def)
  next
    case p0: False
    note page = a(4)[OF p0]
    have free1: "grows hinv frees own st own (free_frame ops page st2) chs"
      if "sim own st1 st2" "vm_heap st2 = vm_heap st1" for st2
    proof -
      have "pt_inv hinv frees own (free_frame ops page st2)"
        using pt_inv_sim[OF a(1) that] page p0 that(2) by (intro free_frame_inv) auto
      then show ?thesis
        using that(1) by (intro grows_trans[OF g1] grows_sim[OF a(1) chain1]) (simp_all add: free_frame_def)
    qed
    show ?thesis
    proof (cases "direct_table st1 page")
      case None
      then show ?thesis using res False al p0 free1[of st1] by (auto simp: ensure_owned_descriptor_def)
    next
      case (Some t)
      have t: "t = page" using direct_table_Some[OF Some] page by simp
      let ?z = "zero_table page st1"
      have simz: "sim own st1 ?z" using page by (intro sim_zero_fresh) simp
      show ?thesis
      proof (cases "register_page_table root page ow lvl ?z")
        case None
        then show ?thesis
          using res False al p0 Some t free1[OF simz] by (auto simp: ensure_owned_descriptor_def Let_def)
      next
        case reg: (Some st2)
        let ?s = "set_entry f i (frame_of page OR attr) st2"
        obtain m2 where m2: "st2 = ?z\<lparr>vm_meta := m2\<rparr>" using registry_only_meta(4)[OF reg] by blast
        have fresh: "fresh_slot own st1 f i r p" using f False a(3) by (simp add: fresh_slot_def)
        show ?thesis
        proof (cases "increment_present_entry parent ?s")
          case None
          have eq: "set_entry f i 0 ?s = (set_entry f i 0 ?z)\<lparr>vm_meta := m2\<rparr>"
            by (simp add: m2 set_entry_def)
          have "\<not> paging_present (entry_at ?z f i)" using False a(3) by (cases "f = page") auto
          then have "sim own ?z (set_entry f i 0 ?z)" by (intro sim_set_absent) auto
          with simz have "sim own st1 (set_entry f i 0 ?z)" by (rule sim_trans)
          then have "sim own st1 (unregister_page_table page (set_entry f i 0 ?s))"
            unfolding eq by (subst registry_only_meta(1)) simp
          moreover have "vm_heap (unregister_page_table page (set_entry f i 0 ?s)) = vm_heap st1"
            unfolding eq by (subst registry_only_meta(1)) simp
          ultimately show ?thesis
            using res False al p0 Some t reg None free1
            by (auto simp: ensure_owned_descriptor_def Let_def)
        next
          case inc: (Some st3)
          obtain m3 where m3: "st3 = ?s\<lparr>vm_meta := m3\<rparr>" using registry_only_meta(3)[OF inc] by blast
          have eq: "st3 = (set_entry f i (frame_of page OR attr) ?z)\<lparr>vm_meta := m3\<rparr>"
            by (simp add: m3 m2 set_entry_def)
          have "grows hinv frees own st1 (own(page \<mapsto> (r, p @ [i]))) st3
             (chs @ [\<lparr>oc_entry = f, oc_index = i, oc_parent_frame = parent, oc_child_frame = page\<rparr>])"
            using page p0 by (intro ensure_fresh[OF a(1) chain1 fresh attr _ _ _ _ eq]) auto
          note g3 = grows_trans[OF g1 this]
          have "paging_present (entry_at st3 f i)"
            using link_attr[OF attr, of page] page by (simp add: eq links_to_def)
          with g3 show ?thesis
            using res False al p0 Some t reg inc by (auto simp: ensure_owned_descriptor_def Let_def)
        qed
      qed
    qed
  qed
qed

lemma grows_cleared:
  assumes "grows hinv frees own st own1 st1 chs1"
  shows "\<exists>own'. same_leaves hinv frees own st own' (clear_owned_paging_descriptors ops chs1 st1)"
proof -
  from assms have "pt_inv hinv frees own1 st1" "chain_ok own1 st1 (rev chs1)" by (auto simp: grows_def)
  from clear_changes[OF this] obtain own' where
    "pt_inv hinv frees own' (clear_owned_paging_descriptors ops chs1 st1)"
    "vm_direct (clear_owned_paging_descriptors ops chs1 st1) = vm_direct st1"
    "\<forall>root. is_root own1 root \<longrightarrow> is_root own' root \<and>
       (\<forall>v. user_addr v \<longrightarrow> leaf_at (clear_owned_paging_descriptors ops chs1 st1) root v = leaf_at st1 root v)"
    by blast
  then have "same_leaves hinv frees own st own' (clear_owned_paging_descriptors ops chs1 st1)"
    using assms grows_root[OF assms] unfolding same_leaves_def grows_def by simp
  then show ?thesis by blast
qed

lemma map_descend_Inl:
  assumes inv: "pt_inv hinv frees own st" and chain: "chain_ok own st (rev chs)"
    and f: "own f = Some (r, p)" "length p < 3" "p = [] \<longrightarrow> i < 256" and attr: "attr = 3 \<or> attr = 7"
    and res: "map_descend ops f i attr parent root lvl st chs = Inl st'"
  shows "\<exists>own'. same_leaves hinv frees own st own' st'"
proof -
  obtain ok st1 chs1 where e:
    "ensure_owned_descriptor ops f i attr parent root UserAddressSpace lvl st chs = (ok, st1, chs1)"
    by (metis prod_cases3)
  from ensure_owned_descriptor_grows[OF inv chain f attr e] obtain own1 where
    g: "grows hinv frees own st own1 st1 chs1" by blast
  from res e have "st' = clear_owned_paging_descriptors ops chs1 st1 \<or> st' = st1"
    by (auto simp: map_descend_def split: if_splits option.splits)
  then show ?thesis using grows_cleared[OF g] grows_same_leaves[OF g] by blast
qed

lemma map_descend_Inr:
  assumes inv: "pt_inv hinv frees own st" and chain: "chain_ok own st (rev chs)"
    and f: "own f = Some (r, p)" "length p < 3" "p = [] \<longrightarrow> i < 256" and attr: "attr = 3 \<or> attr = 7"
    and res: "map_descend ops f i attr parent root lvl st chs = Inr (f', st', chs')"
  shows "\<exists>own'. grows hinv frees own st own' st' chs' \<and> own' f' = Some (r, p @ [i]) \<and>
    direct_table st f' = Some f'"
proof -
  obtain ok st1 chs1 where e:
    "ensure_owned_descriptor ops f i attr parent root UserAddressSpace lvl st chs = (ok, st1, chs1)"
    by (metis prod_cases3)
  from res e have eqs: "st' = st1" "chs' = chs1" "ok" "direct_table st1 (entry_at st1 f i) = Some f'"
    by (auto simp: map_descend_def split: if_splits option.splits)
  from ensure_owned_descriptor_grows[OF inv chain f attr e] eqs obtain own1 where
    g: "grows hinv frees own st own1 st' chs'" and pr: "paging_present (entry_at st' f i)" by blast
  have wf: "pt_wf own1 st'" and f1: "own1 f = Some (r, p)" and dir: "vm_direct st' = vm_direct st"
    using g f(1) by (auto simp: grows_def pt_inv_def)
  have f': "f' = frame_of (entry_at st' f i)" using direct_table_Some[OF eqs(4)] eqs(1) by simp
  have "own1 f' = Some (r, p @ [i])"
    using pt_wf_child(1)[of own1 st' f r p i, OF wf f1 f(2) _ pr] f(3) f' by simp
  moreover have "direct_table st f' = Some f'"
    using eqs(4) direct_table_cong[OF dir[symmetric]] unfolding f' eqs(1) by (simp add: direct_table_def)
  ultimately show ?thesis using g by blast
qed

lemma map_leaf_correct:
  assumes g: "grows hinv frees own st own1 st1 chs1" and r: "is_root own root" and u: "user_addr v"
    and al: "v AND (PAGE_SIZE - 1) = 0" and pte: "root_pte st1 root v = Some (pt, i)" and attr: "attr AND 1 \<noteq> 0"
    and res: "map_leaf ops pt i phys attr st1 chs1 = (ok, st')"
  shows "if ok
    then pt_inv hinv frees own1 st' \<and> vm_direct st' = vm_direct st \<and> leaf_at st root v = None \<and>
      (\<forall>root' w. is_root own root' \<longrightarrow> user_addr w \<longrightarrow> w AND (PAGE_SIZE - 1) = 0 \<longrightarrow>
         leaf_at st' root' w =
           (if frame_of root' = frame_of root \<and> w = v then Some (frame_of phys OR attr) else leaf_at st root' w))
    else \<exists>own'. same_leaves hinv frees own st own' st'"
proof -
  let ?s = "set_entry pt i (frame_of phys OR attr) st1"
  have inv1: "pt_inv hinv frees own1 st1" using g by (simp add: grows_def)
  then have wf1: "pt_wf own1 st1" by (simp add: pt_inv_def)
  note r1 = grows_root[OF g]
  note own_pt = root_pte_own[OF wf1 r1[OF r] u pte]
  have wfs: "pt_wf own1 (set_entry pt i d st1)" for d by (rule set_leaf_wf[OF wf1 own_pt(1)]) simp
  have pr: "paging_present (frame_of phys OR attr)"
    using attr by (simp add: paging_present_def bit.conj_disj_distrib2 and.assoc PAGING_DESCRIPTOR_ADDR_MASK_def)
  consider (present) "paging_present (entry_at st1 pt i)"
    | (none) "\<not> paging_present (entry_at st1 pt i)" "increment_present_entry pt ?s = None"
    | (some) st2 where "\<not> paging_present (entry_at st1 pt i)" "increment_present_entry pt ?s = Some st2"
    by (cases "increment_present_entry pt ?s") blast+
  then show ?thesis
  proof cases
    case present
    then show ?thesis using res grows_cleared[OF g] by (auto simp: map_leaf_def)
  next
    case none
    let ?t = "set_entry pt i 0 ?s"
    have t: "?t = set_entry pt i 0 st1" by (simp add: set_entry_def)
    have "sim own1 st1 ?t" unfolding t using none(1) by (intro sim_set_absent) auto
    with inv1 have "pt_inv hinv frees own1 ?t" by (rule pt_inv_sim) simp
    have "chain_ok own1 st1 (rev chs1)" using g by (simp add: grows_def)
    from grows_sim[OF inv1 this \<open>sim own1 st1 ?t\<close> \<open>pt_inv hinv frees own1 ?t\<close>]
    have "grows hinv frees own st own1 ?t chs1" by (rule grows_trans[OF g])
    from grows_cleared[OF this] show ?thesis using res none by (auto simp: map_leaf_def Let_def)
  next
    case some
    obtain m where m: "st2 = ?s\<lparr>vm_meta := m\<rparr>" using registry_only_meta(3)[OF some(2)] by blast
    have ok: "ok" "st' = st2" using res some by (auto simp: map_leaf_def Let_def)
    have view: "leaf_at st2 root' w =
       (if frame_of root' = frame_of root \<and> w = v then Some (frame_of phys OR attr) else leaf_at st root' w)"
      if "is_root own root'" "user_addr w" "w AND (PAGE_SIZE - 1) = 0" for root' w
      using set_leaf_view[OF wf1 pte r1[OF r] r1[OF that(1)] u that(2) al that(3), of "frame_of phys OR attr"] pr g that
      by (simp add: m grows_def)
    have "leaf_at st root v = leaf_at st1 root v" using g r u by (simp add: grows_def)
    also have "\<dots> = None" using some(1) pte by (simp add: leaf_at_def)
    finally have "leaf_at st root v = None" .
    moreover have "pt_inv hinv frees own1 st2" using inv1 wfs by (simp add: pt_inv_def m)
    moreover have "vm_direct st2 = vm_direct st" using g by (simp add: m grows_def)
    ultimately show ?thesis using view ok by simp
  qed
qed

lemma descend_Inl:
  assumes g: "grows hinv frees own st own1 st1 chs1"
    and f: "own1 f = Some (r, p)" "length p < 3" "p = [] \<longrightarrow> i < 256" and attr: "attr = 3 \<or> attr = 7"
    and res: "map_descend ops f i attr parent root lvl st1 chs1 = Inl s"
  shows "\<exists>own'. map_outcome hinv frees own st rt v d False own' s"
proof -
  have "pt_inv hinv frees own1 st1" "chain_ok own1 st1 (rev chs1)" using g by (auto simp: grows_def)
  from map_descend_Inl[OF this f attr res] obtain own' where "same_leaves hinv frees own1 st1 own' s" by auto
  then have "same_leaves hinv frees own st own' s"
    using g grows_root[OF g] unfolding same_leaves_def grows_def by simp
  then show ?thesis by (blast dest: same_leaves_outcome)
qed

lemma descend_Inr:
  assumes g: "grows hinv frees own st own1 st1 chs1"
    and f: "own1 f = Some (r, p)" "length p < 3" "p = [] \<longrightarrow> i < 256" and attr: "attr = 3 \<or> attr = 7"
    and res: "map_descend ops f i attr parent root lvl st1 chs1 = Inr (f', s, chs')"
  shows "\<exists>own'. grows hinv frees own st own' s chs' \<and> own' f' = Some (r, p @ [i]) \<and>
    (\<forall>h x. own1 h = Some x \<longrightarrow> own' h = Some x) \<and> direct_table st f' = Some f'"
proof -
  have inv: "pt_inv hinv frees own1 st1" "chain_ok own1 st1 (rev chs1)" and dir: "vm_direct st1 = vm_direct st"
    using g by (auto simp: grows_def)
  from map_descend_Inr[OF inv f attr res] obtain own' where
    g': "grows hinv frees own1 st1 own' s chs'" "own' f' = Some (r, p @ [i])" "direct_table st1 f' = Some f'" by auto
  moreover have "\<forall>h x. own1 h = Some x \<longrightarrow> own' h = Some x" using g'(1) unfolding grows_def by blast
  ultimately show ?thesis using grows_trans[OF g g'(1)] direct_table_cong[OF dir, of f'] by metis
qed

lemma map_root_page_correct:
  assumes inv: "pt_inv hinv frees own st" and r: "is_root own root" and u: "user_addr v"
    and al: "v AND (PAGE_SIZE - 1) = 0" and attr: "attr AND 1 \<noteq> 0"
    and res: "map_root_page ops root v phys attr st = (ok, st')"
  shows "\<exists>own'. map_outcome hinv frees own st root v (frame_of phys OR attr) ok own' st'"
proof -
  let ?i4 = "get_pml4_index v" and ?i3 = "get_pdpt_index v" and ?i2 = "get_pd_index v" and ?i1 = "get_pt_index v"
  let ?rp = "frame_of root" and ?out = "\<lambda>own'. map_outcome hinv frees own st root v (frame_of phys OR attr) ok own' st'"
  define ia where "ia = (if attr AND ATTR_USER \<noteq> 0 then DEFAULT_ATTR_PML4E OR ATTR_USER else DEFAULT_ATTR_PML4E)"
  have ia: "ia = 3 \<or> ia = 7" by (simp add: ia_def DEFAULT_ATTR_PML4E_def ATTR_USER_def)
  have i4: "[] = [] \<longrightarrow> ?i4 < 256" using user_pml4_index[OF u] by simp
  have g4: "grows hinv frees own st own st []" by (rule grows_refl[OF inv]) simp
  note defs = map_root_page_def Let_def ia_def[symmetric]
  consider (null) "direct_table st root = None" "(ok, st') = (False, st)"
    | (l4) f4 s where "direct_table st root = Some f4"
        "map_descend ops f4 ?i4 ia ?rp ?rp Pdpt st [] = Inl s" "(ok, st') = (False, s)"
    | (l3) f4 f3 s3 c3 s where "direct_table st root = Some f4"
        "map_descend ops f4 ?i4 ia ?rp ?rp Pdpt st [] = Inr (f3, s3, c3)"
        "map_descend ops f3 ?i3 ia f3 ?rp Pd s3 c3 = Inl s" "(ok, st') = (False, s)"
    | (l2) f4 f3 s3 c3 f2 s2 c2 s where "direct_table st root = Some f4"
        "map_descend ops f4 ?i4 ia ?rp ?rp Pdpt st [] = Inr (f3, s3, c3)"
        "map_descend ops f3 ?i3 ia f3 ?rp Pd s3 c3 = Inr (f2, s2, c2)"
        "map_descend ops f2 ?i2 ia f2 ?rp Pt s2 c2 = Inl s" "(ok, st') = (False, s)"
    | (l1) f4 f3 s3 c3 f2 s2 c2 f1 s1 c1 where "direct_table st root = Some f4"
        "map_descend ops f4 ?i4 ia ?rp ?rp Pdpt st [] = Inr (f3, s3, c3)"
        "map_descend ops f3 ?i3 ia f3 ?rp Pd s3 c3 = Inr (f2, s2, c2)"
        "map_descend ops f2 ?i2 ia f2 ?rp Pt s2 c2 = Inr (f1, s1, c1)"
        "map_leaf ops f1 ?i1 phys attr s1 c1 = (ok, st')"
    using res by (auto simp: defs split: option.splits sum.splits prod.splits)
  then show ?thesis
  proof cases
    case null then show ?thesis using inv by (auto simp: map_outcome_def)
  next
    case l4
    have o4: "own f4 = Some (?rp, [])" using r direct_table_Some[OF l4(1)] by (simp add: is_root_def)
    show ?thesis using descend_Inl[OF g4 o4 _ i4 ia l4(2)] l4(3) by simp
  next
    case l3
    have o4: "own f4 = Some (?rp, [])" using r direct_table_Some[OF l3(1)] by (simp add: is_root_def)
    from descend_Inr[OF g4 o4 _ i4 ia l3(2)] obtain own3 where
      g3: "grows hinv frees own st own3 s3 c3" "own3 f3 = Some (?rp, [?i4])" by auto
    show ?thesis using descend_Inl[OF g3 _ _ ia l3(3)] l3(4) by simp
  next
    case l2
    have o4: "own f4 = Some (?rp, [])" using r direct_table_Some[OF l2(1)] by (simp add: is_root_def)
    from descend_Inr[OF g4 o4 _ i4 ia l2(2)] obtain own3 where
      g3: "grows hinv frees own st own3 s3 c3" "own3 f3 = Some (?rp, [?i4])" by auto
    from descend_Inr[OF g3 _ _ ia l2(3)] obtain own2 where
      g2: "grows hinv frees own st own2 s2 c2" "own2 f2 = Some (?rp, [?i4, ?i3])" by auto
    show ?thesis using descend_Inl[OF g2 _ _ ia l2(4)] l2(5) by simp
  next
    case l1
    have o4: "own f4 = Some (?rp, [])" "f4 = ?rp" using r direct_table_Some[OF l1(1)] by (auto simp: is_root_def)
    from descend_Inr[OF g4 o4(1) _ i4 ia l1(2)] obtain own3 where
      g3: "grows hinv frees own st own3 s3 c3" "own3 f3 = Some (?rp, [?i4])" "own3 f4 = Some (?rp, [])"
        "direct_table st f3 = Some f3" using o4 by auto
    from descend_Inr[OF g3(1,2) _ _ ia l1(3)] obtain own2 where
      g2: "grows hinv frees own st own2 s2 c2" "own2 f2 = Some (?rp, [?i4, ?i3])" "own2 f4 = Some (?rp, [])"
        "own2 f3 = Some (?rp, [?i4])" "direct_table st f2 = Some f2" using g3 by auto
    from descend_Inr[OF g2(1,2) _ _ ia l1(4)] obtain own1 where
      g1: "grows hinv frees own st own1 s1 c1" "own1 f1 = Some (?rp, path_of v)" "own1 f4 = Some (?rp, [])"
        "own1 f3 = Some (?rp, [?i4])" "own1 f2 = Some (?rp, [?i4, ?i3])" "direct_table st f1 = Some f1"
      using g2 by auto
    have wf1: "pt_wf own1 s1" and dir: "vm_direct s1 = vm_direct st" using g1(1) by (auto simp: grows_def pt_inv_def)
    have "walk s1 f4 (path_of v) = Some f1"
      using next_table_from_own[OF wf1 g1(3), of f3 ?i4] next_table_from_own[OF wf1 g1(4), of f2 ?i3]
        next_table_from_own[OF wf1 g1(5), of f1 ?i2] g1 g2 g3
      by (simp add: direct_table_cong[OF dir])
    then have "root_pte s1 root v = Some (f1, ?i1)"
      using root_pte_walk[OF wf1 grows_root[OF g1(1) r] u] l1(1) by (simp add: direct_table_cong[OF dir])
    note leaf = map_leaf_correct[OF g1(1) r u al this attr l1(5)]
    show ?thesis
    proof (cases ok)
      case True
      then have "map_outcome hinv frees own st root v (frame_of phys OR attr) ok own1 st'"
        using leaf grows_root[OF g1(1)] by (simp add: map_outcome_def)
      then show ?thesis by blast
    next
      case False
      with leaf show ?thesis by (auto dest: same_leaves_outcome)
    qed
  qed
qed

end

section \<open>The registry counts present entries\<close>

fun level_at :: "nat \<Rightarrow> page_table_level" where
  "level_at 0 = Pml4" | "level_at (Suc 0) = Pdpt" | "level_at (Suc (Suc 0)) = Pd" | "level_at n = Pt"

definition present_in :: "'h vm_state \<Rightarrow> u64 \<Rightarrow> u64 set" where
  "present_in st f = {i. paging_present (entry_at st f i)}"

text \<open>Every inner table of the forest is registered for its root and level, holds no entry beyond
  the 512 slots, and its counter is the number of present entries.\<close>

definition reg_ok :: "positions \<Rightarrow> 'h vm_state \<Rightarrow> bool" where
  "reg_ok own st \<longleftrightarrow> (\<forall>f r p. own f = Some (r, p) \<and> p \<noteq> [] \<longrightarrow>
     present_in st f \<subseteq> {..<512} \<and>
     (\<exists>m. find_page_table_metadata st f = Some m \<and> m_owner m = UserAddressSpace \<and>
        m_level m = level_at (length p) \<and> m_root_phys m = r \<and>
        unat (m_present_entries m) = card (present_in st f)))"

lemma finite_u64 [simp]: "finite (A :: u64 set)"
  by (rule finite)

lemma index_bounds [simp]:
  "get_pdpt_index v < 512" "get_pd_index v < 512" "get_pt_index v < 512"
proof -
  have "x AND mask 9 < (512 :: u64)" for x
    using take_bit_nat_less_exp[of 9 "unat x"]
    by (simp add: word_less_nat_alt unsigned_take_bit_eq flip: take_bit_eq_mask)
  then show "get_pdpt_index v < 512" "get_pd_index v < 512" "get_pt_index v < 512"
    by (simp_all add: get_pdpt_index_def get_pd_index_def get_pt_index_def index_mask)
qed

lemma find_update_same:
  assumes "\<And>m. m_used (g m) = m_used m" "\<And>m. m_frame_phys (g m) = m_frame_phys m"
  shows "find (meta_matches f) (update_first (meta_matches f) g ms) = map_option g (find (meta_matches f) ms)"
  by (induction ms) (auto simp: meta_matches_def assms)

lemma find_update_other:
  assumes "f' \<noteq> f" "\<And>m. m_frame_phys (g m) = m_frame_phys m"
  shows "find (meta_matches f) (update_first (meta_matches f') g ms) = find (meta_matches f) ms"
  by (induction ms) (use assms(1) in \<open>auto simp: meta_matches_def assms(2)\<close>)


lemma find_meta_update:
  assumes "frame_of f = f" "frame_of f' = f'"
    "\<And>m. m_used (g m) = m_used m" "\<And>m. m_frame_phys (g m) = m_frame_phys m"
  shows "find_page_table_metadata (update_metadata f' g st) f =
    (if f' = f then map_option g (find_page_table_metadata st f) else find_page_table_metadata st f)"
  using assms find_update_same[of g f] find_update_other[of f' f g]
  by (simp add: find_page_table_metadata_def update_metadata_def)

lemma find_meta_unregister:
  assumes "frame_of f = f" "frame_of f' = f'" "f' \<noteq> f"
  shows "find_page_table_metadata (unregister_page_table f' st) f = find_page_table_metadata st f"
  using assms find_update_other[of f' f "\<lambda>m. m\<lparr>m_used := False\<rparr>" "vm_meta st"]
  by (simp add: find_page_table_metadata_def update_metadata_def unregister_page_table_def)

lemma find_meta_indep [simp]:
  "find_page_table_metadata (set_entry g i d st) f = find_page_table_metadata st f"
  "find_page_table_metadata (free_frame ops p st) f = find_page_table_metadata st f"
  by (simp_all add: find_page_table_metadata_def free_frame_def)

lemma update_metadata_simps [simp]:
  "vm_tables (update_metadata f g st) = vm_tables st" "vm_heap (update_metadata f g st) = vm_heap st"
  "vm_direct (update_metadata f g st) = vm_direct st"
  by (simp_all add: update_metadata_def)

lemma present_in_indep [simp]:
  "present_in (update_metadata f' g st) f = present_in st f" "present_in (free_frame ops p st) f = present_in st f"
  "present_in (unregister_page_table f' st) f = present_in st f"
  by (simp_all add: present_in_def free_frame_def unregister_page_table_def)

lemma reg_okD:
  assumes "reg_ok own st" "own f = Some (r, p)" "p \<noteq> []"
  obtains m where "find_page_table_metadata st f = Some m" "m_owner m = UserAddressSpace"
    "m_level m = level_at (length p)" "m_root_phys m = r" "unat (m_present_entries m) = card (present_in st f)"
    "present_in st f \<subseteq> {..<512}"
  using assms unfolding reg_ok_def by blast

text \<open>Clearing a present entry of an inner table and decrementing its counter succeeds and keeps the
  registry exact.\<close>

lemma clear_and_decrement:
  assumes reg: "reg_ok own st" and f: "own f = Some (r, p)" "p \<noteq> []" and wf: "pt_wf own st"
    and pr: "paging_present (entry_at st f i)"
  obtains g where "decrement_present_entry f (set_entry f i 0 st) = Some (update_metadata f g (set_entry f i 0 st))"
    "reg_ok own (update_metadata f g (set_entry f i 0 st))"
proof -
  from reg_okD[OF reg f] obtain m where m: "find_page_table_metadata st f = Some m" "m_owner m = UserAddressSpace"
    "m_level m = level_at (length p)" "m_root_phys m = r" "unat (m_present_entries m) = card (present_in st f)"
    "present_in st f \<subseteq> {..<512}" .
  have i: "i \<in> present_in st f" using pr by (simp add: present_in_def)
  then have "card (present_in st f) \<noteq> 0" by auto
  then have m0: "m_present_entries m \<noteq> 0" using m(5) by auto
  let ?g = "\<lambda>m. m\<lparr>m_present_entries := m_present_entries m - 1\<rparr>" and ?s = "set_entry f i 0 st"
  let ?t = "update_metadata f ?g ?s"
  have dec: "decrement_present_entry f ?s = Some ?t" using m(1) m0 by (simp add: decrement_present_entry_def)
  have pi: "present_in ?s h = (if h = f then present_in st f - {i} else present_in st h)" for h
    by (auto simp: present_in_def)
  have "unat (m_present_entries m - 1) = card (present_in st f - {i})"
    using m0 m(5) i by (simp add: unat_minus_one card_Diff_singleton)
  then have "reg_ok own ?t"
    using reg m f pt_wfD(1)[OF wf]
    unfolding reg_ok_def by (auto simp: pi find_meta_update)
  with dec show ?thesis by (rule that)
qed

lemma reg_ok_drop:
  assumes "reg_ok own st" "pt_wf own st0" "own child \<noteq> None"
  shows "reg_ok (own(child := None)) (free_frame ops child (unregister_page_table child st))"
  unfolding reg_ok_def
proof (intro allI impI, goal_cases)
  case (1 f r p)
  then have f: "own f = Some (r, p)" "p \<noteq> []" "child \<noteq> f" by (auto split: if_splits)
  have "frame_of child = child" using assms(3) pt_wfD(1)[OF assms(2)] by (cases "own child") auto
  then have "find_page_table_metadata (free_frame ops child (unregister_page_table child st)) f =
      find_page_table_metadata st f"
    using f pt_wfD(1)[OF assms(2) f(1)] by (simp add: find_meta_unregister)
  then show ?case using assms(1) f(1,2) unfolding reg_ok_def by simp
qed

lemma reg_ok_root_entry:
  assumes "reg_ok own st" "own f = Some (r, [])"
  shows "reg_ok own (set_entry f i d st)"
  unfolding reg_ok_def
proof (intro allI impI, goal_cases)
  case (1 g r' p)
  then have "g \<noteq> f" using assms(2) by auto
  then have eq: "present_in (set_entry f i d st) g = present_in st g" by (auto simp: present_in_def)
  show ?case unfolding eq find_meta_indep using assms(1) 1 unfolding reg_ok_def by blast
qed

context frame_allocator begin

text \<open>Freeing a table that was just unlinked.\<close>

lemma drop_child_leaves:
  assumes inv: "pt_inv hinv frees own st" and e: "empty_child own st f i child r p"
    and t: "t = (set_entry f i 0 st)\<lparr>vm_meta := m\<rparr>"
  shows "same_leaves hinv frees own st (own(child := None)) (free_frame ops child t)"
proof -
  have wf: "pt_wf own st" using inv by (simp add: pt_inv_def)
  note oc = empty_child_own[OF wf e]
  have c: "child \<noteq> 0" "child \<notin> frees (vm_heap st)" using inv oc(1) by (auto simp: pt_inv_def)
  have "pt_inv hinv frees (own(child := None)) t"
    using inv unlink_wf[OF wf e absent_zero] by (simp add: pt_inv_def t)
  then have "pt_inv hinv frees (own(child := None)) (free_frame ops child t)"
    using c pt_wfD(1)[OF wf oc(1)] by (intro free_frame_inv) (auto simp: t)
  moreover have "is_root (own(child := None)) root \<and> leaf_at (free_frame ops child t) root v = leaf_at st root v"
    if "is_root own root" "user_addr v" for root v
    using unlink_view[OF wf e absent_zero that] by (simp add: free_frame_def t)
  moreover have "is_root (own(child := None)) root" if "is_root own root" for root
    using that oc(1) by (auto simp: is_root_def)
  ultimately show ?thesis by (simp add: same_leaves_def free_frame_def t)
qed

lemma reclaim_level_ok:
  assumes inv: "pt_inv hinv frees own st" and reg: "reg_ok own st"
    and f: "own f = Some (r, p)" "length p < 3" "p = [] \<longrightarrow> i < 256" and pr: "paging_present (entry_at st f i)"
    and child: "child = frame_of (entry_at st f i)" and dec: "dec \<longleftrightarrow> p \<noteq> []"
    and lvl: "lvl = level_at (Suc (length p))"
  shows "\<exists>b own' st'. reclaim_level ops dec f i child r lvl st = Inl (b, st') \<and>
    same_leaves hinv frees own st own' st' \<and> reg_ok own' st' \<and>
    (\<forall>g. g \<noteq> child \<longrightarrow> own' g = own g) \<and> (\<forall>g j. g \<noteq> f \<longrightarrow> entry_at st' g j = entry_at st g j)"
proof (cases "page_table_owned_by st child r UserAddressSpace lvl \<and> page_table_empty st child")
  case False
  have "same_leaves hinv frees own st own st" using inv by (simp add: same_leaves_def)
  moreover have "reclaim_level ops dec f i child r lvl st = Inl (False, st)"
    using False by (auto simp: reclaim_level_def)
  ultimately show ?thesis using reg by blast
next
  case True
  have wf: "pt_wf own st" using inv by (simp add: pt_inv_def)
  have oc: "own child = Some (r, p @ [i])" using pt_wf_child(1)[OF wf f(1,2) _ pr] f(3) child by simp
  from reg_okD[OF reg oc] obtain m where m: "find_page_table_metadata st child = Some m"
    "unat (m_present_entries m) = card (present_in st child)" by auto
  have "card (present_in st child) = 0" using True m by (simp add: page_table_empty_def)
  then have "present_in st child = {}" by simp
  then have e: "empty_child own st f i child r p"
    using f pr child by (auto simp: empty_child_def present_in_def)
  have oc_none: "own child \<noteq> None" using oc by simp
  obtain t where t: "(if dec then decrement_present_entry f (set_entry f i 0 st) else Some (set_entry f i 0 st)) = Some t"
    and tm: "t = (set_entry f i 0 st)\<lparr>vm_meta := vm_meta t\<rparr>" and treg: "reg_ok own t"
  proof (cases dec)
    case d: True
    from clear_and_decrement[OF reg f(1) _ wf pr] d dec obtain g where
      g: "decrement_present_entry f (set_entry f i 0 st) = Some (update_metadata f g (set_entry f i 0 st))"
      "reg_ok own (update_metadata f g (set_entry f i 0 st))" by blast
    show ?thesis by (rule that[of "update_metadata f g (set_entry f i 0 st)"]) (use g d in \<open>simp_all add: update_metadata_def\<close>)
  next
    case d: False
    with dec f(1) have "reg_ok own (set_entry f i 0 st)" by (intro reg_ok_root_entry[OF reg]) auto
    then show ?thesis by (intro that[of "set_entry f i 0 st"]) (use d in simp_all)
  qed
  let ?u = "unregister_page_table child t"
  let ?w = "free_frame ops child ?u"
  have u: "?u = (set_entry f i 0 st)\<lparr>vm_meta := vm_meta ?u\<rparr>"
    by (subst tm) (simp add: unregister_page_table_def update_metadata_def)
  have res: "reclaim_level ops dec f i child r lvl st = Inl (True, ?w)"
    using True t by (simp add: reclaim_level_def)
  have reg': "reg_ok (own(child := None)) ?w" by (rule reg_ok_drop[OF treg wf oc_none])
  have ents: "\<forall>g j. g \<noteq> f \<longrightarrow> entry_at ?w g j = entry_at st g j"
    by (subst u) (simp add: free_frame_def)
  show ?thesis
    by (rule exI[of _ True], rule exI[of _ "own(child := None)"], rule exI[of _ ?w])
       (use res drop_child_leaves[OF inv e u] reg' ents in simp)
qed

text \<open>The chain of tables above a leaf slot.\<close>

definition pt_chain :: "positions \<Rightarrow> 'h vm_state \<Rightarrow> u64 \<Rightarrow> u64 \<Rightarrow> u64 \<Rightarrow> u64 \<Rightarrow> u64 \<Rightarrow> bool" where
  "pt_chain own st root v f3 f2 f1 \<longleftrightarrow>
     direct_table st root = Some (frame_of root) \<and> own (frame_of root) = Some (frame_of root, []) \<and>
     next_table st (frame_of root) (get_pml4_index v) = Some f3 \<and> own f3 = Some (frame_of root, [get_pml4_index v]) \<and>
     next_table st f3 (get_pdpt_index v) = Some f2 \<and>
     own f2 = Some (frame_of root, [get_pml4_index v, get_pdpt_index v]) \<and>
     next_table st f2 (get_pd_index v) = Some f1 \<and> own f1 = Some (frame_of root, path_of v)"

lemma root_pte_chain:
  assumes wf: "pt_wf own st" and r: "is_root own root" and u: "user_addr v"
    and pte: "root_pte st root v = Some (pt, i)"
  obtains f3 f2 where "pt_chain own st root v f3 f2 pt" "i = get_pt_index v"
proof -
  have o4: "own (frame_of root) = Some (frame_of root, [])" using r by (simp add: is_root_def)
  from pte obtain f3 f2 where w: "direct_table st root = Some (frame_of root)"
    "next_table st (frame_of root) (get_pml4_index v) = Some f3" "next_table st f3 (get_pdpt_index v) = Some f2"
    "next_table st f2 (get_pd_index v) = Some pt" and i: "i = get_pt_index v"
    unfolding root_pte_walk[OF wf r u] by (auto dest: direct_table_Some split: option.splits)
  have o3: "own f3 = Some (frame_of root, [get_pml4_index v])"
    using next_table_own[OF wf o4 _ _ w(2)] user_pml4_index[OF u] by simp
  have o2: "own f2 = Some (frame_of root, [get_pml4_index v, get_pdpt_index v])"
    using next_table_own[OF wf o3 _ _ w(3)] by simp
  have "own pt = Some (frame_of root, path_of v)" using next_table_own[OF wf o2 _ _ w(4)] by simp
  with o4 o3 o2 w i that show thesis by (simp add: pt_chain_def)
qed

lemma same_leaves_trans:
  assumes "same_leaves hinv frees own st own1 st1" "same_leaves hinv frees own1 st1 own2 st2"
  shows "same_leaves hinv frees own st own2 st2"
  using assms by (simp add: same_leaves_def)

lemma next_tableD: "next_table st f i = Some g \<Longrightarrow>
   paging_present (entry_at st f i) \<and> direct_table st (entry_at st f i) = Some g \<and> frame_of (entry_at st f i) = g"
  by (auto simp: next_table_def dest: direct_table_Some split: if_splits)

lemma reclaim_ok:
  assumes inv: "pt_inv hinv frees own st" and reg: "reg_ok own st" and u: "user_addr v"
    and ch: "pt_chain own st root v f3 f2 f1"
  shows "\<exists>own' st'. reclaim_empty_tables_in_root ops (frame_of root) v st = (True, st') \<and>
     same_leaves hinv frees own st own' st' \<and> reg_ok own' st'"
proof -
  let ?r = "frame_of root" and ?i4 = "get_pml4_index v" and ?i3 = "get_pdpt_index v" and ?i2 = "get_pd_index v"
  note u4 = user_pml4_index[OF u]
  have own: "own ?r = Some (?r, [])" "own f3 = Some (?r, [?i4])" "own f2 = Some (?r, [?i4, ?i3])"
    "own f1 = Some (?r, path_of v)" using ch by (auto simp: pt_chain_def)
  have n4: "paging_present (entry_at st ?r ?i4)" "direct_table st (entry_at st ?r ?i4) = Some f3"
      "frame_of (entry_at st ?r ?i4) = f3"
    and n3: "paging_present (entry_at st f3 ?i3)" "direct_table st (entry_at st f3 ?i3) = Some f2"
      "frame_of (entry_at st f3 ?i3) = f2"
    and n2: "paging_present (entry_at st f2 ?i2)" "frame_of (entry_at st f2 ?i2) = f1"
    using ch by (auto simp: pt_chain_def dest!: next_tableD)
  have dt: "direct_table st ?r = Some ?r" using ch by (simp add: pt_chain_def direct_table_def)
  have distinct: "f2 \<noteq> f3" "f3 \<noteq> ?r" "f2 \<noteq> ?r" "f1 \<noteq> f2" "f1 \<noteq> f3" "f1 \<noteq> ?r" "f3 \<noteq> f2" using own by auto
  from reclaim_level_ok[OF inv reg own(3) _ _ n2(1) n2(2)[symmetric], of True Pt] obtain b1 own1 s1 where
    l1: "reclaim_level ops True f2 ?i2 f1 ?r Pt st = Inl (b1, s1)" "same_leaves hinv frees own st own1 s1"
      "reg_ok own1 s1" "\<forall>g. g \<noteq> f1 \<longrightarrow> own1 g = own g" "\<forall>g j. g \<noteq> f2 \<longrightarrow> entry_at s1 g j = entry_at st g j"
    by (auto simp: numeral_3_eq_3)
  have inv1: "pt_inv hinv frees own1 s1" using l1(2) by (simp add: same_leaves_def)
  have own1: "own1 f3 = Some (?r, [?i4])" "own1 ?r = Some (?r, [])" using l1(4) own distinct by auto
  have e1: "entry_at s1 f3 ?i3 = entry_at st f3 ?i3" "entry_at s1 ?r ?i4 = entry_at st ?r ?i4"
    using l1(5) distinct by auto
  from reclaim_level_ok[OF inv1 l1(3) own1(1) _ _ _ _, of ?i3 f2 True Pd] n3 e1 obtain b2 own2 s2 where
    l2: "reclaim_level ops True f3 ?i3 f2 ?r Pd s1 = Inl (b2, s2)" "same_leaves hinv frees own1 s1 own2 s2"
      "reg_ok own2 s2" "\<forall>g. g \<noteq> f2 \<longrightarrow> own2 g = own1 g" "\<forall>g j. g \<noteq> f3 \<longrightarrow> entry_at s2 g j = entry_at s1 g j"
    by (auto simp: numeral_2_eq_2)
  have inv2: "pt_inv hinv frees own2 s2" using l2(2) by (simp add: same_leaves_def)
  have own2: "own2 ?r = Some (?r, [])" using l2(4) own1 distinct by auto
  have e2: "entry_at s2 ?r ?i4 = entry_at st ?r ?i4" using l2(5) e1 distinct by auto
  from reclaim_level_ok[OF inv2 l2(3) own2 _ _ _ _, of ?i4 f3 False Pdpt] n4 e2 u4 obtain b3 own3 s3 where
    l3: "reclaim_level ops False ?r ?i4 f3 ?r Pdpt s2 = Inl (b3, s3)" "same_leaves hinv frees own2 s2 own3 s3"
      "reg_ok own3 s3" by auto
  note sl2 = same_leaves_trans[OF l1(2) l2(2)]
  note sl3 = same_leaves_trans[OF sl2 l3(2)]
  have "reclaim_empty_tables_in_root ops ?r v st =
      (True, if \<not> b1 then s1 else if \<not> b2 then s2 else s3)"
    using dt n4 n3 n2 l1(1) l2(1) l3(1) by (simp add: reclaim_empty_tables_in_root_def Let_def split: bool.splits)
  then show ?thesis using l1 l2 l3 sl2 sl3 by (cases b1; cases b2; auto)
qed

lemma pt_chain_leaf_edit:
  assumes "pt_chain own st root v f3 f2 f1"
  shows "pt_chain own (update_metadata f g (set_entry f1 i d st)) root v f3 f2 f1"
proof -
  have ne: "f2 \<noteq> f1" "f3 \<noteq> f1" "frame_of root \<noteq> f1" using assms by (auto simp: pt_chain_def)
  have dt: "direct_table (update_metadata f g (set_entry f1 i d st)) x = direct_table st x" for x
    by (rule direct_table_cong) simp
  have "next_table (update_metadata f g (set_entry f1 i d st)) h j = next_table st h j" if "h \<noteq> f1" for h j
    using that by (simp add: next_table_def dt)
  then show ?thesis using assms ne by (simp add: pt_chain_def dt)
qed

lemma unmap_ok:
  assumes inv: "pt_inv hinv frees own st" and reg: "reg_ok own st" and r: "is_root own root"
    and rv: "root \<noteq> INVALID_PHYS_ADDR" and u: "user_addr v" and al: "v AND (PAGE_SIZE - 1) = 0"
    and leaf: "leaf_at st root v = Some d" "d AND ATTR_USER \<noteq> 0"
  shows "\<exists>own' st'. unmap_user_page_in_root ops root v st = (Some (frame_of d), st') \<and>
     pt_inv hinv frees own' st' \<and> reg_ok own' st' \<and> vm_direct st' = vm_direct st \<and>
     (\<forall>root' w. is_root own root' \<longrightarrow> is_root own' root' \<and>
        (user_addr w \<longrightarrow> w AND (PAGE_SIZE - 1) = 0 \<longrightarrow>
         leaf_at st' root' w = (if frame_of root' = frame_of root \<and> w = v then None else leaf_at st root' w)))"
proof -
  have wf: "pt_wf own st" using inv by (simp add: pt_inv_def)
  from leaf(1) obtain pt i where pte: "root_pte st root v = Some (pt, i)" and e: "entry_at st pt i = d"
    and pr: "paging_present d" by (auto simp: leaf_at_def split: option.splits if_splits)
  from root_pte_chain[OF wf r u pte] obtain f3 f2 where ch: "pt_chain own st root v f3 f2 pt" .
  have opt: "own pt = Some (frame_of root, path_of v)" using ch by (simp add: pt_chain_def)
  let ?s1 = "set_entry pt i 0 st"
  from clear_and_decrement[OF reg opt _ wf, of i] pr e obtain g where
    g: "decrement_present_entry pt ?s1 = Some (update_metadata pt g ?s1)" "reg_ok own (update_metadata pt g ?s1)"
    by auto
  let ?s2 = "update_metadata pt g ?s1"
  have wf2: "pt_wf own ?s2" using set_leaf_wf[OF wf opt, of i 0] by (simp add: update_metadata_def)
  have inv2: "pt_inv hinv frees own ?s2" using inv wf2 by (simp add: pt_inv_def)
  from reclaim_ok[OF inv2 g(2) u pt_chain_leaf_edit[OF ch]] obtain own' st' where
    rc: "reclaim_empty_tables_in_root ops (frame_of root) v ?s2 = (True, st')"
      "same_leaves hinv frees own ?s2 own' st'" "reg_ok own' st'" by blast
  have res: "unmap_user_page_in_root ops root v st = (Some (frame_of d), st')"
    using rv al pte e pr leaf(2) g(1) rc(1)
    by (simp add: unmap_user_page_in_root_def is_user_leaf_def Let_def)
  have s2: "leaf_at ?s2 root' w = (if frame_of root' = frame_of root \<and> w = v then None else leaf_at st root' w)"
    if "is_root own root'" "user_addr w" "w AND (PAGE_SIZE - 1) = 0" for root' w
    using set_leaf_view[OF wf pte r that(1) u that(2) al that(3), of 0] by (simp add: update_metadata_def)
  show ?thesis
    by (rule exI[of _ own'], rule exI[of _ st']) (use res rc s2 in \<open>simp add: same_leaves_def\<close>)
qed

end
end
