(* ===== verification/Page_Table_Props.thy ===== *)
theory Page_Table_Props
  imports Page_Table_Correct
begin

text \<open>
  The properties of the user page tables, with a concrete machine for their witnesses: four table
  frames handed out by a list of free frames, and one page mapped at 4 MiB.
\<close>

section \<open>A concrete machine\<close>

definition pool_ops :: "u64 list frame_ops" where
  "pool_ops = \<lparr>fo_alloc = (\<lambda>h. case h of [] \<Rightarrow> (0, []) | p # ps \<Rightarrow> (p, ps)), fo_free = (\<lambda>p h. p # h)\<rparr>"

definition free_meta :: page_table_metadata where
  "free_meta = \<lparr>m_used = False, m_owner = OwnerNone, m_level = Pml4, m_root_phys = 0, m_frame_phys = 0,
     m_present_entries = 0\<rparr>"


definition demo_meta :: "page_table_level \<Rightarrow> u64 \<Rightarrow> u16 \<Rightarrow> page_table_metadata" where
  "demo_meta l f n = \<lparr>m_used = True, m_owner = UserAddressSpace, m_level = l, m_root_phys = 0x100000,
     m_frame_phys = f, m_present_entries = n\<rparr>"

definition demo_vm :: "(u64 \<Rightarrow> u64 \<Rightarrow> u64) \<Rightarrow> page_table_metadata list \<Rightarrow> u64 list \<Rightarrow> u64 list vm_state" where
  "demo_vm tables metas heap = \<lparr>vm_tables = tables, vm_bytes = (\<lambda>_. 0), vm_meta = metas,
     vm_direct = [(0, 0x1000000)], vm_refs = (\<lambda>_. 0), vm_refs_max = Some 0xfff, vm_cr3 = 0x2000,
     vm_heap = heap\<rparr>"

definition demo_tables :: "u64 \<Rightarrow> u64 \<Rightarrow> u64" where
  "demo_tables f i =
    (if f = 0x100000 \<and> i = 0 then 0x101007 else if f = 0x101000 \<and> i = 0 then 0x102007
     else if f = 0x102000 \<and> i = 2 then 0x103007 else if f = 0x103000 \<and> i = 0 then 0x200007 else 0)"

lemmas run_defs = alloc_frame_def pool_ops_def phys_to_direct_def direct_table_def free_frame_def
     direct_map_range_covered_def KDIRECT_LEN_def register_page_table_def find_page_table_metadata_def
     free_meta_def demo_meta_def meta_matches_def PAGING_DESCRIPTOR_ADDR_MASK_def demo_vm_def
     update_metadata_def unregister_page_table_def increment_present_entry_def decrement_present_entry_def
     set_entry_def zero_table_def paging_present_def page_table_owned_by_def page_table_empty_def
     get_pml4_index_def get_pdpt_index_def get_pd_index_def get_pt_index_def INDEX_MASK_def PAGE_SIZE_def
     INVALID_PHYS_ADDR_def DEFAULT_ATTR_PML4E_def ATTR_USER_def is_user_leaf_def PAGING_DESCRIPTOR_LARGE_PAGE_def

definition demo_fresh :: "u64 list vm_state" where
  "demo_fresh = demo_vm (\<lambda>_ _. 0) [demo_meta Pml4 0x100000 0, free_meta, free_meta, free_meta]
     [0x101000, 0x102000, 0x103000]"

definition demo_mapped :: "u64 list vm_state" where
  "demo_mapped = demo_vm demo_tables [demo_meta Pml4 0x100000 1, demo_meta Pdpt 0x101000 1, demo_meta Pd 0x102000 1,
     demo_meta Pt 0x103000 1] []"

lemma demo_derive:
  "derive_user_address_space_root pool_ops (\<lambda>_. 0)
     (demo_vm (\<lambda>_ _. 0) [free_meta, free_meta, free_meta, free_meta] [0x100000, 0x101000, 0x102000, 0x103000])
   = (0x100000, demo_fresh)"
  by (simp add: derive_user_address_space_root_def run_defs demo_fresh_def fun_eq_iff)

lemma demo_map: "map_page_in_root pool_ops 0x100000 0x400000 0x200000 7 demo_fresh = (True, demo_mapped)"
  by (simp add: map_page_in_root_def map_root_page_def map_descend_def ensure_owned_descriptor_def map_leaf_def
     run_defs demo_fresh_def demo_mapped_def demo_tables_def fun_eq_iff Let_def)


definition demo_unmapped :: "u64 list vm_state" where
  "demo_unmapped = demo_vm (\<lambda>_ _. 0) [demo_meta Pml4 0x100000 1,
     (demo_meta Pdpt 0x101000 0)\<lparr>m_used := False\<rparr>, (demo_meta Pd 0x102000 0)\<lparr>m_used := False\<rparr>,
     (demo_meta Pt 0x103000 0)\<lparr>m_used := False\<rparr>] [0x101000, 0x102000, 0x103000]"

lemma demo_unmap: "unmap_user_page_in_root pool_ops 0x100000 0x400000 demo_mapped = (Some 0x200000, demo_unmapped)"
  by (simp add: unmap_user_page_in_root_def root_pte_def next_table_def reclaim_empty_tables_in_root_def
     reclaim_level_def run_defs demo_mapped_def demo_unmapped_def demo_tables_def fun_eq_iff Let_def)

lemma loop_absent:
  assumes "\<And>i. body (word_of_nat i) st = (True, st)"
  shows "loop_indices body is st = (True, st)"
  using assms by (induction "is") auto

lemma demo_teardown_fails: "teardown_user_address_space pool_ops 0x100000 demo_unmapped = (False, demo_unmapped)"
proof -
  have "teardown_child ops body b r l p i demo_unmapped = (True, demo_unmapped)" for ops body b r l p i
    by (simp add: teardown_child_def demo_unmapped_def demo_vm_def paging_present_def)
  then have loop: "loop_indices (teardown_child ops body b r l p) is demo_unmapped = (True, demo_unmapped)"
    for ops body b r l p "is" by (rule loop_absent)
  have "frame_of 0x100000 = 0x100000" "direct_table demo_unmapped 0x100000 = Some 0x100000"
    "page_table_owned_by demo_unmapped 0x100000 0x100000 UserAddressSpace Pml4"
    "\<not> page_table_empty demo_unmapped 0x100000" "frame_of (vm_cr3 demo_unmapped) = 0x2000"
    by (simp_all add: run_defs demo_unmapped_def)
  then show ?thesis
    by (simp add: teardown_user_address_space_def teardown_user_low_half_def loop Let_def INVALID_PHYS_ADDR_def)
qed

definition demo_own :: positions where
  "demo_own f = (if f = 0x100000 then Some (0x100000, []) else if f = 0x101000 then Some (0x100000, [0])
     else if f = 0x102000 then Some (0x100000, [0, 0]) else if f = 0x103000 then Some (0x100000, [0, 0, 2]) else None)"

definition pool_inv :: "u64 list \<Rightarrow> bool" where
  "pool_inv h \<longleftrightarrow> distinct h \<and> 0 \<notin> set h \<and> list_all (\<lambda>p. frame_of p = p) h"

lemma pool_allocator: "frame_allocator pool_ops pool_inv set"
  by unfold_locales (auto simp: pool_ops_def pool_inv_def split: list.splits)

lemma demo_mapped_wf: "pt_wf demo_own demo_mapped"
proof (rule pt_wfI, goal_cases)
  case (1 f r p) then show ?case by (auto simp: demo_own_def PAGING_DESCRIPTOR_ADDR_MASK_def split: if_splits)
next
  case (2 f r p i)
  then show ?case
    by (auto simp: demo_own_def demo_mapped_def demo_vm_def demo_tables_def PAGING_DESCRIPTOR_ADDR_MASK_def
        PAGING_DESCRIPTOR_LARGE_PAGE_def split: if_splits)
next
  case (3 f r p i)
  then show ?case
    by (intro conjI exI[of _ "f - 0x1000"])
       (auto simp: demo_own_def demo_mapped_def demo_vm_def demo_tables_def PAGING_DESCRIPTOR_ADDR_MASK_def
        paging_present_def append_eq_Cons_conv Cons_eq_append_conv split: if_splits)
qed

lemma demo_mapped_inv: "pt_inv pool_inv set demo_own demo_mapped"
  using demo_mapped_wf by (simp add: pt_inv_def pool_inv_def demo_mapped_def demo_vm_def demo_own_def)

lemma demo_mapped_reg: "reg_ok demo_own demo_mapped"
proof -
  have "present_in demo_mapped 0x101000 = {0}" "present_in demo_mapped 0x102000 = {2}"
    "present_in demo_mapped 0x103000 = {0}"
    by (auto simp: present_in_def demo_mapped_def demo_vm_def demo_tables_def paging_present_def split: if_splits)
  then show ?thesis
    by (auto simp: reg_ok_def demo_own_def demo_mapped_def run_defs split: if_splits)
qed

lemma demo_root_ok: "is_root demo_own 0x100000" "user_addr 0x400000"
  by (simp_all add: is_root_def demo_own_def PAGING_DESCRIPTOR_ADDR_MASK_def user_addr_def USER_LOW_HALF_LIMIT_def)

lemma demo_leaf: "leaf_at demo_mapped 0x100000 0x400000 = Some 0x200007"
  by (simp add: leaf_at_def root_pte_def next_table_def demo_mapped_def demo_tables_def run_defs)


section \<open>Properties\<close>

text \<open>C2. Mapping a page into a user root is atomic on the abstract address spaces: when the call
  succeeds exactly one leaf appears, at a page that had none, and every other page of this and of
  every other root is as before; when it fails at any level, the roll-back leaves every leaf of
  every root as it was. Either way the tables stay a forest and no table frame is free. The frame
  allocator is only assumed to hand out aligned frames that are free.\<close>

theorem map_page_in_root_correct:
  assumes "frame_allocator ops hinv frees" and "pt_inv hinv frees own st" and "is_root own root"
    and "user_addr v" and "attr AND 1 \<noteq> 0"
    and "map_page_in_root ops root v phys attr st = (ok, st')"
  shows "\<exists>own'. pt_inv hinv frees own' st' \<and> (ok \<longrightarrow> leaf_at st root v = None) \<and>
    (\<forall>root'. is_root own root' \<longrightarrow> is_root own' root') \<and>
    (\<forall>root' w. is_root own root' \<longrightarrow> user_addr w \<longrightarrow> w AND (PAGE_SIZE - 1) = 0 \<longrightarrow>
       leaf_at st' root' w =
         (if ok \<and> frame_of root' = frame_of root \<and> w = v then Some (frame_of phys OR attr)
          else leaf_at st root' w))"
proof (cases "root = INVALID_PHYS_ADDR \<or> v AND (PAGE_SIZE - 1) \<noteq> 0 \<or> phys AND (PAGE_SIZE - 1) \<noteq> 0")
  case True
  then have "ok = False" "st' = st" using assms(6) by (auto simp: map_page_in_root_def)
  then show ?thesis using assms(2) by auto
next
  case False
  then have "map_root_page ops root v phys attr st = (ok, st')" and al: "v AND (PAGE_SIZE - 1) = 0"
    using assms(6) by (auto simp: map_page_in_root_def)
  from frame_allocator.map_root_page_correct[OF assms(1-4) al assms(5) this(1)]
  show ?thesis unfolding map_outcome_def by blast
qed

lemma demo_fresh_inv: "pt_inv pool_inv set [0x100000 \<mapsto> (0x100000, [])] demo_fresh"
proof -
  have "pt_wf [0x100000 \<mapsto> (0x100000, [])] demo_fresh"
    by (rule pt_wfI)
       (auto simp: demo_fresh_def demo_vm_def PAGING_DESCRIPTOR_ADDR_MASK_def split: if_splits)
  then show ?thesis
    by (simp add: pt_inv_def demo_fresh_def demo_vm_def pool_inv_def PAGING_DESCRIPTOR_ADDR_MASK_def)
qed

theorem map_page_in_root_correct_witness:
  "frame_allocator pool_ops pool_inv set \<and> leaf_at demo_fresh 0x100000 0x400000 = None \<and>
   leaf_at demo_mapped 0x100000 0x400000 = Some 0x200007"
proof -
  have r: "is_root [0x100000 \<mapsto> (0x100000, [])] 0x100000"
    by (simp add: is_root_def PAGING_DESCRIPTOR_ADDR_MASK_def)
  have "(7 :: u64) AND 1 \<noteq> 0" by simp
  from map_page_in_root_correct[OF pool_allocator demo_fresh_inv r demo_root_ok(2) this demo_map]
  have "leaf_at demo_fresh 0x100000 0x400000 = None" "leaf_at demo_mapped 0x100000 0x400000 = Some (frame_of 0x200000 OR 7)"
    using r demo_root_ok(2) by (auto simp: PAGE_SIZE_def)
  then show ?thesis using pool_allocator by (simp add: PAGING_DESCRIPTOR_ADDR_MASK_def)
qed




end
