(* ===== verification/User_Mem.thy ===== *)
theory User_Mem
  imports Page_Table_Props
begin

text \<open>
  The kernel's access to user memory through a root (\<^verbatim>\<open>kernel/mm/vmem.cc\<close>): the checks
  \<^verbatim>\<open>user_range_mapped\<close> and \<^verbatim>\<open>user_range_writable\<close>, which visit one address per page, and the
  copies \<^verbatim>\<open>copy_from_user_root\<close> and \<^verbatim>\<open>copy_to_user_root\<close>, which go page by page through the direct
  map. The lemmas relate both to single addresses: \<open>translate\<close> is the physical byte behind a user
  address. Frames that hold tables and frames that hold user data are separate stores of the model.
\<close>

section \<open>Offsets within a page\<close>

definition page_offset :: "u64 \<Rightarrow> u64" where
  "page_offset a = a AND (PAGE_SIZE - 1)"

lemma unat_page_offset: "unat (page_offset a) < 4096"
  unfolding page_offset_def page_mask
  using take_bit_nat_less_exp[of 12 "unat a"] by (simp add: unsigned_take_bit_eq flip: take_bit_eq_mask)

definition align_down_page :: "u64 \<Rightarrow> u64" where
  "align_down_page v = v AND NOT (PAGE_SIZE - 1)"

definition page_chunk :: "u64 \<Rightarrow> nat \<Rightarrow> nat" where
  "page_chunk a n = (let chunk = unat (PAGE_SIZE - page_offset a) in if chunk > n then n else chunk)"

lemma unat_page_rest: "unat (PAGE_SIZE - page_offset a) = 4096 - unat (page_offset a)"
proof -
  have "page_offset a \<le> PAGE_SIZE"
    using unat_page_offset[of a] by (simp add: word_le_nat_alt PAGE_SIZE_def)
  then show ?thesis by (simp add: unat_minus_le) (simp add: PAGE_SIZE_def)
qed

lemma page_chunk_bounds:
  "0 < n \<Longrightarrow> 0 < page_chunk a n" "page_chunk a n \<le> n"
  "unat (page_offset a) + page_chunk a n \<le> 4096"
  using unat_page_offset[of a] by (auto simp: page_chunk_def Let_def unat_page_rest)

text \<open>Adding less than what is left of the page moves the offset and nothing else.\<close>

lemma page_add:
  assumes "unat (page_offset a) + k < 4096"
  shows "page_offset (a + word_of_nat k) = page_offset a + word_of_nat k"
    and "align_down_page (a + word_of_nat k) = align_down_page a"
proof -
  define hi lo x where "hi = a AND NOT (mask 12)" and "lo = a AND mask 12" and "x = lo + word_of_nat k"
  have kk: "unat (word_of_nat k :: u64) = k" using assms by (simp add: unat_of_nat)
  have ux: "unat x = unat lo + k"
    using assms unfolding x_def by (subst unat_plus_if_no_wrap) (simp_all add: kk lo_def page_offset_def page_mask)
  have "take_bit 12 x = x"
    using assms ux by (simp add: word_unat_eq_iff unsigned_take_bit_eq take_bit_nat_eq_self lo_def page_offset_def page_mask)
  then have xm: "x AND mask 12 = x" by (simp add: take_bit_eq_mask)
  have disj: "hi AND x = 0"
    by (subst xm[symmetric]) (rule bit_word_eqI, auto simp: hi_def bit_simps)
  have "hi AND lo = 0" by (rule bit_word_eqI) (auto simp: hi_def lo_def bit_simps)
  then have "hi + lo = hi OR lo" by (rule disjunctive_add_eq_or)
  also have "\<dots> = a" by (rule bit_word_eqI) (auto simp: hi_def lo_def bit_simps)
  finally have "a + word_of_nat k = hi + x" by (simp add: x_def add.assoc)
  also have "\<dots> = hi OR x" using disj by (rule disjunctive_add_eq_or)
  finally have sum: "a + word_of_nat k = hi OR x" .
  have "(hi OR x) AND mask 12 = x AND mask 12"
    by (rule bit_word_eqI) (auto simp: hi_def bit_simps)
  then have "page_offset (a + word_of_nat k) = x" by (simp only: page_offset_def page_mask sum xm)
  then show "page_offset (a + word_of_nat k) = page_offset a + word_of_nat k"
    by (simp only: x_def lo_def page_offset_def page_mask)
  have "(hi OR (x AND mask 12)) AND NOT (mask 12) = hi"
    by (rule bit_word_eqI) (auto simp: hi_def bit_simps)
  then show "align_down_page (a + word_of_nat k) = align_down_page a"
    by (simp add: align_down_page_def page_mask sum xm hi_def)
qed

lemma align_down_bits: "bit (align_down_page a) n \<longleftrightarrow> bit a n \<and> 12 \<le> n"
  unfolding align_down_page_def page_mask by (auto simp: bit_simps dest: bit_imp_le_length)

lemma index_align_down:
  assumes "align_down_page a = align_down_page b"
  shows "get_pml4_index a = get_pml4_index b" "get_pdpt_index a = get_pdpt_index b"
    "get_pd_index a = get_pd_index b" "get_pt_index a = get_pt_index b"
proof -
  have "bit a n = bit b n" if "12 \<le> n" for n using arg_cong[OF assms, of "\<lambda>x. bit x n"] that
    by (simp add: align_down_bits)
  then show "get_pml4_index a = get_pml4_index b" "get_pdpt_index a = get_pdpt_index b"
    "get_pd_index a = get_pd_index b" "get_pt_index a = get_pt_index b"
    by (auto intro!: bit_word_eqI simp: bit_index_simps)
qed

lemma root_pte_same_page:
  "align_down_page a = align_down_page b \<Longrightarrow> root_pte st root a = root_pte st root b"
  by (simp only: root_pte_def index_align_down[of a b])

lemma leaf_at_same_page:
  "align_down_page a = align_down_page b \<Longrightarrow> leaf_at st root a = leaf_at st root b"
  using root_pte_same_page[of a b st root] by (simp add: leaf_at_def)

section \<open>Range checks\<close>

definition leaf_ok :: "(u64 \<Rightarrow> bool) \<Rightarrow> 'h vm_state \<Rightarrow> u64 \<Rightarrow> u64 \<Rightarrow> bool" where
  "leaf_ok ok st root page =
    (case root_pte st root page of
       None \<Rightarrow> False | Some (f, i) \<Rightarrow> is_user_leaf (entry_at st f i) \<and> ok (entry_at st f i))"

text \<open>The pages the loop of \<^verbatim>\<open>user_range_mapped\<close> and \<^verbatim>\<open>user_range_writable\<close> visits: from the aligned
  start in steps of a page up to and including the page of the last byte.\<close>

definition pages_between :: "u64 \<Rightarrow> u64 \<Rightarrow> u64 list" where
  "pages_between page last_page =
     map (\<lambda>k. page + word_of_nat k * PAGE_SIZE) [0..<Suc ((unat last_page - unat page) div 4096)]"

definition user_range_checked :: "(u64 \<Rightarrow> bool) \<Rightarrow> 'h vm_state \<Rightarrow> u64 \<Rightarrow> u64 \<Rightarrow> u64 \<Rightarrow> bool" where
  "user_range_checked ok st root vaddr len =
    (if len = 0 \<or> root = INVALID_PHYS_ADDR \<or> vaddr \<ge> USER_LOW_HALF_LIMIT then False
     else let e = vaddr + len in
       if e \<le> vaddr \<or> e > USER_LOW_HALF_LIMIT then False
       else list_all (leaf_ok ok st root) (pages_between (align_down_page vaddr) (align_down_page (e - 1))))"

definition user_range_mapped :: "'h vm_state \<Rightarrow> u64 \<Rightarrow> u64 \<Rightarrow> u64 \<Rightarrow> bool" where
  "user_range_mapped = user_range_checked (\<lambda>_. True)"

definition user_range_writable :: "'h vm_state \<Rightarrow> u64 \<Rightarrow> u64 \<Rightarrow> u64 \<Rightarrow> bool" where
  "user_range_writable = user_range_checked (\<lambda>d. d AND ATTR_WRITABLE \<noteq> 0)"

lemma leaf_ok_same_page: "align_down_page a = align_down_page b \<Longrightarrow> leaf_ok ok st root a = leaf_ok ok st root b"
  using root_pte_same_page[of a b st root] by (simp add: leaf_ok_def)

lemma page_split: "align_down_page a + page_offset a = a"
proof -
  have "(a AND NOT (mask 12)) AND (a AND mask 12) = 0" by (rule bit_word_eqI) (auto simp: bit_simps)
  then have "(a AND NOT (mask 12)) + (a AND mask 12) = (a AND NOT (mask 12)) OR (a AND mask 12)"
    by (rule disjunctive_add_eq_or)
  also have "\<dots> = a" by (rule bit_word_eqI) (auto simp: bit_simps)
  finally show ?thesis by (simp only: align_down_page_def page_offset_def page_mask)
qed

lemma unat_page_offset_eq: "unat (page_offset a) = unat a mod 4096"
  unfolding page_offset_def page_mask
  by (simp add: unsigned_take_bit_eq take_bit_eq_mod flip: take_bit_eq_mask) (simp add: unat_mod)

lemma unat_align_down: "unat (align_down_page a) = unat a div 4096 * 4096"
proof -
  have "page_offset a \<le> a" by (simp add: word_le_nat_alt unat_page_offset_eq)
  then have "unat (a - page_offset a) = unat a - unat a mod 4096"
    by (simp add: unat_minus_le unat_page_offset_eq)
  moreover have "a - page_offset a = align_down_page a" using page_split[of a] by (metis add_diff_cancel)
  ultimately show ?thesis by (simp add: minus_mod_eq_div_mult)
qed

lemma align_down_eq_iff: "align_down_page a = align_down_page b \<longleftrightarrow> unat a div 4096 = unat b div 4096"
  by (simp add: word_unat_eq_iff unat_align_down)

lemma unat_pages_between:
  assumes "a \<le> b" "k < Suc ((unat (align_down_page b) - unat (align_down_page a)) div 4096)"
  shows "unat (align_down_page a + word_of_nat k * PAGE_SIZE) = (unat a div 4096 + k) * 4096"
    and "unat a div 4096 + k \<le> unat b div 4096"
proof -
  have le: "unat a div 4096 \<le> unat b div 4096" using assms(1) by (simp add: word_le_nat_alt div_le_mono)
  have "(unat (align_down_page b) - unat (align_down_page a)) div 4096 = unat b div 4096 - unat a div 4096"
    by (simp add: unat_align_down flip: diff_mult_distrib)
  then show k: "unat a div 4096 + k \<le> unat b div 4096" using assms(2) le by linarith
  have bound: "(unat a div 4096 + k) * 4096 < 2 ^ 64"
  proof -
    have "(unat a div 4096 + k) * 4096 \<le> unat b div 4096 * 4096" using k by simp
    also have "\<dots> \<le> unat b" by simp
    finally show ?thesis using unsigned_less[of b, where 'a = nat] by simp
  qed
  have "unat (word_of_nat k * PAGE_SIZE) = k * 4096"
  proof -
    have "word_of_nat k * PAGE_SIZE = (word_of_nat (k * 4096) :: u64)" by (simp add: PAGE_SIZE_def)
    moreover have "unat (word_of_nat (k * 4096) :: u64) = k * 4096"
      by (subst unat_of_nat) (use bound in simp)
    ultimately show ?thesis by simp
  qed
  then show "unat (align_down_page a + word_of_nat k * PAGE_SIZE) = (unat a div 4096 + k) * 4096"
    using bound by (subst unat_plus_if_no_wrap) (simp_all add: unat_align_down distrib_right)
qed

text \<open>Visiting one address per page is visiting every address, for a test that only looks at the page.\<close>

lemma pages_between_all:
  assumes le: "a \<le> b" and page: "\<And>x y. align_down_page x = align_down_page y \<Longrightarrow> P x = P y"
  shows "list_all P (pages_between (align_down_page a) (align_down_page b)) \<longleftrightarrow> (\<forall>x. a \<le> x \<and> x \<le> b \<longrightarrow> P x)"
proof
  let ?n = "Suc ((unat (align_down_page b) - unat (align_down_page a)) div 4096)"
  assume l: "list_all P (pages_between (align_down_page a) (align_down_page b))"
  show "\<forall>x. a \<le> x \<and> x \<le> b \<longrightarrow> P x"
  proof (intro allI impI)
    fix x assume x: "a \<le> x \<and> x \<le> b"
    define k where "k = unat x div 4096 - unat a div 4096"
    have le': "unat a div 4096 \<le> unat x div 4096" "unat x div 4096 \<le> unat b div 4096"
      using x by (auto simp: word_le_nat_alt div_le_mono)
    have "(unat (align_down_page b) - unat (align_down_page a)) div 4096 = unat b div 4096 - unat a div 4096"
      by (simp add: unat_align_down flip: diff_mult_distrib)
    with le' have kn: "k < ?n" unfolding k_def by linarith
    then have "P (align_down_page a + word_of_nat k * PAGE_SIZE)"
      using l by (simp add: list_all_iff pages_between_def del: upt_Suc)
    moreover have "align_down_page x = align_down_page (align_down_page a + word_of_nat k * PAGE_SIZE)"
      using unat_pages_between(1)[OF le kn] le' by (simp add: align_down_eq_iff k_def)
    ultimately show "P x" using page by blast
  qed
next
  let ?n = "Suc ((unat (align_down_page b) - unat (align_down_page a)) div 4096)"
  assume r: "\<forall>x. a \<le> x \<and> x \<le> b \<longrightarrow> P x"
  have "P (align_down_page a + word_of_nat k * PAGE_SIZE)" if kn: "k < ?n" for k
  proof (cases "k = 0")
    case True
    have "align_down_page (align_down_page a) = align_down_page a" by (simp add: align_down_eq_iff unat_align_down)
    then have "P (align_down_page a) = P a" by (rule page)
    with True r le show ?thesis by simp
  next
    case False
    let ?x = "align_down_page a + word_of_nat k * PAGE_SIZE"
    note u = unat_pages_between[OF le kn]
    have "unat a < (unat a div 4096 + k) * 4096" using False
      by (metis add_gr_0 div_less_iff_less_mult less_add_same_cancel1 not_gr_zero zero_less_numeral)
    moreover have "(unat a div 4096 + k) * 4096 \<le> unat b"
      using u(2) by (meson div_times_less_eq_dividend mult_le_mono1 order_trans)
    ultimately have "a \<le> ?x \<and> ?x \<le> b" using u(1) by (simp add: word_le_nat_alt)
    with r show ?thesis by blast
  qed
  then show "list_all P (pages_between (align_down_page a) (align_down_page b))"
    by (simp add: list_all_iff pages_between_def del: upt_Suc)
qed

lemma user_range_checked_iff:
  "user_range_checked ok st root vaddr len \<longleftrightarrow>
     root \<noteq> INVALID_PHYS_ADDR \<and> user_range_valid vaddr len \<and>
     (\<forall>a. vaddr \<le> a \<and> a < vaddr + len \<longrightarrow> leaf_ok ok st root a)"
proof (cases "user_range_valid vaddr len")
  case True
  then have v: "len \<noteq> 0" "unat vaddr + unat len \<le> 2 ^ 47" by (auto simp: user_range_valid_iff)
  have e: "unat (vaddr + len) = unat vaddr + unat len" using v by (intro unat_plus_if_no_wrap) simp
  have l0: "0 < unat len" using v(1) by (simp add: unat_gt_0)
  have lt: "vaddr < vaddr + len" "vaddr < USER_LOW_HALF_LIMIT" "vaddr + len \<le> USER_LOW_HALF_LIMIT"
    using v e l0 by (auto simp: word_less_nat_alt word_le_nat_alt unat_USER_LOW_HALF_LIMIT)
  have "unat (vaddr + len - 1) = unat (vaddr + len) - 1"
    using e l0 by (intro unat_minus_one) auto
  then have le: "a \<le> vaddr + len - 1 \<longleftrightarrow> a < vaddr + len" for a
    using e l0 by (auto simp: word_less_nat_alt word_le_nat_alt)
  have "vaddr \<le> vaddr + len - 1" using lt(1) by (simp add: le)
  from pages_between_all[OF this, of "leaf_ok ok st root", OF leaf_ok_same_page]
  show ?thesis using True lt v(1) by (auto simp: user_range_checked_def Let_def le)
next
  case False
  have "user_range_valid vaddr len" if "len \<noteq> 0" "\<not> vaddr + len \<le> vaddr" "\<not> USER_LOW_HALF_LIMIT < vaddr + len"
    using that by (auto simp: user_range_valid_def add_overflow_def Let_def)
  then show ?thesis using False by (auto simp: user_range_checked_def Let_def simp del: not_le not_less)
qed

section \<open>Copying user memory\<close>

text \<open>The physical address behind a user address, and whether the leaf lets the user write.\<close>

definition translate :: "'h vm_state \<Rightarrow> u64 \<Rightarrow> u64 \<Rightarrow> u64 option" where
  "translate st root a =
    (case leaf_at st root a of
       None \<Rightarrow> None
     | Some d \<Rightarrow> if d AND ATTR_USER = 0 then None else Some (frame_of d + page_offset a))"

definition writable_at :: "'h vm_state \<Rightarrow> u64 \<Rightarrow> u64 \<Rightarrow> bool" where
  "writable_at st root a = (case leaf_at st root a of None \<Rightarrow> False | Some d \<Rightarrow> d AND ATTR_WRITABLE \<noteq> 0)"

definition bytes_at :: "'h vm_state \<Rightarrow> u64 \<Rightarrow> nat \<Rightarrow> u8 list" where
  "bytes_at st phys n = map (\<lambda>k. vm_bytes st (phys + word_of_nat k)) [0..<n]"

definition store_bytes :: "u64 \<Rightarrow> u8 list \<Rightarrow> 'h vm_state \<Rightarrow> 'h vm_state" where
  \<comment> \<open>\<^verbatim>\<open>memcpy\<close> into the direct map, lowest address first\<close>
  "store_bytes phys bs st =
     st\<lparr>vm_bytes := fold (\<lambda>k m. m(phys + word_of_nat k := bs ! k)) [0..<length bs] (vm_bytes st)\<rparr>"

definition copy_slot :: "'h vm_state \<Rightarrow> u64 \<Rightarrow> u64 \<Rightarrow> (u64 \<Rightarrow> bool) \<Rightarrow> u64 option" where
  \<comment> \<open>the direct-map address of one chunk, or \<open>None\<close> where the loop body returns false\<close>
  "copy_slot st root vaddr ok =
    (case root_pte st root vaddr of
       None \<Rightarrow> None
     | Some (f, i) \<Rightarrow>
       if \<not> (is_user_leaf (entry_at st f i) \<and> ok (entry_at st f i)) then None
       else phys_to_direct st (frame_of (entry_at st f i) + page_offset vaddr))"

text \<open>The loops keep the address and the count still to copy; the source keeps the count copied.\<close>

function copy_from_loop :: "'h vm_state \<Rightarrow> u64 \<Rightarrow> u64 \<Rightarrow> nat \<Rightarrow> u8 list option" where
  "copy_from_loop st root vaddr n =
    (if n = 0 then Some []
     else case copy_slot st root vaddr (\<lambda>_. True) of
       None \<Rightarrow> None
     | Some phys \<Rightarrow>
       (let chunk = page_chunk vaddr n in
        case copy_from_loop st root (vaddr + word_of_nat chunk) (n - chunk) of
          None \<Rightarrow> None
        | Some rest \<Rightarrow> Some (bytes_at st phys chunk @ rest)))"
  by pat_completeness auto
termination
  by (relation "measure (\<lambda>(st, root, vaddr, n). n)") (auto simp: page_chunk_bounds diff_less)
declare copy_from_loop.simps [simp del]

definition copy_from_user_root :: "'h vm_state \<Rightarrow> u64 \<Rightarrow> u64 \<Rightarrow> nat \<Rightarrow> u8 list option" where
  "copy_from_user_root st root addr len = (if len = 0 then None else copy_from_loop st root addr len)"

function copy_to_loop :: "u64 \<Rightarrow> u64 \<Rightarrow> u8 list \<Rightarrow> 'h vm_state \<Rightarrow> bool \<times> 'h vm_state" where
  "copy_to_loop root vaddr src st =
    (if src = [] then (True, st)
     else case copy_slot st root vaddr (\<lambda>d. d AND ATTR_WRITABLE \<noteq> 0) of
       None \<Rightarrow> (False, st)
     | Some phys \<Rightarrow>
       (let chunk = page_chunk vaddr (length src) in
        copy_to_loop root (vaddr + word_of_nat chunk) (drop chunk src) (store_bytes phys (take chunk src) st)))"
  by pat_completeness auto
termination
  by (relation "measure (\<lambda>(root, vaddr, src, st). length src)") (auto simp: page_chunk_bounds diff_less)
declare copy_to_loop.simps [simp del]

definition copy_to_user_root :: "u64 \<Rightarrow> u64 \<Rightarrow> u8 list \<Rightarrow> 'h vm_state \<Rightarrow> bool \<times> 'h vm_state" where
  "copy_to_user_root root addr src st = (if src = [] then (False, st) else copy_to_loop root addr src st)"


section \<open>What the copies read and write\<close>

definition slot_ok :: "'h vm_state \<Rightarrow> u64 \<Rightarrow> (u64 \<Rightarrow> bool) \<Rightarrow> u64 \<Rightarrow> bool" where
  "slot_ok st root ok a =
    (\<exists>d p. leaf_at st root a = Some d \<and> ok d \<and> translate st root a = Some p \<and> phys_to_direct st p = Some p)"

lemma copy_slot_Some:
  assumes "copy_slot st root a ok = Some p" "unat (page_offset a) + k < 4096"
  shows "translate st root (a + word_of_nat k) = Some (p + word_of_nat k)"
    and "\<exists>d. leaf_at st root (a + word_of_nat k) = Some d \<and> ok d"
proof -
  from assms(1) obtain f i where *: "root_pte st root a = Some (f, i)"
    "is_user_leaf (entry_at st f i)" "ok (entry_at st f i)" "p = frame_of (entry_at st f i) + page_offset a"
    by (auto simp: copy_slot_def phys_to_direct_def split: option.splits if_splits prod.splits)
  have pte: "root_pte st root (a + word_of_nat k) = Some (f, i)"
    unfolding root_pte_same_page[OF page_add(2)[OF assms(2)]] by (rule *(1))
  with * show "translate st root (a + word_of_nat k) = Some (p + word_of_nat k)"
    by (simp add: translate_def leaf_at_def is_user_leaf_def page_add(1)[OF assms(2)] add.assoc)
  from pte * show "\<exists>d. leaf_at st root (a + word_of_nat k) = Some d \<and> ok d"
    by (simp add: leaf_at_def is_user_leaf_def)
qed

lemma copy_slot_None_iff: "copy_slot st root a ok = None \<longleftrightarrow> \<not> slot_ok st root ok a"
  by (auto simp: copy_slot_def slot_ok_def translate_def leaf_at_def is_user_leaf_def phys_to_direct_def
      split: option.splits if_splits prod.splits)

lemma chunk_offset: "k < page_chunk a n \<Longrightarrow> unat (page_offset a) + k < 4096"
  using page_chunk_bounds(3)[of a n] by linarith

lemma map_upt_split: "c \<le> n \<Longrightarrow> map f [0..<n] = map f [0..<c] @ map (\<lambda>k. f (c + k)) [0..<n - c]"
  by (rule nth_equalityI) (auto simp: nth_append)

lemma fold_upt_split: "c \<le> n \<Longrightarrow> fold g [0..<n] s = fold (\<lambda>k. g (c + k)) [0..<n - c] (fold g [0..<c] s)"
  by (induction n) (auto simp: le_Suc_eq Suc_diff_le)

lemma word_of_nat_shift: "(a :: u64) + word_of_nat (c + k) = a + word_of_nat c + word_of_nat k"
  by (simp add: add.assoc)

text \<open>A copy out returns exactly the bytes behind the addresses, in order.\<close>

definition user_bytes :: "'h vm_state \<Rightarrow> u64 \<Rightarrow> u64 \<Rightarrow> nat \<Rightarrow> u8 option list" where
  "user_bytes st root a n = map (\<lambda>k. map_option (vm_bytes st) (translate st root (a + word_of_nat k))) [0..<n]"

lemma copy_from_loop_sound: "copy_from_loop st root a n = Some bs \<Longrightarrow> user_bytes st root a n = map Some bs"
proof (induction st root a n arbitrary: bs rule: copy_from_loop.induct)
  case (1 st root a n)
  show ?case
  proof (cases "n = 0")
    case False
    let ?c = "page_chunk a n"
    from 1(2) False obtain p rest where p: "copy_slot st root a (\<lambda>_. True) = Some p"
      and r: "copy_from_loop st root (a + word_of_nat ?c) (n - ?c) = Some rest"
      and bs: "bs = bytes_at st p ?c @ rest"
      by (subst (asm) copy_from_loop.simps) (auto simp: Let_def split: option.splits)
    have "user_bytes st root a ?c = map Some (bytes_at st p ?c)"
      using copy_slot_Some(1)[OF p chunk_offset] by (auto simp: user_bytes_def bytes_at_def)
    moreover have "user_bytes st root (a + word_of_nat ?c) (n - ?c) = map Some rest"
      using 1(1)[OF False p refl r] .
    ultimately show ?thesis using bs page_chunk_bounds(2)[of a n]
      unfolding user_bytes_def by (subst map_upt_split[of ?c]) (simp_all add: add.assoc)
  qed (use 1(2) in \<open>simp add: copy_from_loop.simps user_bytes_def\<close>)
qed

lemma copy_from_loop_total:
  "(\<And>k. k < n \<Longrightarrow> slot_ok st root (\<lambda>_. True) (a + word_of_nat k)) \<Longrightarrow> \<exists>bs. copy_from_loop st root a n = Some bs"
proof (induction st root a n rule: copy_from_loop.induct)
  case (1 st root a n)
  show ?case
  proof (cases "n = 0")
    case False
    let ?c = "page_chunk a n"
    from 1(2)[of 0] False obtain p where p: "copy_slot st root a (\<lambda>_. True) = Some p"
      using copy_slot_None_iff[of st root a "\<lambda>_. True"] by auto
    have "slot_ok st root (\<lambda>_. True) (a + word_of_nat ?c + word_of_nat k)" if "k < n - ?c" for k
      using 1(2)[of "?c + k"] that by (simp add: add.assoc)
    from 1(1)[OF False p refl this] show ?thesis using False p
      by (subst copy_from_loop.simps) (auto simp: Let_def)
  qed (simp add: copy_from_loop.simps)
qed

text \<open>A copy in stores a prefix of the source, byte by byte, behind the addresses; it reports success exactly
  when the prefix is the whole source.\<close>

definition put_bytes :: "'h vm_state \<Rightarrow> u64 \<Rightarrow> u64 \<Rightarrow> u8 list \<Rightarrow> (u64 \<Rightarrow> u8) \<Rightarrow> u64 \<Rightarrow> u8" where
  "put_bytes st root a bs = fold (\<lambda>k m. m(the (translate st root (a + word_of_nat k)) := bs ! k)) [0..<length bs]"


lemma store_bytes_simps [simp]:
  "root_pte (store_bytes p bs st) = root_pte st" "vm_tables (store_bytes p bs st) = vm_tables st"
  "vm_direct (store_bytes p bs st) = vm_direct st"
  by (auto simp: store_bytes_def root_pte_def next_table_def direct_table_def phys_to_direct_def
      direct_map_range_covered_def Let_def fun_eq_iff)

lemma store_bytes_leaf [simp]: "leaf_at (store_bytes p bs st) root a = leaf_at st root a"
  by (auto simp: leaf_at_def split: option.split)

lemma store_bytes_views [simp]:
  "translate (store_bytes p bs st) root a = translate st root a"
  "slot_ok (store_bytes p bs st) root ok a = slot_ok st root ok a"
  by (simp_all add: translate_def slot_ok_def phys_to_direct_def direct_map_range_covered_def)

lemma copy_to_loop_outcome:
  assumes "copy_to_loop root a src st = (ok, st')"
  obtains j where "j \<le> length src" "st' = st\<lparr>vm_bytes := put_bytes st root a (take j src) (vm_bytes st)\<rparr>"
    "\<And>k. k < j \<Longrightarrow> \<exists>d. leaf_at st root (a + word_of_nat k) = Some d \<and> d AND ATTR_WRITABLE \<noteq> 0"
    "\<And>k. k < j \<Longrightarrow> translate st root (a + word_of_nat k) \<noteq> None"
    "ok \<longleftrightarrow> j = length src"
    "\<not> ok \<Longrightarrow> \<not> slot_ok st root (\<lambda>d. d AND ATTR_WRITABLE \<noteq> 0) (a + word_of_nat j)"
  using assms
proof (induction root a src st arbitrary: thesis st' rule: copy_to_loop.induct)
  case (1 root a src st)
  show ?case
  proof (cases "src = []")
    case True
    with 1(3) show ?thesis by (intro 1(2)[of 0]) (simp_all add: copy_to_loop.simps put_bytes_def)
  next
    case False
    let ?c = "page_chunk a (length src)" and ?w = "\<lambda>d. d AND ATTR_WRITABLE \<noteq> 0"
    show ?thesis
    proof (cases "copy_slot st root a ?w")
      case None
      with 1(3) False have "ok = False" "st' = st" by (auto simp: copy_to_loop.simps)
      with None False show ?thesis by (intro 1(2)[of 0]) (simp_all add: put_bytes_def copy_slot_None_iff)
    next
      case (Some p)
      let ?st = "store_bytes p (take ?c src) st"
      have cb: "?c \<le> length src" "0 < ?c" using page_chunk_bounds(1,2) False by auto
      have rec: "copy_to_loop root (a + word_of_nat ?c) (drop ?c src) ?st = (ok, st')"
        using 1(3) False Some by (simp add: copy_to_loop.simps[of root a src] Let_def)
      from 1(1)[OF False Some refl _ rec] obtain j where
        j: "j \<le> length (drop ?c src)"
          "st' = ?st\<lparr>vm_bytes := put_bytes ?st root (a + word_of_nat ?c) (take j (drop ?c src)) (vm_bytes ?st)\<rparr>"
        and w: "\<And>k. k < j \<Longrightarrow> \<exists>d. leaf_at st root (a + word_of_nat ?c + word_of_nat k) = Some d \<and> ?w d"
        and t: "\<And>k. k < j \<Longrightarrow> translate st root (a + word_of_nat ?c + word_of_nat k) \<noteq> None"
        and e: "ok \<longleftrightarrow> j = length (drop ?c src)"
        and n: "\<not> ok \<Longrightarrow> \<not> slot_ok st root ?w (a + word_of_nat ?c + word_of_nat j)"
        by (auto simp only: store_bytes_views store_bytes_leaf)
      have first: "vm_bytes ?st = fold (\<lambda>k m. m(the (translate st root (a + word_of_nat k)) := src ! k)) [0..<?c] (vm_bytes st)"
        using cb copy_slot_Some(1)[OF Some chunk_offset]
        by (auto simp: store_bytes_def min_absorb2 intro!: fold_cong)
      have "put_bytes ?st root (a + word_of_nat ?c) (take j (drop ?c src)) (vm_bytes ?st)
          = put_bytes st root a (take (?c + j) src) (vm_bytes st)"
      proof -
        have l: "length (take j (drop ?c src)) = j" "length (take (?c + j) src) = ?c + j" using j cb by auto
        show ?thesis unfolding put_bytes_def first l store_bytes_views
          by (subst fold_upt_split[of ?c "?c + j"])
            (use j(1) in \<open>auto simp: add.assoc intro!: fold_cong\<close>)
      qed
      then have s: "st' = st\<lparr>vm_bytes := put_bytes st root a (take (?c + j) src) (vm_bytes st)\<rparr>"
        using j(2) by (simp add: store_bytes_def)
      have split: "\<exists>d. leaf_at st root (a + word_of_nat k) = Some d \<and> ?w d"
        "translate st root (a + word_of_nat k) \<noteq> None" if "k < ?c + j" for k
        using that w[of "k - ?c"] t[of "k - ?c"] copy_slot_Some[OF Some chunk_offset, of k]
        by (cases "k < ?c"; simp add: add.assoc flip: of_nat_add)+
      show ?thesis by (rule 1(2)[OF _ s split]) (use j(1) cb e n in \<open>auto simp: add.assoc\<close>)
    qed
  qed
qed


lemma copy_back:
  "copy_to_loop root a src st = (True, st') \<Longrightarrow> vm_tables s = vm_tables st \<Longrightarrow> vm_direct s = vm_direct st \<Longrightarrow>
   \<exists>bs. copy_from_loop s root a (length src) = Some bs"
proof (induction root a src st rule: copy_to_loop.induct)
  case (1 root a src st)
  show ?case
  proof (cases "src = []")
    case False
    let ?c = "page_chunk a (length src)" and ?w = "\<lambda>d. d AND ATTR_WRITABLE \<noteq> 0"
    from 1(2) False obtain p where p: "copy_slot st root a ?w = Some p"
      by (subst (asm) copy_to_loop.simps) (auto split: option.splits)
    with 1(2) False have rec: "copy_to_loop root (a + word_of_nat ?c) (drop ?c src) (store_bytes p (take ?c src) st) = (True, st')"
      by (simp add: copy_to_loop.simps[of root a src] Let_def)
    have "root_pte s = root_pte st"
      using 1(3,4) by (simp add: root_pte_def next_table_def direct_table_def phys_to_direct_def
        direct_map_range_covered_def fun_eq_iff)
    moreover have "phys_to_direct s = phys_to_direct st"
      using 1(4) by (simp add: phys_to_direct_def direct_map_range_covered_def fun_eq_iff)
    ultimately have "copy_slot s root a (\<lambda>_. True) = Some p"
      using p 1(3) by (auto simp: copy_slot_def split: option.splits if_splits)
    with 1(1)[OF False p refl rec] 1(3,4) False show ?thesis
      by (subst copy_from_loop.simps) (auto simp: Let_def)
  qed (simp add: copy_from_loop.simps)
qed

lemma fold_upd_apply:
  "inj_on f {..<n} \<Longrightarrow> j < n \<Longrightarrow> fold (\<lambda>k m. m(f k := g k)) [0..<n] m (f j) = g j"
proof (induction n)
  case (Suc n)
  have "f n \<noteq> f j" if "j \<noteq> n" using Suc.prems that by (auto simp: inj_on_def)
  moreover have "inj_on f {..<n}" using Suc.prems(1) by (rule inj_on_subset) auto
  ultimately show ?case using Suc by (cases "j = n") auto
qed simp

lemma fold_upd_other: "(\<And>k. k < n \<Longrightarrow> f k \<noteq> p) \<Longrightarrow> fold (\<lambda>k m. m(f k := g k)) [0..<n] m p = m p"
  by (induction n) auto

lemma translate_cong:
  "vm_tables s = vm_tables st \<Longrightarrow> vm_direct s = vm_direct st \<Longrightarrow> translate s root a = translate st root a"
  by (simp add: translate_def leaf_at_def root_pte_def next_table_def direct_table_def phys_to_direct_def
      direct_map_range_covered_def)

lemma put_bytes_frame:
  "put_bytes st root a bs m p \<noteq> m p \<Longrightarrow> \<exists>k<length bs. the (translate st root (a + word_of_nat k)) = p"
  unfolding put_bytes_def using fold_upd_other[of "length bs" "\<lambda>k. the (translate st root (a + word_of_nat k))" p] by blast

lemma leaf_ok_leaf_at:
  "leaf_ok ok st root a \<longleftrightarrow> (\<exists>d. leaf_at st root a = Some d \<and> d AND ATTR_USER \<noteq> 0 \<and> ok d)"
  by (auto simp: leaf_ok_def leaf_at_def is_user_leaf_def split: option.split)


section \<open>Properties\<close>

lemma demo_leaf_at_page:
  "(0x400000 :: u64) \<le> x \<Longrightarrow> x < 0x401000 \<Longrightarrow> leaf_at demo_mapped 0x100000 x = Some 0x200007"
  using leaf_at_same_page[of x "0x400000" demo_mapped "0x100000"] demo_leaf
  by (simp add: align_down_eq_iff word_le_nat_alt word_less_nat_alt)

lemma demo_slot: "copy_slot demo_mapped 0x100000 0x400ffe ok = (if ok 0x200007 then Some 0x200ffe else None)"
  by (simp add: copy_slot_def root_pte_def next_table_def demo_mapped_def demo_tables_def page_offset_def run_defs)

lemma demo_copy: "copy_to_user_root 0x100000 0x400ffe [1, 2] demo_mapped = (True, store_bytes 0x200ffe [1, 2] demo_mapped)"
  by (simp add: copy_to_user_root_def copy_to_loop.simps[of _ _ "[1, 2]"] copy_to_loop.simps[of _ _ "[]"] demo_slot
      ATTR_WRITABLE_def page_chunk_def page_offset_def PAGE_SIZE_def)

lemma demo_translate: "translate demo_mapped 0x100000 0x400ffe = Some 0x200ffe" "translate demo_mapped 0x100000 0x400fff = Some 0x200fff"
  using demo_leaf_at_page[of "0x400ffe"] demo_leaf_at_page[of "0x400fff"]
  by (simp_all add: translate_def ATTR_USER_def page_offset_def PAGE_SIZE_def PAGING_DESCRIPTOR_ADDR_MASK_def)

text \<open>C10. The write check on a user range visits one address per page, starting at the aligned base and
  ending at the page of the last byte; it accepts exactly the non-empty ranges that stay below the
  user limit and in which every single address has a present leaf open to user mode and writable.\<close>

theorem user_range_writable_correct:
  "user_range_writable st root vaddr len \<longleftrightarrow>
     root \<noteq> INVALID_PHYS_ADDR \<and> 0 < unat len \<and> unat vaddr + unat len \<le> 2 ^ 47 \<and>
     (\<forall>a. vaddr \<le> a \<and> a < vaddr + len \<longrightarrow>
        (\<exists>d. leaf_at st root a = Some d \<and> d AND ATTR_USER \<noteq> 0 \<and> d AND ATTR_WRITABLE \<noteq> 0))"
  unfolding user_range_writable_def user_range_checked_iff leaf_ok_leaf_at user_range_valid_iff
  by (auto simp: unat_gt_0)

theorem user_range_writable_correct_witness:
  "user_range_writable demo_mapped 0x100000 0x400ff0 16 \<and> \<not> user_range_writable demo_mapped 0x100000 0x400ff0 17"
proof
  have "leaf_at demo_mapped 0x100000 a = Some 0x200007" if "0x400ff0 \<le> a" "a < 0x401000" for a :: u64
    using that by (intro demo_leaf_at_page) (auto simp: word_le_nat_alt word_less_nat_alt)
  then show "user_range_writable demo_mapped 0x100000 0x400ff0 16"
    by (subst user_range_writable_correct) (auto simp: INVALID_PHYS_ADDR_def attr_defs)
  have "leaf_at demo_mapped 0x100000 0x401000 = None"
    by (simp add: leaf_at_def root_pte_def next_table_def demo_mapped_def demo_tables_def run_defs)
  then show "\<not> user_range_writable demo_mapped 0x100000 0x400ff0 17"
    by (subst user_range_writable_correct) (auto intro!: exI[of _ "0x401000 :: u64"])
qed




lemma copied_user_bytes:
  assumes "copy_to_user_root root addr src st = (True, st')"
    and "inj_on (\<lambda>k. translate st root (addr + word_of_nat k)) {..<length src}"
  shows "user_bytes st' root addr (length src) = map Some src" "vm_tables st' = vm_tables st" "vm_direct st' = vm_direct st"
    "k < length src \<Longrightarrow> translate st root (addr + word_of_nat k) \<noteq> None"
proof -
  let ?a = "\<lambda>k. addr + word_of_nat k"
  have ne: "src \<noteq> []" and loop: "copy_to_loop root addr src st = (True, st')"
    using assms(1) by (auto simp: copy_to_user_root_def split: if_splits)
  from loop obtain st'_def: "st' = st\<lparr>vm_bytes := put_bytes st root addr src (vm_bytes st)\<rparr>"
    and t: "\<And>k. k < length src \<Longrightarrow> translate st root (?a k) \<noteq> None"
    by (rule copy_to_loop_outcome) auto
  have same: "vm_tables st' = vm_tables st" "vm_direct st' = vm_direct st" by (simp_all add: st'_def)
  have "inj_on (\<lambda>k. the (translate st root (?a k))) {..<length src}"
  proof (rule inj_onI)
    fix k j assume "k \<in> {..<length src}" "j \<in> {..<length src}" "the (translate st root (?a k)) = the (translate st root (?a j))"
    moreover from this t[of k] t[of j] have "translate st root (?a k) = translate st root (?a j)" by auto
    ultimately show "k = j" using assms(2) by (auto dest: inj_onD)
  qed
  then have "vm_bytes st' (the (translate st root (?a k))) = src ! k" if "k < length src" for k
    using fold_upd_apply[of "\<lambda>k. the (translate st root (?a k))" "length src" k "\<lambda>k. src ! k"] that
    by (simp add: st'_def put_bytes_def)
  then have v: "vm_bytes st' p = src ! k" if "k < length src" "translate st root (?a k) = Some p" for k p
    using that by fastforce
  have "map_option (vm_bytes st') (translate st' root (?a k)) = Some (src ! k)" if "k < length src" for k
    using t[OF that] v[OF that] by (auto simp: translate_cong[OF same])
  then show "user_bytes st' root addr (length src) = map Some src" "vm_tables st' = vm_tables st" "vm_direct st' = vm_direct st"
    "k < length src \<Longrightarrow> translate st root (?a k) \<noteq> None"
    using same t by (auto simp: user_bytes_def intro!: nth_equalityI)
qed

lemma copied_back:
  assumes "copy_to_user_root root addr src st = (True, st')"
    and "inj_on (\<lambda>k. translate st root (addr + word_of_nat k)) {..<length src}"
  shows "copy_from_user_root st' root addr (length src) = Some src"
proof -
  have ne: "src \<noteq> []" and loop: "copy_to_loop root addr src st = (True, st')"
    using assms(1) by (auto simp: copy_to_user_root_def split: if_splits)
  note copied = copied_user_bytes[OF assms]
  obtain bs where bs: "copy_from_loop st' root addr (length src) = Some bs"
    using copy_back[OF loop copied(2,3)] by blast
  with copy_from_loop_sound[OF bs] copied(1) have "bs = src" by (simp add: inj_map_eq_map)
  with bs ne show ?thesis by (simp add: copy_from_user_root_def)
qed

text \<open>C9. What a copy into user memory stored, a copy out of the same range returns, byte for byte;
  the range may straddle pages but must not map two of its addresses to the same physical byte.\<close>

theorem copy_round_trip:
  assumes "copy_to_user_root root addr src st = (True, st')"
    and "inj_on (\<lambda>k. translate st root (addr + word_of_nat k)) {..<length src}"
  shows "copy_from_user_root st' root addr (length src) = Some src"
  by (rule copied_back[OF assms])

theorem copy_round_trip_witness:
  "copy_from_user_root (store_bytes 0x200ffe [1, 2] demo_mapped) 0x100000 0x400ffe 2 = Some [1, 2]"
proof -
  have "inj_on (\<lambda>k. translate demo_mapped 0x100000 (0x400ffe + word_of_nat k)) {..<length [1 :: u8, 2]}"
    using demo_translate by (auto simp: inj_on_def less_2_cases_iff numeral_2_eq_2 less_Suc_eq)
  from copy_round_trip[OF demo_copy this] show ?thesis by (simp add: numeral_2_eq_2)
qed

end
