(* ===== verification/Addr_Space.thy ===== *)
theory Addr_Space
  imports Process User_Mem
begin

text \<open>
  The address space of a process (\<^verbatim>\<open>kernel/core/proc/proc.cc\<close>): frames for user pages, leaf
  attributes derived from area permissions, the directory of shared read-only file pages, the
  user-buffer checks of the system calls, \<^verbatim>\<open>brk\<close>, anonymous, file and dynamic-library mappings, the
  page-fault handler with demand-zero and file-backed materialisation, the copy-on-write split, and
  the page copy of \<^verbatim>\<open>fork\<close>. Flushing the TLB has no effect on the modelled state. The current process
  is an option, \<open>None\<close> for an empty slot; \<open>can_block\<close> and \<open>can_allocate_in_fault\<close> are the answers of the
  scheduler.
\<close>

section \<open>State\<close>

record file_identity =
  fi_backend_id :: u32
  fi_mount_id :: u32
  fi_object_id :: u64

record open_file =
  of_ref_count :: u32
  of_open :: bool
  of_readable :: bool
  of_vnode :: "(u64 \<times> bool) option"
  of_identity :: file_identity

record shared_readonly_key =
  sk_identity :: file_identity
  sk_file_offset :: u64
  sk_attrs :: u32

record shared_readonly_page =
  sp_used :: bool
  sp_key :: shared_readonly_key
  sp_frame_phys :: u64
  sp_pte_refs :: u32
  sp_backing :: "nat option"

text \<open>\<open>mm_files\<close> holds the open files by object number; \<open>of_vnode\<close> is the size of the file and whether it
  is a directory; a file whose last reference is dropped is no longer \<open>of_open\<close>.\<close>

record 'h mem =
  mm_vm :: "'h vm_state"
  mm_shared :: "shared_readonly_page list"
  mm_files :: "nat \<Rightarrow> open_file"

definition zero_shared :: shared_readonly_page where
  "zero_shared = \<lparr>sp_used = False,
     sp_key = \<lparr>sk_identity = \<lparr>fi_backend_id = 0, fi_mount_id = 0, fi_object_id = 0\<rparr>, sk_file_offset = 0, sk_attrs = 0\<rparr>,
     sp_frame_phys = 0, sp_pte_refs = 0, sp_backing = None\<rparr>"

abbreviation on_vm :: "('h vm_state \<Rightarrow> 'h vm_state) \<Rightarrow> 'h mem \<Rightarrow> 'h mem" where
  "on_vm f m \<equiv> m\<lparr>mm_vm := f (mm_vm m)\<rparr>"

section \<open>Frames and attributes\<close>

definition alloc_user_frame :: "'h frame_ops \<Rightarrow> 'h vm_state \<Rightarrow> u64 \<times> 'h vm_state" where
  "alloc_user_frame ops st = alloc_frame ops st"

definition free_user_frame :: "'h frame_ops \<Rightarrow> u64 \<Rightarrow> 'h vm_state \<Rightarrow> 'h vm_state" where
  "free_user_frame ops phys st = (if phys \<noteq> 0 then free_frame ops phys st else st)"

definition set_page :: "u64 \<Rightarrow> (u64 \<Rightarrow> u8) \<Rightarrow> 'h vm_state \<Rightarrow> 'h vm_state" where
  \<comment> \<open>\<open>PAGE_SIZE\<close> bytes from \<open>phys\<close> on, given by their offset\<close>
  "set_page phys g st = st\<lparr>vm_bytes := (\<lambda>a. if a - phys < PAGE_SIZE then g (a - phys) else vm_bytes st a)\<rparr>"

definition zero_frame :: "u64 \<Rightarrow> 'h vm_state \<Rightarrow> bool \<times> 'h vm_state" where
  "zero_frame phys st =
    (case phys_to_direct st phys of None \<Rightarrow> (False, st) | Some d \<Rightarrow> (True, set_page d (\<lambda>_. 0) st))"

definition copy_frame :: "u64 \<Rightarrow> u64 \<Rightarrow> 'h vm_state \<Rightarrow> 'h vm_state" where
  \<comment> \<open>\<^verbatim>\<open>memcpy(dst, src, PAGE_SIZE)\<close>\<close>
  "copy_frame dst src st = set_page dst (\<lambda>k. vm_bytes st (src + k)) st"

definition internal_vma_attr_allowed :: "vma_entry option \<Rightarrow> u64 \<Rightarrow> bool" where
  "internal_vma_attr_allowed vma attr =
    (case vma of
       None \<Rightarrow> False
     | Some v \<Rightarrow>
       if attr AND ATTR_PRESENT = 0 \<or> attr AND ATTR_USER = 0 then False
       else if attr AND ATTR_WRITABLE \<noteq> 0 \<and> \<not> permissions_include (v_permissions v) PermWrite then False
       else if attr AND ATTR_NO_EXECUTE = 0 \<and> \<not> permissions_include (v_permissions v) PermExecute then False
       else True)"

definition anonymous_page_attr :: "u8 \<Rightarrow> u64" where
  "anonymous_page_attr perms =
    (let attr = ATTR_PRESENT OR ATTR_USER;
         attr = (if permissions_include perms PermWrite then attr OR ATTR_WRITABLE else attr)
     in if \<not> permissions_include perms PermExecute then attr OR ATTR_NO_EXECUTE else attr)"

definition file_backed_page_attr :: "u8 \<Rightarrow> u64" where
  "file_backed_page_attr perms =
    (let attr = ATTR_PRESENT OR ATTR_USER
     in if \<not> permissions_include perms PermExecute then attr OR ATTR_NO_EXECUTE else attr)"

definition cow_shared_attr :: "u64 \<Rightarrow> u64" where
  "cow_shared_attr attr = attr AND NOT ATTR_WRITABLE OR ATTR_PTE_COW"

section \<open>File references and shared read-only pages\<close>

definition retain :: "nat option \<Rightarrow> 'h mem \<Rightarrow> 'h mem" where
  "retain f m =
    (case f of
       None \<Rightarrow> m
     | Some k \<Rightarrow> m\<lparr>mm_files := (mm_files m)(k := (mm_files m k)\<lparr>of_ref_count := of_ref_count (mm_files m k) + 1\<rparr>)\<rparr>)"

definition release :: "nat option \<Rightarrow> 'h mem \<Rightarrow> 'h mem" where
  \<comment> \<open>the last reference closes the file through its backend and frees the object\<close>
  "release f m =
    (case f of
       None \<Rightarrow> m
     | Some k \<Rightarrow>
       if of_ref_count (mm_files m k) > 1
       then m\<lparr>mm_files := (mm_files m)(k := (mm_files m k)\<lparr>of_ref_count := of_ref_count (mm_files m k) - 1\<rparr>)\<rparr>
       else m\<lparr>mm_files := (mm_files m)(k := (mm_files m k)\<lparr>of_open := False\<rparr>)\<rparr>)"

definition get_file_identity :: "open_file \<Rightarrow> file_identity option" where
  "get_file_identity f =
    (if fi_backend_id (of_identity f) = 0 \<or> fi_object_id (of_identity f) = 0 then None else Some (of_identity f))"

definition shared_readonly_key_for_vma :: "(nat \<Rightarrow> open_file) \<Rightarrow> vma_entry \<Rightarrow> u64 \<Rightarrow> u64 \<Rightarrow> shared_readonly_key option" where
  "shared_readonly_key_for_vma files vma file_offset attr =
    (case v_file_backing vma of
       None \<Rightarrow> None
     | Some f \<Rightarrow>
       if permissions_include (v_permissions vma) PermWrite \<or> attr AND ATTR_WRITABLE \<noteq> 0 \<or>
          file_offset AND (PAGE_SIZE - 1) \<noteq> 0 then None
       else (case get_file_identity (files f) of
               None \<Rightarrow> None
             | Some i \<Rightarrow> Some \<lparr>sk_identity = i, sk_file_offset = file_offset,
                  sk_attrs = ucast (attr AND (ATTR_USER OR ATTR_NO_EXECUTE))\<rparr>))"

definition shared_readonly_find :: "shared_readonly_key \<Rightarrow> shared_readonly_page list \<Rightarrow> shared_readonly_page option" where
  "shared_readonly_find key ps = find (\<lambda>e. sp_used e \<and> sp_key e = key) ps"

definition frame_entry :: "u64 \<Rightarrow> shared_readonly_page \<Rightarrow> bool" where
  "frame_entry phys e \<longleftrightarrow> sp_used e \<and> sp_frame_phys e = phys"

definition shared_readonly_retain_mapping ::
    "(shared_readonly_page \<Rightarrow> bool) \<Rightarrow> 'h mem \<Rightarrow> u64 option \<times> 'h mem" where
  \<comment> \<open>the entry is the first one that satisfies the test the caller searched with\<close>
  "shared_readonly_retain_mapping sel m =
    (case find sel (mm_shared m) of
       None \<Rightarrow> (None, m)
     | Some e \<Rightarrow>
       if \<not> sp_used e then (None, m)
       else case frame_ref_inc (sp_frame_phys e) (mm_vm m) of
         (ok, st) \<Rightarrow>
           if \<not> ok then (None, m\<lparr>mm_vm := st\<rparr>)
           else (Some (sp_frame_phys e),
             m\<lparr>mm_vm := st, mm_shared := update_first sel (\<lambda>e. e\<lparr>sp_pte_refs := sp_pte_refs e + 1\<rparr>) (mm_shared m)\<rparr>))"

definition shared_readonly_retain_mapping_by_frame :: "u64 \<Rightarrow> 'h mem \<Rightarrow> bool \<times> 'h mem" where
  "shared_readonly_retain_mapping_by_frame phys m =
    (if find (frame_entry phys) (mm_shared m) \<noteq> None
     then (case shared_readonly_retain_mapping (frame_entry phys) m of (r, m) \<Rightarrow> (r \<noteq> None, m))
     else (case frame_ref_inc phys (mm_vm m) of (ok, st) \<Rightarrow> (ok, m\<lparr>mm_vm := st\<rparr>)))"

definition shared_readonly_drop_mapping :: "'h frame_ops \<Rightarrow> u64 \<Rightarrow> 'h mem \<Rightarrow> 'h mem" where
  "shared_readonly_drop_mapping ops phys m =
    (if phys = INVALID_PHYS_ADDR then m
     else
       (let m1 = m\<lparr>mm_shared := update_first (frame_entry phys)
              (\<lambda>e. if sp_pte_refs e > 0 then e\<lparr>sp_pte_refs := sp_pte_refs e - 1\<rparr> else e) (mm_shared m)\<rparr>;
            m2 = on_vm (frame_ref_dec_and_maybe_free ops phys) m1
        in case find (frame_entry phys) (mm_shared m2) of
             None \<Rightarrow> m2
           | Some e \<Rightarrow>
             if sp_pte_refs e = 0 then
               release (sp_backing e)
                 (on_vm (frame_ref_dec_and_maybe_free ops (sp_frame_phys e))
                   (m2\<lparr>mm_shared := update_first (frame_entry phys) (\<lambda>_. zero_shared) (mm_shared m2)\<rparr>))
             else m2))"

definition shared_readonly_publish_new ::
    "shared_readonly_key \<Rightarrow> nat option \<Rightarrow> u64 \<Rightarrow> 'h mem \<Rightarrow> bool \<times> 'h mem" where
  "shared_readonly_publish_new key backing phys m =
    (if backing = None \<or> phys = 0 then (False, m)
     else if shared_readonly_find key (mm_shared m) \<noteq> None then (False, m)
     else if find (\<lambda>e. \<not> sp_used e) (mm_shared m) = None then (False, m)
     else (True, (retain backing m)\<lparr>mm_shared := update_first (\<lambda>e. \<not> sp_used e)
            (\<lambda>_. \<lparr>sp_used = True, sp_key = key, sp_frame_phys = phys, sp_pte_refs = 0, sp_backing = backing\<rparr>)
            (mm_shared m)\<rparr>))"

definition shared_readonly_cancel_unmapped ::
    "'h frame_ops \<Rightarrow> (shared_readonly_page \<Rightarrow> bool) \<Rightarrow> 'h mem \<Rightarrow> 'h mem" where
  "shared_readonly_cancel_unmapped ops sel m =
    (case find sel (mm_shared m) of
       None \<Rightarrow> m
     | Some e \<Rightarrow>
       if \<not> sp_used e \<or> sp_pte_refs e \<noteq> 0 then m
       else release (sp_backing e)
              (on_vm (frame_ref_dec_and_maybe_free ops (sp_frame_phys e))
                (m\<lparr>mm_shared := update_first sel (\<lambda>_. zero_shared) (mm_shared m)\<rparr>)))"


section \<open>Pages of a range\<close>

text \<open>The pages a loop \<^verbatim>\<open>for (page = a; page < e; page += PAGE_SIZE)\<close> visits. Every caller has an end at or
  below the user limit, so the increment never wraps; the list stops where it would.\<close>

function page_seq :: "u64 \<Rightarrow> u64 \<Rightarrow> u64 list" where
  "page_seq a e = (if a < e then a # (if a < a + PAGE_SIZE then page_seq (a + PAGE_SIZE) e else []) else [])"
  by pat_completeness auto
termination
  by (relation "measure (\<lambda>(a, e). unat e - unat a)") (auto simp: word_less_nat_alt)
declare page_seq.simps [simp del]

fun each_page :: "(u64 \<Rightarrow> 's \<Rightarrow> bool \<times> 's) \<Rightarrow> u64 list \<Rightarrow> 's \<Rightarrow> bool \<times> 's" where
  "each_page body [] s = (True, s)"
| "each_page body (p # ps) s = (case body p s of (ok, s') \<Rightarrow> if \<not> ok then (False, s') else each_page body ps s')"

definition map_user_page_for_process ::
    "'h frame_ops \<Rightarrow> process \<Rightarrow> u64 \<Rightarrow> u64 \<Rightarrow> u64 \<Rightarrow> 'h vm_state \<Rightarrow> bool \<times> 'h vm_state" where
  \<comment> \<open>with \<^verbatim>\<open>also_map_active_root\<close> false, as every modelled caller passes\<close>
  "map_user_page_for_process ops p vaddr phys attr st =
    (if \<not> page_aligned vaddr \<or> \<not> page_aligned phys then (False, st)
     else
       (let vma = internal_find_vma (p_vmas p) vaddr in
        if \<not> internal_vma_range_allowed (p_vmas p) vaddr PAGE_SIZE PermRead \<or>
           \<not> internal_vma_attr_allowed vma attr \<or> vma = None \<or>
           \<not> runtime_vma_allowed (p_runtime_layout p) (the vma) then (False, st)
        else map_page_in_root ops (p_address_space_root p) vaddr phys attr st))"

definition unmap_and_free_user_page :: "'h frame_ops \<Rightarrow> process \<Rightarrow> u64 \<Rightarrow> 'h vm_state \<Rightarrow> 'h vm_state" where
  "unmap_and_free_user_page ops p vaddr st =
    (case unmap_user_page_in_root ops (p_address_space_root p) vaddr st of
       (None, st) \<Rightarrow> st
     | (Some phys, st) \<Rightarrow> if phys \<noteq> INVALID_PHYS_ADDR then frame_ref_dec_and_maybe_free ops phys st else st)"

definition unmap_present_page :: "'h frame_ops \<Rightarrow> process \<Rightarrow> u64 \<Rightarrow> 'h vm_state \<Rightarrow> bool \<times> 'h vm_state" where
  "unmap_present_page ops p page st =
    (case read_user_leaf_in_root st (p_address_space_root p) page of
       None \<Rightarrow> (True, st)
     | Some (phys, attr) \<Rightarrow>
       if attr AND ATTR_USER = 0 then (False, st)
       else (case unmap_user_page_in_root ops (p_address_space_root p) page st of
               (None, st) \<Rightarrow> (False, st)
             | (Some phys, st) \<Rightarrow>
               (True, if phys \<noteq> INVALID_PHYS_ADDR then frame_ref_dec_and_maybe_free ops phys st else st)))"

definition unmap_present_pages_in_range ::
    "'h frame_ops \<Rightarrow> process \<Rightarrow> u64 \<Rightarrow> u64 \<Rightarrow> 'h vm_state \<Rightarrow> bool \<times> 'h vm_state" where
  "unmap_present_pages_in_range ops p addr e st = each_page (unmap_present_page ops p) (page_seq addr e) st"

definition unmap_shared_page :: "'h frame_ops \<Rightarrow> u64 \<Rightarrow> u64 \<Rightarrow> 'h mem \<Rightarrow> bool \<times> 'h mem" where
  "unmap_shared_page ops root page m =
    (case read_user_leaf_in_root (mm_vm m) root page of
       None \<Rightarrow> (True, m)
     | Some (phys, attr) \<Rightarrow>
       if attr AND ATTR_USER = 0 then (False, m)
       else (case unmap_user_page_in_root ops root page (mm_vm m) of
               (None, st) \<Rightarrow> (False, m\<lparr>mm_vm := st\<rparr>)
             | (Some phys, st) \<Rightarrow> (True, shared_readonly_drop_mapping ops phys (m\<lparr>mm_vm := st\<rparr>))))"

fun unmap_shared_areas :: "'h frame_ops \<Rightarrow> u64 \<Rightarrow> vma_entry list \<Rightarrow> 'h mem \<Rightarrow> bool \<times> 'h mem" where
  "unmap_shared_areas ops root [] m = (True, m)"
| "unmap_shared_areas ops root (v # vs) m =
    (if \<not> v_used v \<or> v_backing v \<noteq> BackingFileBacked then unmap_shared_areas ops root vs m
     else (case each_page (unmap_shared_page ops root) (page_seq (v_start v) (v_end v)) m of
             (ok, m) \<Rightarrow> if \<not> ok then (False, m) else unmap_shared_areas ops root vs m))"

definition unmap_shared_file_backed_pages :: "'h frame_ops \<Rightarrow> u64 \<Rightarrow> vma_collection \<Rightarrow> 'h mem \<Rightarrow> bool \<times> 'h mem" where
  "unmap_shared_file_backed_pages ops root vs m =
    (if root = INVALID_PHYS_ADDR then (True, m) else unmap_shared_areas ops root (vc_entries vs) m)"

definition protect_present_page :: "process \<Rightarrow> u8 \<Rightarrow> u64 \<Rightarrow> 'h vm_state \<Rightarrow> bool \<times> 'h vm_state" where
  "protect_present_page p perms page st =
    (case read_user_leaf_in_root st (p_address_space_root p) page of
       None \<Rightarrow> (True, st)
     | Some (phys, attr) \<Rightarrow>
       (let policy = anonymous_page_attr perms;
            new_attr = (if attr AND ATTR_PTE_COW \<noteq> 0 \<and> permissions_include perms PermWrite
                        then policy AND NOT ATTR_WRITABLE OR ATTR_PTE_COW else policy)
        in remap_user_page_in_root (p_address_space_root p) page phys new_attr st))"

definition protect_present_pages_in_range ::
    "process \<Rightarrow> u64 \<Rightarrow> u64 \<Rightarrow> u8 \<Rightarrow> 'h vm_state \<Rightarrow> bool \<times> 'h vm_state" where
  "protect_present_pages_in_range p addr e perms st =
    (if \<not> permissions_supported perms then (False, st)
     else each_page (protect_present_page p perms) (page_seq addr e) st)"

section \<open>User buffers of system calls\<close>

definition SYS_IO_MAX_LEN :: u64 where "SYS_IO_MAX_LEN = 512"

definition validate_user_buffer :: "process option \<Rightarrow> 'h vm_state \<Rightarrow> u64 \<Rightarrow> u64 \<Rightarrow> bool" where
  "validate_user_buffer cur st addr len =
    (case cur of
       None \<Rightarrow> False
     | Some p \<Rightarrow>
       if p_state p \<noteq> Running \<or> len > SYS_IO_MAX_LEN then False
       else runtime_range_allowed (p_runtime_layout p) (p_vmas p) addr len PermRead \<and>
            user_range_mapped st (p_address_space_root p) addr len)"

definition validate_user_io_buffer :: "process option \<Rightarrow> 'h vm_state \<Rightarrow> u64 \<Rightarrow> u64 \<Rightarrow> bool" where
  "validate_user_io_buffer cur st addr len =
    (case cur of
       None \<Rightarrow> False
     | Some p \<Rightarrow>
       if p_state p \<noteq> Running \<or> len > SYS_IO_MAX_LEN then False
       else runtime_range_allowed (p_runtime_layout p) (p_vmas p) addr len PermWrite \<and>
            user_range_writable st (p_address_space_root p) addr len)"

definition copy_current_user_buffer :: "process option \<Rightarrow> 'h vm_state \<Rightarrow> u64 \<Rightarrow> u64 \<Rightarrow> u8 list option" where
  "copy_current_user_buffer cur st addr len =
    (case cur of
       None \<Rightarrow> None
     | Some p \<Rightarrow>
       if p_state p \<noteq> Running \<or> len > SYS_IO_MAX_LEN then None
       else if \<not> runtime_range_allowed (p_runtime_layout p) (p_vmas p) addr len PermRead then None
       else copy_from_user_root st (p_address_space_root p) addr (unat len))"

definition copy_to_current_user_buffer :: "process option \<Rightarrow> u64 \<Rightarrow> u8 list \<Rightarrow> 'h vm_state \<Rightarrow> bool \<times> 'h vm_state" where
  "copy_to_current_user_buffer cur addr src st =
    (case cur of
       None \<Rightarrow> (False, st)
     | Some p \<Rightarrow>
       if p_state p \<noteq> Running \<or> length src > unat SYS_IO_MAX_LEN then (False, st)
       else if \<not> runtime_range_allowed (p_runtime_layout p) (p_vmas p) addr (word_of_nat (length src)) PermWrite
       then (False, st)
       else copy_to_user_root (p_address_space_root p) addr src st)"

section \<open>Mapping system calls\<close>

text \<open>Results are the signed return value, the process and the memory. A call made with no current
  process, one that is not running, or where blocking is forbidden, returns the same error.\<close>

definition brk_shrink :: "'h frame_ops \<Rightarrow> process \<Rightarrow> u64 list \<Rightarrow> 'h vm_state \<Rightarrow> 'h vm_state" where
  "brk_shrink ops p pages st = fold (unmap_and_free_user_page ops p) pages st"

definition set_heap_materialized :: "u64 \<Rightarrow> vma_collection \<Rightarrow> vma_collection" where
  \<comment> \<open>through the pointer to the heap area\<close>
  "set_heap_materialized e vs =
     vs\<lparr>vc_entries := update_first (area_covers (vc_heap_base vs))
          (\<lambda>v. if v_materialized_end v > e then v\<lparr>v_materialized_end := e\<rparr> else v) (vc_entries vs)\<rparr>"

definition brk_current ::
    "'h frame_ops \<Rightarrow> bool \<Rightarrow> u64 \<Rightarrow> process option \<Rightarrow> 'h vm_state \<Rightarrow> int \<times> process option \<times> 'h vm_state" where
  "brk_current ops can_block new_break cur st =
    (case cur of
       None \<Rightarrow> (- EWOULDBLOCK, cur, st)
     | Some p \<Rightarrow>
       if p_state p \<noteq> Running \<or> \<not> can_block then (- EWOULDBLOCK, cur, st)
       else
         (let vs = p_vmas p in
          if new_break = 0 then (sint (vc_heap_break vs), cur, st)
          else if new_break < vc_heap_base vs \<or> new_break > vc_heap_limit vs then (- EINVAL, cur, st)
          else case internal_find_vma vs (vc_heap_base vs) of
            None \<Rightarrow> (- EFAULT, cur, st)
          | Some heap \<Rightarrow>
            if v_purpose heap \<noteq> PurposeHeap \<or> \<not> runtime_vma_allowed (p_runtime_layout p) heap
            then (- EFAULT, cur, st)
            else case (page_up (vc_heap_break vs), page_up new_break) of
              (Some old_page_end, Some new_page_end) \<Rightarrow>
                (let shrink = new_page_end < old_page_end;
                     unmap_top = (if v_materialized_end heap < old_page_end then v_materialized_end heap else old_page_end);
                     st' = (if shrink then brk_shrink ops p (page_seq new_page_end unmap_top) st else st);
                     vs' = (if shrink then set_heap_materialized new_page_end vs else vs);
                     vs'' = vs'\<lparr>vc_heap_break := new_break\<rparr>
                 in (sint new_break, Some (p\<lparr>p_vmas := vs''\<rparr>), st'))
            | _ \<Rightarrow> (- EINVAL, cur, st)))"


text \<open>The search loop of \<^verbatim>\<open>map_anonymous_current\<close> and \<^verbatim>\<open>map_file_current\<close>: the base and the end of the first
  window of \<open>len\<close> bytes that no area overlaps, in steps of a page, or \<open>None\<close> when the end passes the limit.
  The step cannot wrap, because \<open>len\<close> is at least a page in both callers.\<close>

definition window_free :: "vma_entry list \<Rightarrow> u64 \<Rightarrow> u64 \<Rightarrow> bool" where
  "window_free entries base e = (\<not> list_ex (\<lambda>x. v_used x \<and> base < v_end x \<and> v_start x < e) entries)"

lemma unat_u64_less: "unat (w :: u64) < 18446744073709551616"
  using unsigned_less[of w, where 'a = nat] by simp

function find_window :: "vma_entry list \<Rightarrow> u64 \<Rightarrow> u64 \<Rightarrow> u64 \<Rightarrow> (u64 \<times> u64) option" where
  "find_window entries len limit base =
    (case add_overflow base len of
       None \<Rightarrow> None
     | Some e \<Rightarrow>
       if e > limit then None
       else if window_free entries base e then Some (base, e)
       else if base < base + PAGE_SIZE then find_window entries len limit (base + PAGE_SIZE) else None)"
  by pat_completeness auto
termination
  by (relation "measure (\<lambda>(entries, len, limit, base). 2 ^ 64 - unat base)")
     (auto simp: word_less_nat_alt unat_u64_less intro!: diff_less_mono2)
declare find_window.simps [simp del]

definition map_anonymous_current ::
    "bool \<Rightarrow> u64 \<Rightarrow> u64 \<Rightarrow> u64 \<Rightarrow> process option \<Rightarrow> int \<times> process option" where
  "map_anonymous_current can_block len0 permissions flags cur =
    (case cur of
       None \<Rightarrow> (- EWOULDBLOCK, cur)
     | Some p \<Rightarrow>
       if p_state p \<noteq> Running \<or> \<not> can_block then (- EWOULDBLOCK, cur)
       else if flags \<noteq> 0 \<or> len0 = 0 \<or> len0 > USER_ANON_MAX_PAGES * PAGE_SIZE then (- EINVAL, cur)
       else case page_up len0 of
         None \<Rightarrow> (- EINVAL, cur)
       | Some len \<Rightarrow>
         (let perms = ucast permissions :: u8 in
          if perms AND NOT (PermRead OR PermWrite OR PermExecute) \<noteq> 0 \<or> permissions_wx perms then (- EINVAL, cur)
          else
            (let anonymous = l_anonymous (p_runtime_layout p);
                 anon_limit = ur_base anonymous + ur_len anonymous
             in case find_window (vc_entries (p_vmas p)) len anon_limit (vc_anon_next (p_vmas p)) of
                  None \<Rightarrow> (- EINVAL, cur)
                | Some (base, e) \<Rightarrow>
                  (case internal_add_process_vma (p_runtime_layout p) (p_vmas p)
                      \<lparr>v_start = base, v_end = e, v_materialized_start = base, v_materialized_end = base,
                       v_permissions = perms, v_purpose = PurposeAnonymous, v_backing = BackingAnonymous,
                       v_growth = GrowthNone, v_used = True, v_file_backing = None, v_file_offset = 0\<rparr> of
                     None \<Rightarrow> (- EFAULT, cur)
                   | Some vs \<Rightarrow> (sint base, Some (p\<lparr>p_vmas := vs\<lparr>vc_anon_next := e\<rparr>\<rparr>))))))"

definition unmap_anonymous_current ::
    "'h frame_ops \<Rightarrow> bool \<Rightarrow> u64 \<Rightarrow> u64 \<Rightarrow> process option \<Rightarrow> 'h vm_state \<Rightarrow> int \<times> process option \<times> 'h vm_state" where
  "unmap_anonymous_current ops can_block addr len cur st =
    (case cur of
       None \<Rightarrow> (- EWOULDBLOCK, cur, st)
     | Some p \<Rightarrow>
       if p_state p \<noteq> Running \<or> \<not> can_block then (- EWOULDBLOCK, cur, st)
       else case lifecycle_range_bounds addr len of
         None \<Rightarrow> (- EINVAL, cur, st)
       | Some e \<Rightarrow>
         (case stage_anonymous_unmap (p_runtime_layout p) (p_vmas p) addr e of
            None \<Rightarrow> (- EINVAL, cur, st)
          | Some staged \<Rightarrow>
            (case unmap_present_pages_in_range ops p addr e st of
               (ok, st') \<Rightarrow>
                 if \<not> ok then (- EFAULT, cur, st') else (0, Some (p\<lparr>p_vmas := staged\<rparr>), st'))))"

definition protect_anonymous_current ::
    "bool \<Rightarrow> u64 \<Rightarrow> u64 \<Rightarrow> u64 \<Rightarrow> process option \<Rightarrow> 'h vm_state \<Rightarrow> int \<times> process option \<times> 'h vm_state" where
  "protect_anonymous_current can_block addr len permissions cur st =
    (case cur of
       None \<Rightarrow> (- EWOULDBLOCK, cur, st)
     | Some p \<Rightarrow>
       if p_state p \<noteq> Running \<or> \<not> can_block then (- EWOULDBLOCK, cur, st)
       else case lifecycle_range_bounds addr len of
         None \<Rightarrow> (- EINVAL, cur, st)
       | Some e \<Rightarrow>
         (let perms = ucast permissions :: u8 in
          if \<not> permissions_supported perms then (- EINVAL, cur, st)
          else (case stage_anonymous_protect (p_runtime_layout p) (p_vmas p) addr e perms of
                  None \<Rightarrow> (- EINVAL, cur, st)
                | Some staged \<Rightarrow>
                  (case protect_present_pages_in_range p addr e perms st of
                     (ok, st') \<Rightarrow>
                       if \<not> ok then (- EFAULT, cur, st') else (0, Some (p\<lparr>p_vmas := staged\<rparr>), st')))))"

definition map_file_current ::
    "bool \<Rightarrow> (u32 \<Rightarrow> nat option) \<Rightarrow> u64 \<Rightarrow> u64 \<Rightarrow> u64 \<Rightarrow> u64 \<Rightarrow> u64 \<Rightarrow> process option \<Rightarrow> 'h mem
       \<Rightarrow> int \<times> process option \<times> 'h mem" where
  \<comment> \<open>\<open>file_for_fd\<close> is the look-up in the file table of the process\<close>
  "map_file_current can_block file_for_fd fd offset len permissions flags cur m =
    (case cur of
       None \<Rightarrow> (- EWOULDBLOCK, cur, m)
     | Some p \<Rightarrow>
       if p_state p \<noteq> Running \<or> \<not> can_block then (- EWOULDBLOCK, cur, m)
       else if flags \<noteq> 0 \<or> len = 0 \<or> \<not> page_aligned offset \<or> \<not> page_aligned len \<or>
               len > USER_FILEMAP_MAX_PAGES * PAGE_SIZE then (- EINVAL, cur, m)
       else
         (let perms = ucast permissions :: u8 in
          if perms AND NOT (PermRead OR PermExecute) \<noteq> 0 \<or> \<not> permissions_include perms PermRead \<or>
             permissions_include perms PermWrite then (- EINVAL, cur, m)
          else if add_overflow offset len = None then (- EINVAL, cur, m)
          else case file_for_fd (ucast fd) of
            None \<Rightarrow> (- EBADF, cur, m)
          | Some f \<Rightarrow>
            if \<not> of_readable (mm_files m f) then (- EBADF, cur, m)
            else if (case of_vnode (mm_files m f) of None \<Rightarrow> True | Some (_, is_directory) \<Rightarrow> is_directory)
            then (- EACCES, cur, m)
            else
              (let window = l_file_mapped (p_runtime_layout p);
                   filemap_limit = ur_base window + ur_len window
               in case find_window (vc_entries (p_vmas p)) len filemap_limit (vc_filemap_next (p_vmas p)) of
                    None \<Rightarrow> (- ENOMEM, cur, m)
                  | Some (base, e) \<Rightarrow>
                    (case internal_add_process_vma (p_runtime_layout p) (p_vmas p)
                        \<lparr>v_start = base, v_end = e, v_materialized_start = base, v_materialized_end = base,
                         v_permissions = perms, v_purpose = PurposeFileMapped, v_backing = BackingFileBacked,
                         v_growth = GrowthNone, v_used = True, v_file_backing = Some f, v_file_offset = offset\<rparr> of
                       None \<Rightarrow> (- ENOMEM, cur, release (Some f) (retain (Some f) m))
                     | Some vs \<Rightarrow> (sint base, Some (p\<lparr>p_vmas := vs\<lparr>vc_filemap_next := e\<rparr>\<rparr>), retain (Some f) m)))))"

definition dyn_map_current :: "bool \<Rightarrow> u64 \<Rightarrow> u64 \<Rightarrow> u64 \<Rightarrow> process option \<Rightarrow> int \<times> process option" where
  "dyn_map_current can_block base len0 permissions cur =
    (case cur of
       None \<Rightarrow> (- EWOULDBLOCK, cur)
     | Some p \<Rightarrow>
       if p_state p \<noteq> Running \<or> \<not> can_block then (- EWOULDBLOCK, cur)
       else if \<not> l_dynamic (p_runtime_layout p) then (- EINVAL, cur)
       else if len0 = 0 \<or> \<not> page_aligned base then (- EINVAL, cur)
       else case page_up len0 of
         None \<Rightarrow> (- EINVAL, cur)
       | Some len \<Rightarrow>
         (let perms = ucast permissions :: u8 in
          if \<not> permissions_supported perms \<or> \<not> permissions_include perms PermRead then (- EINVAL, cur)
          else
            (let lib_base = ur_base (l_dyn_lib (p_runtime_layout p));
                 lib_limit = lib_base + ur_len (l_dyn_lib (p_runtime_layout p))
             in case add_overflow base len of
                  None \<Rightarrow> (- EINVAL, cur)
                | Some e \<Rightarrow>
                  if base < lib_base \<or> e > lib_limit then (- EINVAL, cur)
                  else if \<not> window_free (vc_entries (p_vmas p)) base e then (- EINVAL, cur)
                  else (case internal_add_process_vma (p_runtime_layout p) (p_vmas p)
                          \<lparr>v_start = base, v_end = e, v_materialized_start = base, v_materialized_end = base,
                           v_permissions = perms, v_purpose = PurposeDynLib, v_backing = BackingAnonymous,
                           v_growth = GrowthNone, v_used = True, v_file_backing = None, v_file_offset = 0\<rparr> of
                         None \<Rightarrow> (- EFAULT, cur)
                       | Some vs \<Rightarrow> (sint base, Some (p\<lparr>p_vmas := vs\<rparr>))))))"

definition dyn_protect_current ::
    "bool \<Rightarrow> u64 \<Rightarrow> u64 \<Rightarrow> u64 \<Rightarrow> process option \<Rightarrow> 'h vm_state \<Rightarrow> int \<times> process option \<times> 'h vm_state" where
  "dyn_protect_current can_block base len permissions cur st =
    (case cur of
       None \<Rightarrow> (- EWOULDBLOCK, cur, st)
     | Some p \<Rightarrow>
       if p_state p \<noteq> Running \<or> \<not> can_block then (- EWOULDBLOCK, cur, st)
       else if \<not> l_dynamic (p_runtime_layout p) then (- EINVAL, cur, st)
       else case lifecycle_range_bounds base len of
         None \<Rightarrow> (- EINVAL, cur, st)
       | Some e \<Rightarrow>
         (let perms = ucast permissions :: u8 in
          if \<not> permissions_supported perms \<or> \<not> permissions_include perms PermRead then (- EINVAL, cur, st)
          else
            (let lib_base = ur_base (l_dyn_lib (p_runtime_layout p));
                 lib_limit = lib_base + ur_len (l_dyn_lib (p_runtime_layout p))
             in if base < lib_base \<or> e > lib_limit then (- EINVAL, cur, st)
                else if \<not> vma_walk (\<lambda>x. v_purpose x = PurposeDynLib \<and> v_backing x = BackingAnonymous) (p_vmas p) base e
                then (- EINVAL, cur, st)
                else (case stage_dyn_lib_protect (p_vmas p) base e perms of
                        None \<Rightarrow> (- EINVAL, cur, st)
                      | Some staged \<Rightarrow>
                        (case protect_present_pages_in_range p base e perms st of
                           (ok, st') \<Rightarrow>
                             if \<not> ok then (- EFAULT, cur, st') else (0, Some (p\<lparr>p_vmas := staged\<rparr>), st'))))))"


section \<open>Page faults\<close>

definition update_vma_at :: "u64 \<Rightarrow> (vma_entry \<Rightarrow> vma_entry) \<Rightarrow> process \<Rightarrow> process" where
  \<comment> \<open>a write through the pointer \<^verbatim>\<open>internal_find_vma_mut\<close> returns\<close>
  "update_vma_at page g p =
     p\<lparr>p_vmas := (p_vmas p)\<lparr>vc_entries := update_first (area_covers page) g (vc_entries (p_vmas p))\<rparr>\<rparr>"

definition raise_materialized_end :: "u64 \<Rightarrow> vma_entry \<Rightarrow> vma_entry" where
  "raise_materialized_end page v =
    (if page + PAGE_SIZE > v_materialized_end v then v\<lparr>v_materialized_end := page + PAGE_SIZE\<rparr> else v)"

definition cow_split_current :: "'h frame_ops \<Rightarrow> process \<Rightarrow> u64 \<Rightarrow> vma_entry \<Rightarrow> 'h vm_state \<Rightarrow> bool \<times> 'h vm_state" where
  "cow_split_current ops p page vma st =
    (let root = p_address_space_root p in
     case read_user_leaf_in_root st root page of
       None \<Rightarrow> (False, st)
     | Some (old_phys, old_attr) \<Rightarrow>
       (let writable_attr = old_attr AND NOT ATTR_PTE_COW OR ATTR_WRITABLE in
        if \<not> runtime_vma_allowed (p_runtime_layout p) vma \<or> \<not> internal_vma_attr_allowed (Some vma) writable_attr
        then (False, st)
        else if \<not> frame_ref_is_shared st old_phys then remap_user_page_in_root root page old_phys writable_attr st
        else case alloc_user_frame ops st of
          (new_phys, st1) \<Rightarrow>
            if new_phys = 0 then (False, st1)
            else (case (phys_to_direct st1 old_phys, phys_to_direct st1 new_phys) of
                    (Some src, Some dst) \<Rightarrow>
                      (case remap_user_page_in_root root page new_phys writable_attr (copy_frame dst src st1) of
                         (ok, st2) \<Rightarrow>
                           if \<not> ok then (False, free_user_frame ops new_phys st2)
                           else (True, frame_ref_dec_and_maybe_free ops old_phys st2))
                  | _ \<Rightarrow> (False, free_user_frame ops new_phys st1))))"

text \<open>\<open>pread f offset n\<close> is the answer of \<^verbatim>\<open>vfs::pread\<close> on the backing file: the bytes read, or \<open>None\<close> for an error.\<close>

definition map_shared_mapping ::
    "'h frame_ops \<Rightarrow> u64 \<Rightarrow> u64 \<Rightarrow> process \<Rightarrow> u64 \<Rightarrow> 'h mem \<Rightarrow> bool \<times> process \<times> 'h mem" where
  "map_shared_mapping ops attr page p phys m =
    (case map_user_page_for_process ops p page phys attr (mm_vm m) of
       (ok, st) \<Rightarrow>
         if \<not> ok then (False, p, shared_readonly_drop_mapping ops phys (m\<lparr>mm_vm := st\<rparr>))
         else (True, update_vma_at page (raise_materialized_end page) p, m\<lparr>mm_vm := st\<rparr>))"

definition read_file_page ::
    "'h frame_ops \<Rightarrow> (nat \<Rightarrow> u64 \<Rightarrow> u64 \<Rightarrow> u8 list option) \<Rightarrow> nat \<Rightarrow> u64 \<Rightarrow> u64 \<Rightarrow> 'h vm_state
       \<Rightarrow> u64 option \<times> 'h vm_state" where
  \<comment> \<open>a fresh frame: zeroes, then the part of the page inside the file\<close>
  "read_file_page ops pread f file_offset file_size st =
    (let in_file = (if file_offset < file_size
                    then (if file_size - file_offset < PAGE_SIZE then file_size - file_offset else PAGE_SIZE)
                    else 0)
     in case alloc_user_frame ops st of
          (phys, st1) \<Rightarrow>
            if phys = 0 then (None, st1)
            else case phys_to_direct st1 phys of
              None \<Rightarrow> (None, free_user_frame ops phys st1)
            | Some direct \<Rightarrow>
              (let st2 = set_page direct (\<lambda>_. 0) st1 in
               if in_file = 0 then (Some phys, st2)
               else case pread f file_offset in_file of
                 None \<Rightarrow> (None, free_user_frame ops phys st2)
               | Some bs \<Rightarrow>
                 (let st3 = store_bytes direct bs st2 in
                  if length bs \<noteq> unat in_file then (None, free_user_frame ops phys st3) else (Some phys, st3))))"

definition materialize_new_page ::
    "'h frame_ops \<Rightarrow> (nat \<Rightarrow> u64 \<Rightarrow> u64 \<Rightarrow> u8 list option) \<Rightarrow> shared_readonly_key \<Rightarrow> nat \<Rightarrow> u64 \<Rightarrow> u64 \<Rightarrow> process
       \<Rightarrow> 'h mem \<Rightarrow> bool \<times> process \<times> 'h mem" where
  "materialize_new_page ops pread key f attr page p m =
    (let file_size = (case of_vnode (mm_files m f) of None \<Rightarrow> 0 | Some (sz, _) \<Rightarrow> sz);
         sel = (\<lambda>e. sp_used e \<and> sp_key e = key)
     in case read_file_page ops pread f (sk_file_offset key) file_size (mm_vm m) of
          (None, st) \<Rightarrow> (False, p, m\<lparr>mm_vm := st\<rparr>)
        | (Some phys, st) \<Rightarrow>
          (case shared_readonly_publish_new key (Some f) phys (m\<lparr>mm_vm := st\<rparr>) of
             (ok, m1) \<Rightarrow>
               if \<not> ok then (False, p, on_vm (free_user_frame ops phys) m1)
               else (case shared_readonly_retain_mapping sel m1 of
                       (None, m2) \<Rightarrow> (False, p, shared_readonly_cancel_unmapped ops sel m2)
                     | (Some pte_phys, m2) \<Rightarrow> map_shared_mapping ops attr page p pte_phys m2)))"

definition materialize_file_backed_page ::
    "'h frame_ops \<Rightarrow> bool \<Rightarrow> (nat \<Rightarrow> u64 \<Rightarrow> u64 \<Rightarrow> u8 list option) \<Rightarrow> u64 \<Rightarrow> vma_entry \<Rightarrow> process \<Rightarrow> 'h mem
       \<Rightarrow> bool \<times> process \<times> 'h mem" where
  "materialize_file_backed_page ops can_block pread page vma p m =
    (if v_backing vma \<noteq> BackingFileBacked then (False, p, m)
     else case v_file_backing vma of
       None \<Rightarrow> (False, p, m)
     | Some f \<Rightarrow>
       if \<not> can_block then (False, p, m)
       else case add_overflow (v_file_offset vma) (page - v_start vma) of
         None \<Rightarrow> (False, p, m)
       | Some file_offset \<Rightarrow>
         (let attr = file_backed_page_attr (v_permissions vma) in
          case shared_readonly_key_for_vma (mm_files m) vma file_offset attr of
            None \<Rightarrow> (False, p, m)
          | Some key \<Rightarrow>
            if shared_readonly_find key (mm_shared m) \<noteq> None then
              (case shared_readonly_retain_mapping (\<lambda>e. sp_used e \<and> sp_key e = key) m of
                 (None, m1) \<Rightarrow> (False, p, m1)
               | (Some phys, m1) \<Rightarrow> map_shared_mapping ops attr page p phys m1)
            else materialize_new_page ops pread key f attr page p m))"

definition fault_range_ok :: "process \<Rightarrow> vma_entry \<Rightarrow> u64 \<Rightarrow> bool" where
  "fault_range_ok p vma page =
    (if v_growth vma = GrowthDown then v_start vma \<le> page \<and> page < v_materialized_start vma
     else if v_purpose vma = PurposeHeap
     then (case page_up (vc_heap_break (p_vmas p)) of
             None \<Rightarrow> False | Some registered_end \<Rightarrow> v_start vma \<le> page \<and> page < registered_end)
     else v_start vma \<le> page \<and> page < v_end vma)"

definition materialize_anonymous ::
    "'h frame_ops \<Rightarrow> u64 \<Rightarrow> vma_entry \<Rightarrow> process \<Rightarrow> 'h vm_state \<Rightarrow> bool \<times> process \<times> 'h vm_state" where
  "materialize_anonymous ops page vma p st =
    (let attr = anonymous_page_attr (v_permissions vma) in
     case alloc_user_frame ops st of
       (phys, st1) \<Rightarrow>
         if phys = 0 then (False, p, st1)
         else case zero_frame phys st1 of
           (zeroed, st2) \<Rightarrow>
             if \<not> zeroed then (False, p, free_user_frame ops phys st2)
             else (case map_user_page_for_process ops p page phys attr st2 of
                     (ok, st3) \<Rightarrow>
                       if \<not> ok then (False, p, free_user_frame ops phys st3)
                       else (True, update_vma_at page
                                (if v_growth vma = GrowthDown then (\<lambda>v. v\<lparr>v_materialized_start := page\<rparr>)
                                 else raise_materialized_end page) p, st3)))"

definition try_handle_user_page_fault ::
    "'h frame_ops \<Rightarrow> bool \<Rightarrow> bool \<Rightarrow> (nat \<Rightarrow> u64 \<Rightarrow> u64 \<Rightarrow> u8 list option) \<Rightarrow> u64 \<Rightarrow> u64
       \<Rightarrow> process option \<Rightarrow> 'h mem \<Rightarrow> bool \<times> process option \<times> 'h mem" where
  "try_handle_user_page_fault ops can_block can_allocate_in_fault pread fault_address error_code cur m =
    (case cur of
       None \<Rightarrow> (False, cur, m)
     | Some p \<Rightarrow>
       if p_state p \<noteq> Running \<or> \<not> can_allocate_in_fault then (False, cur, m)
       else
         (let page = page_down fault_address in
          case internal_find_vma (p_vmas p) page of
            None \<Rightarrow> (False, cur, m)
          | Some vma \<Rightarrow>
            if error_code AND 1 \<noteq> 0 then
              (if error_code AND 2 = 0 then (False, cur, m)
               else if v_backing vma \<noteq> BackingAnonymous \<or> \<not> runtime_vma_allowed (p_runtime_layout p) vma \<or>
                       \<not> permissions_include (v_permissions vma) PermWrite then (False, cur, m)
               else case read_user_leaf_in_root (mm_vm m) (p_address_space_root p) page of
                 None \<Rightarrow> (False, cur, m)
               | Some (cow_phys, cow_attr) \<Rightarrow>
                 if cow_attr AND ATTR_PTE_COW = 0 \<or> cow_attr AND ATTR_WRITABLE \<noteq> 0 then (False, cur, m)
                 else (case cow_split_current ops p page vma (mm_vm m) of (ok, st) \<Rightarrow> (ok, cur, m\<lparr>mm_vm := st\<rparr>)))
            else if \<not> runtime_vma_allowed (p_runtime_layout p) vma then (False, cur, m)
            else if v_backing vma = BackingFileBacked then
              (if error_code AND 2 \<noteq> 0 then (False, cur, m)
               else if error_code AND 16 \<noteq> 0 \<and> \<not> permissions_include (v_permissions vma) PermExecute
               then (False, cur, m)
               else if page < v_start vma \<or> page \<ge> v_end vma then (False, cur, m)
               else (case materialize_file_backed_page ops can_block pread page vma p m of
                       (ok, p', m') \<Rightarrow> (ok, Some p', m')))
            else if v_backing vma \<noteq> BackingAnonymous then (False, cur, m)
            else if error_code AND 2 \<noteq> 0 \<and> \<not> permissions_include (v_permissions vma) PermWrite then (False, cur, m)
            else if error_code AND 16 \<noteq> 0 \<and> \<not> permissions_include (v_permissions vma) PermExecute
            then (False, cur, m)
            else if \<not> fault_range_ok p vma page then (False, cur, m)
            else (case materialize_anonymous ops page vma p (mm_vm m) of
                    (ok, p', st) \<Rightarrow> (ok, Some p', m\<lparr>mm_vm := st\<rparr>))))"

section \<open>The page copy of fork\<close>

definition clone_user_leaf ::
    "'h frame_ops \<Rightarrow> process \<Rightarrow> process \<Rightarrow> vma_entry \<Rightarrow> u64 \<Rightarrow> u64 \<Rightarrow> u64 \<Rightarrow> 'h mem \<Rightarrow> bool \<times> 'h mem" where
  "clone_user_leaf ops parent child vma page parent_phys parent_attr m =
    (let child_root = p_address_space_root child; st = mm_vm m in
     case v_backing vma of
       BackingElfSegment \<Rightarrow>
         (case alloc_user_frame ops st of
            (child_phys, st1) \<Rightarrow>
              if child_phys = 0 then (False, m\<lparr>mm_vm := st1\<rparr>)
              else (case (phys_to_direct st1 parent_phys, phys_to_direct st1 child_phys) of
                      (Some src, Some dst) \<Rightarrow>
                        (case map_page_in_root ops child_root page child_phys parent_attr (copy_frame dst src st1) of
                           (ok, st2) \<Rightarrow>
                             if \<not> ok then (False, m\<lparr>mm_vm := free_user_frame ops child_phys st2\<rparr>)
                             else (True, m\<lparr>mm_vm := st2\<rparr>))
                    | _ \<Rightarrow> (False, m\<lparr>mm_vm := free_user_frame ops child_phys st1\<rparr>)))
     | BackingFileBacked \<Rightarrow>
         (case shared_readonly_retain_mapping_by_frame parent_phys m of
            (ok, m1) \<Rightarrow>
              if \<not> ok then (False, m1)
              else (case map_page_in_root ops child_root page parent_phys parent_attr (mm_vm m1) of
                      (ok, st2) \<Rightarrow>
                        if \<not> ok then (False, shared_readonly_drop_mapping ops parent_phys (m1\<lparr>mm_vm := st2\<rparr>))
                        else (True, m1\<lparr>mm_vm := st2\<rparr>)))
     | _ \<Rightarrow>
       (let share = (parent_attr AND ATTR_WRITABLE \<noteq> 0);
            attr = (if share then cow_shared_attr parent_attr else parent_attr)
        in case frame_ref_inc parent_phys st of
             (ok, st1) \<Rightarrow>
               if \<not> ok then (False, m\<lparr>mm_vm := st1\<rparr>)
               else (case map_page_in_root ops child_root page parent_phys attr st1 of
                       (ok, st2) \<Rightarrow>
                         if \<not> ok then (False, m\<lparr>mm_vm := frame_ref_dec_and_maybe_free ops parent_phys st2\<rparr>)
                         else if \<not> share then (True, m\<lparr>mm_vm := st2\<rparr>)
                         else (case remap_user_page_in_root (p_address_space_root parent) page parent_phys attr st2 of
                                 (ok, st3) \<Rightarrow> (ok, m\<lparr>mm_vm := st3\<rparr>)))))"

definition clone_page :: "'h frame_ops \<Rightarrow> process \<Rightarrow> process \<Rightarrow> vma_entry \<Rightarrow> u64 \<Rightarrow> 'h mem \<Rightarrow> bool \<times> 'h mem" where
  "clone_page ops parent child vma page m =
    (case read_user_leaf_in_root (mm_vm m) (p_address_space_root parent) page of
       None \<Rightarrow> (True, m)
     | Some (phys, attr) \<Rightarrow> clone_user_leaf ops parent child vma page phys attr m)"

fun clone_areas :: "'h frame_ops \<Rightarrow> process \<Rightarrow> process \<Rightarrow> vma_entry list \<Rightarrow> 'h mem \<Rightarrow> bool \<times> 'h mem" where
  "clone_areas ops parent child [] m = (True, m)"
| "clone_areas ops parent child (v # vs) m =
    (if \<not> v_used v \<or> v_backing v = BackingGuard then clone_areas ops parent child vs m
     else (case each_page (clone_page ops parent child v) (page_seq (v_start v) (v_end v)) m of
             (ok, m) \<Rightarrow> if \<not> ok then (False, m) else clone_areas ops parent child vs m))"

definition retain_file_backed_vmas :: "vma_collection \<Rightarrow> 'h mem \<Rightarrow> 'h mem" where
  "retain_file_backed_vmas vs m =
     fold (\<lambda>v m. if v_used v \<and> v_backing v = BackingFileBacked \<and> v_file_backing v \<noteq> None
                 then retain (v_file_backing v) m else m) (vc_entries vs) m"

definition clone_user_address_space_cow ::
    "'h frame_ops \<Rightarrow> (u64 \<Rightarrow> u64) \<Rightarrow> (process \<Rightarrow> u64 \<Rightarrow> 'h mem \<Rightarrow> bool \<times> 'h mem) \<Rightarrow> process \<Rightarrow> process \<Rightarrow> 'h mem
       \<Rightarrow> bool \<times> process \<times> 'h mem" where
  \<comment> \<open>\<open>attach\<close> stands for \<^verbatim>\<open>attach_mm_context\<close> and \<^verbatim>\<open>clone_process_kernel_stack_mapping\<close> with their own clean-up\<close>
  "clone_user_address_space_cow ops kernel_pml4 attach parent child m =
    (case derive_user_address_space_root ops kernel_pml4 (mm_vm m) of
       (child_root, st) \<Rightarrow>
         (let m1 = m\<lparr>mm_vm := st\<rparr> in
          if child_root = INVALID_PHYS_ADDR then (False, child, m1)
          else case attach child child_root m1 of
            (ok, m2) \<Rightarrow>
              if \<not> ok then (False, child, m2)
              else
                (let child' = child\<lparr>p_address_space_root := child_root, p_runtime_layout := p_runtime_layout parent,
                        p_vmas := p_vmas parent\<rparr>;
                     m3 = retain_file_backed_vmas (p_vmas child') m2
                 in case clone_areas ops parent child' (vc_entries (p_vmas parent)) m3 of
                      (ok, m4) \<Rightarrow> (ok, child', m4))))"

end
