(* ===== verification/Addr_Space_Correct.thy ===== *)
theory Addr_Space_Correct
  imports Addr_Space
begin

text \<open>
  Lemmas about the address-space operations: the invariant of the area table under every system call
  and page fault, what remapping a leaf and filling a frame change, the copy-on-write split, and the
  demand-zero page.
\<close>

section \<open>The area table across system calls\<close>

text \<open>Writing the materialisation marks of an area changes neither the shape of the table nor its
  permissions.\<close>

definition area_key :: "vma_entry \<Rightarrow> u64 \<times> u64 \<times> u8 \<times> bool" where
  "area_key x = (v_start x, v_end x, v_permissions x, v_used x)"

lemma map_key_update_first:
  "(\<And>x. area_key (g x) = area_key x) \<Longrightarrow> map area_key (update_first P g xs) = map area_key xs"
  by (induction xs) auto

lemma vma_inv_key:
  "vma_inv vs \<longleftrightarrow> length (map area_key (vc_entries vs)) = MAX_VMAS \<and>
     unat (vc_count vs) = length (filter (\<lambda>(s, e, q, u). u) (map area_key (vc_entries vs))) \<and>
     list_all (\<lambda>(s, e, q, u). vma_range_bounds s e \<and> \<not> permissions_wx q)
       (filter (\<lambda>(s, e, q, u). u) (map area_key (vc_entries vs))) \<and>
     sorted_wrt (\<lambda>(s, e, _) (s', e', _). e \<le> s' \<or> e' \<le> s)
       (filter (\<lambda>(s, e, q, u). u) (map area_key (vc_entries vs)))"
  by (simp add: vma_inv_def used_areas_def filter_map comp_def area_key_def sorted_wrt_map list_all_iff
      area_ok_def areas_apart_def[abs_def])

lemma vma_inv_update_first:
  "(\<And>x. area_key (g x) = area_key x) \<Longrightarrow>
   vma_inv (vs\<lparr>vc_entries := update_first P g (vc_entries vs)\<rparr>) = vma_inv vs"
  by (simp add: vma_inv_key map_key_update_first)

lemma areas_allowed_update_first:
  assumes "areas_allowed l vs" "\<And>x. area_key (g x) = area_key x"
    and "\<And>x. v_used x \<Longrightarrow> P x \<Longrightarrow> runtime_vma_allowed l x \<Longrightarrow> runtime_vma_allowed l (g x)"
  shows "areas_allowed l (vs\<lparr>vc_entries := update_first P g (vc_entries vs)\<rparr>)"
proof -
  have "list_all (runtime_vma_allowed l) (filter v_used (update_first P g xs))"
    if "list_all (runtime_vma_allowed l) (filter v_used xs)" for xs
    using that assms(2,3) by (induction xs) (auto simp: area_key_def)
  then show ?thesis using assms(1) by (simp add: areas_allowed_def used_areas_def)
qed

lemma table_indep [simp]:
  "vma_inv (vs\<lparr>vc_heap_break := b\<rparr>) = vma_inv vs" "vma_inv (vs\<lparr>vc_anon_next := b\<rparr>) = vma_inv vs"
  "vma_inv (vs\<lparr>vc_filemap_next := b\<rparr>) = vma_inv vs"
  "areas_allowed l (vs\<lparr>vc_heap_break := b\<rparr>) = areas_allowed l vs"
  "areas_allowed l (vs\<lparr>vc_anon_next := b\<rparr>) = areas_allowed l vs"
  "areas_allowed l (vs\<lparr>vc_filemap_next := b\<rparr>) = areas_allowed l vs"
  by (simp_all add: vma_inv_def areas_allowed_def used_areas_def)

text \<open>The marks may move within the area.\<close>

lemma allowed_materialized_end:
  assumes "runtime_vma_allowed l x" "v_start x \<le> e" "e \<le> v_end x"
  shows "runtime_vma_allowed l (x\<lparr>v_materialized_end := e\<rparr>)"
  using assms by (cases "v_purpose x") (auto simp: runtime_vma_allowed_def elf_backing_ok_def split: if_splits)

lemma allowed_materialized_start:
  assumes "runtime_vma_allowed l x" "v_start x \<le> e" "e \<le> v_end x"
  shows "runtime_vma_allowed l (x\<lparr>v_materialized_start := e\<rparr>)"
  using assms by (cases "v_purpose x") (auto simp: runtime_vma_allowed_def elf_backing_ok_def split: if_splits)

lemma page_down_align: "page_down a = align_down_page a"
  by (simp add: page_down_def align_down_page_def)

lemma page_aligned_mod: "page_aligned a \<longleftrightarrow> unat a mod 4096 = 0"
  using unat_page_offset_eq[of a] by (metis page_aligned_def page_offset_def unat_eq_zero)

lemma page_down_covered:
  assumes "vma_range_bounds s e" "page_down a < e"
  shows "page_down a + PAGE_SIZE \<le> e" "page_down a < page_down a + PAGE_SIZE"
proof -
  have e: "unat e mod 4096 = 0" using assms(1) by (auto simp: vma_range_bounds_def page_aligned_mod)
  have "q * 4096 + 4096 \<le> m" if "q * 4096 < m" "m mod 4096 = 0" for q m :: nat
  proof -
    from that(2) obtain r where "m = 4096 * r" by (auto simp: mod_eq_0_iff_dvd)
    with that(1) have "q < r" by simp
    then show ?thesis using \<open>m = 4096 * r\<close> by simp
  qed
  then have "unat (page_down a) + 4096 \<le> unat e"
    using assms(2) e by (simp add: page_down_align word_less_nat_alt unat_align_down)
  moreover from this have "unat (page_down a + PAGE_SIZE) = unat (page_down a) + 4096"
    using unat_u64_less[of e] by (subst unat_plus_if_no_wrap) (simp_all add: PAGE_SIZE_def)
  ultimately show "page_down a + PAGE_SIZE \<le> e" "page_down a < page_down a + PAGE_SIZE"
    by (simp_all add: word_le_nat_alt word_less_nat_alt)
qed

lemma page_up_Some: "page_up v = Some w \<Longrightarrow> v \<le> w"
  by (auto simp: page_up_def add_overflow_eq page_down_align word_le_nat_alt unat_align_down PAGE_SIZE_def
      unat_plus_if_no_wrap split: if_splits)

definition heap_ok :: "vma_collection \<Rightarrow> bool" where
  "heap_ok vs \<longleftrightarrow> vc_heap_base vs \<le> vc_heap_break vs \<and> vc_heap_break vs \<le> vc_heap_limit vs"

definition space_ok :: "process \<Rightarrow> bool" where
  "space_ok p \<longleftrightarrow> vma_inv (p_vmas p) \<and> areas_allowed (p_runtime_layout p) (p_vmas p) \<and> heap_ok (p_vmas p)"

definition same_heap :: "vma_collection \<Rightarrow> vma_collection \<Rightarrow> bool" where
  "same_heap vs vs' \<longleftrightarrow> vc_heap_base vs' = vc_heap_base vs \<and> vc_heap_break vs' = vc_heap_break vs \<and>
     vc_heap_limit vs' = vc_heap_limit vs"

lemma same_heap_ok: "same_heap vs vs' \<Longrightarrow> heap_ok vs \<Longrightarrow> heap_ok vs'"
  by (simp add: same_heap_def heap_ok_def)

lemma add_same_heap: "internal_add_vma vs e = Some vs' \<Longrightarrow> same_heap vs vs'"
  by (auto simp: internal_add_vma_def same_heap_def split: if_splits option.splits)

lemma stage_cut_same_heap: "stage_cut mid x a b vs = Some vs' \<Longrightarrow> same_heap vs vs'"
  by (fastforce simp: stage_cut_def add_vma_if_def internal_add_vma_def internal_remove_vma_def same_heap_def Let_def
      split: if_splits option.splits)

lemma stage_loop_same_heap:
  "stage_loop cmp mid vs cursor e st = Some st' \<Longrightarrow> same_heap st st'"
proof (induction cmp mid vs cursor e st rule: stage_loop.induct)
  case (1 cmp mid vs cursor e st)
  then show ?case
    by (subst (asm) (2) stage_loop.simps)
       (auto simp: Let_def same_heap_def split: if_splits option.splits dest!: stage_cut_same_heap)
qed

lemma space_ok_add:
  assumes "space_ok p" "internal_add_process_vma (p_runtime_layout p) (p_vmas p) e = Some vs"
  shows "space_ok (p\<lparr>p_vmas := vs\<rparr>)" "space_ok (p\<lparr>p_vmas := vs\<lparr>vc_anon_next := a\<rparr>\<rparr>)"
    "space_ok (p\<lparr>p_vmas := vs\<lparr>vc_filemap_next := a\<rparr>\<rparr>)"
proof -
  from assms(2) have *: "runtime_vma_allowed (p_runtime_layout p) e" "internal_add_vma (p_vmas p) e = Some vs"
    by (auto simp: internal_add_process_vma_def split: if_splits)
  with assms(1) have "vma_inv vs" "areas_allowed (p_runtime_layout p) vs" "heap_ok vs"
    by (auto simp: space_ok_def intro: internal_add_vma_inv areas_allowed_add same_heap_ok add_same_heap)
  then show "space_ok (p\<lparr>p_vmas := vs\<rparr>)" "space_ok (p\<lparr>p_vmas := vs\<lparr>vc_anon_next := a\<rparr>\<rparr>)"
    "space_ok (p\<lparr>p_vmas := vs\<lparr>vc_filemap_next := a\<rparr>\<rparr>)"
    by (simp_all add: space_ok_def heap_ok_def)
qed

lemma space_ok_staged:
  assumes "space_ok p" "stage_loop cmp mid (p_vmas p) a e (p_vmas p) = Some vs"
    and "\<And>x. cmp (Some x) \<Longrightarrow> v_purpose x = PurposeAnonymous \<or> v_purpose x = PurposeDynLib"
  shows "space_ok (p\<lparr>p_vmas := vs\<rparr>)"
proof -
  have inv: "vma_inv (p_vmas p)" "areas_allowed (p_runtime_layout p) (p_vmas p)" "heap_ok (p_vmas p)"
    using assms(1) by (simp_all add: space_ok_def)
  have "areas_allowed (p_runtime_layout p) vs"
    by (rule stage_loop_allowed[OF inv(1,1,2,2) assms(3,2)])
  then show ?thesis
    using stage_loop_whole(1)[OF inv(1) assms(2)] same_heap_ok[OF stage_loop_same_heap[OF assms(2)] inv(3)]
    by (simp add: space_ok_def)
qed


lemma space_ok_update_vma:
  assumes "space_ok p" "\<And>x. area_key (g x) = area_key x"
    and "\<And>x. area_covers page x \<Longrightarrow> runtime_vma_allowed (p_runtime_layout p) x \<Longrightarrow>
      runtime_vma_allowed (p_runtime_layout p) (g x)"
  shows "space_ok (update_vma_at page g p)"
  using assms by (auto simp: space_ok_def update_vma_at_def heap_ok_def vma_inv_update_first
      intro!: areas_allowed_update_first)

lemma allowed_bounds: "runtime_vma_allowed l x \<Longrightarrow> vma_range_bounds (v_start x) (v_end x)"
  by (auto simp: runtime_vma_allowed_def split: if_splits)

lemma raise_materialized_end_ok:
  assumes "space_ok p" shows "space_ok (update_vma_at (page_down a) (raise_materialized_end (page_down a)) p)"
proof (rule space_ok_update_vma[OF assms])
  fix x assume x: "area_covers (page_down a) x" "runtime_vma_allowed (p_runtime_layout p) x"
  then have c: "v_start x \<le> page_down a" "page_down a < v_end x" by (auto simp: area_covers_def)
  note b = page_down_covered[OF allowed_bounds[OF x(2)] c(2)]
  then have "v_start x \<le> page_down a + PAGE_SIZE" using c(1) by order
  with b x(2) show "runtime_vma_allowed (p_runtime_layout p) (raise_materialized_end (page_down a) x)"
    by (auto simp: raise_materialized_end_def intro!: allowed_materialized_end)
qed (simp add: raise_materialized_end_def area_key_def)

lemma lower_materialized_start_ok:
  assumes "space_ok p" shows "space_ok (update_vma_at page (\<lambda>v. v\<lparr>v_materialized_start := page\<rparr>) p)"
  by (rule space_ok_update_vma[OF assms])
     (auto simp: area_key_def area_covers_def intro!: allowed_materialized_start)

lemma allowed_lower_materialized_end:
  assumes "runtime_vma_allowed l x" "v_start x \<le> e" "e \<le> v_materialized_end x"
  shows "runtime_vma_allowed l (x\<lparr>v_materialized_end := e\<rparr>)"
  using assms by (cases "v_purpose x") (auto simp: runtime_vma_allowed_def elf_backing_ok_def split: if_splits)

lemma brk_space_ok:
  assumes "space_ok p" "brk_current ops cb b (Some p) st = (r, Some p', st')"
  shows "space_ok p' \<and> p_runtime_layout p' = p_runtime_layout p"
proof -
  have keep: "space_ok (p\<lparr>p_vmas := (set_heap_materialized e (p_vmas p))\<lparr>vc_heap_break := b\<rparr>\<rparr>)"
    "space_ok (p\<lparr>p_vmas := (p_vmas p)\<lparr>vc_heap_break := b\<rparr>\<rparr>)"
    if "vc_heap_base (p_vmas p) \<le> b" "b \<le> vc_heap_limit (p_vmas p)" "b \<le> e" for e
  proof -
    let ?g = "\<lambda>v. if e < v_materialized_end v then v\<lparr>v_materialized_end := e\<rparr> else v"
    have "vma_inv (set_heap_materialized e (p_vmas p))" "areas_allowed (p_runtime_layout p) (set_heap_materialized e (p_vmas p))"
      using assms(1) that unfolding set_heap_materialized_def space_ok_def
      by (auto simp: vma_inv_update_first area_key_def area_covers_def
          intro!: areas_allowed_update_first allowed_lower_materialized_end)
    then show "space_ok (p\<lparr>p_vmas := (set_heap_materialized e (p_vmas p))\<lparr>vc_heap_break := b\<rparr>\<rparr>)"
      "space_ok (p\<lparr>p_vmas := (p_vmas p)\<lparr>vc_heap_break := b\<rparr>\<rparr>)"
      using that assms(1) by (auto simp: space_ok_def heap_ok_def set_heap_materialized_def)
  qed
  from assms(2) consider "p' = p"
    | e where "vc_heap_base (p_vmas p) \<le> b" "b \<le> vc_heap_limit (p_vmas p)" "page_up b = Some e"
      "p' = p\<lparr>p_vmas := (set_heap_materialized e (p_vmas p))\<lparr>vc_heap_break := b\<rparr>\<rparr> \<or>
       p' = p\<lparr>p_vmas := (p_vmas p)\<lparr>vc_heap_break := b\<rparr>\<rparr>"
    by (auto simp: brk_current_def Let_def not_less split: if_splits option.splits)
  then show ?thesis
  proof cases
    case 2 with keep[OF 2(1,2) page_up_Some[OF 2(3)]] show ?thesis by auto
  qed (use assms(1) in auto)
qed

lemma mapping_calls_space_ok:
  assumes "space_ok p"
  shows "map_anonymous_current cb len perms flags (Some p) = (r, Some p') \<Longrightarrow>
      space_ok p' \<and> p_runtime_layout p' = p_runtime_layout p"
    and "map_file_current cb fdt fd off len perms flags (Some p) m = (r, Some p', m') \<Longrightarrow>
      space_ok p' \<and> p_runtime_layout p' = p_runtime_layout p"
    and "dyn_map_current cb base len perms (Some p) = (r, Some p') \<Longrightarrow>
      space_ok p' \<and> p_runtime_layout p' = p_runtime_layout p"
  using assms
  by (auto simp: map_anonymous_current_def map_file_current_def dyn_map_current_def Let_def space_ok_add
      split: if_splits option.splits)

lemma staged_calls_space_ok:
  assumes "space_ok p"
  shows "unmap_anonymous_current ops cb addr len (Some p) st = (r, Some p', st') \<Longrightarrow>
      space_ok p' \<and> p_runtime_layout p' = p_runtime_layout p"
    and "protect_anonymous_current cb addr len perms (Some p) st = (r, Some p', st') \<Longrightarrow>
      space_ok p' \<and> p_runtime_layout p' = p_runtime_layout p"
    and "dyn_protect_current cb addr len perms (Some p) st = (r, Some p', st') \<Longrightarrow>
      space_ok p' \<and> p_runtime_layout p' = p_runtime_layout p"
  using assms
  by (auto simp: unmap_anonymous_current_def protect_anonymous_current_def dyn_protect_current_def Let_def
      stage_anonymous_unmap_def stage_anonymous_protect_def stage_dyn_lib_protect_def
      anonymous_lifecycle_vma_compatible_def dyn_lib_protect_compatible_def
      split: if_splits option.splits prod.splits intro!: space_ok_staged)

lemma fault_process:
  assumes "try_handle_user_page_fault ops cb ca pread a code (Some p) m = (ok, Some p', m')"
  shows "p' = p \<or> p' = update_vma_at (page_down a) (raise_materialized_end (page_down a)) p \<or>
    p' = update_vma_at (page_down a) (\<lambda>v. v\<lparr>v_materialized_start := page_down a\<rparr>) p"
  using assms
  by (auto simp: try_handle_user_page_fault_def materialize_file_backed_page_def materialize_new_page_def
      map_shared_mapping_def materialize_anonymous_def Let_def split: if_splits option.splits prod.splits)

lemma fault_space_ok:
  assumes "space_ok p" "try_handle_user_page_fault ops cb ca pread a code (Some p) m = (ok, Some p', m')"
  shows "space_ok p' \<and> p_runtime_layout p' = p_runtime_layout p"
  using fault_process[OF assms(2)] assms(1) raise_materialized_end_ok lower_materialized_start_ok
  by (auto simp: update_vma_at_def)


text \<open>One step of a process: a memory system call with any arguments, or a page fault, whatever the
  answers of the scheduler, the file table and the file system.\<close>

inductive space_step :: "'h frame_ops \<Rightarrow> process \<times> 'h mem \<Rightarrow> process \<times> 'h mem \<Rightarrow> bool" for ops where
  step_brk: "brk_current ops cb b (Some p) (mm_vm m) = (r, Some p', st) \<Longrightarrow> space_step ops (p, m) (p', m\<lparr>mm_vm := st\<rparr>)"
| step_mmap: "map_anonymous_current cb len perms flags (Some p) = (r, Some p') \<Longrightarrow> space_step ops (p, m) (p', m)"
| step_munmap: "unmap_anonymous_current ops cb addr len (Some p) (mm_vm m) = (r, Some p', st) \<Longrightarrow>
    space_step ops (p, m) (p', m\<lparr>mm_vm := st\<rparr>)"
| step_mprotect: "protect_anonymous_current cb addr len perms (Some p) (mm_vm m) = (r, Some p', st) \<Longrightarrow>
    space_step ops (p, m) (p', m\<lparr>mm_vm := st\<rparr>)"
| step_map_file: "map_file_current cb fdt fd off len perms flags (Some p) m = (r, Some p', m') \<Longrightarrow>
    space_step ops (p, m) (p', m')"
| step_dyn_map: "dyn_map_current cb base len perms (Some p) = (r, Some p') \<Longrightarrow> space_step ops (p, m) (p', m)"
| step_dyn_protect: "dyn_protect_current cb addr len perms (Some p) (mm_vm m) = (r, Some p', st) \<Longrightarrow>
    space_step ops (p, m) (p', m\<lparr>mm_vm := st\<rparr>)"
| step_fault: "try_handle_user_page_fault ops cb ca pread a code (Some p) m = (ok, Some p', m') \<Longrightarrow>
    space_step ops (p, m) (p', m')"

lemma space_step_ok:
  "space_step ops s s' \<Longrightarrow> space_ok (fst s) \<Longrightarrow>
   space_ok (fst s') \<and> p_runtime_layout (fst s') = p_runtime_layout (fst s)"
proof (induction rule: space_step.induct)
  case (step_brk cb b p m r p' st) then show ?case using brk_space_ok by fastforce
qed (auto dest: mapping_calls_space_ok staged_calls_space_ok fault_space_ok)

section \<open>Single leaves\<close>

lemma leaf_split: "frame_of d OR d AND NOT PAGING_DESCRIPTOR_ADDR_MASK = d"
  by (rule bit_word_eqI) (auto simp: bit_simps)

lemma read_user_leaf_view:
  assumes "read_user_leaf_in_root st root v = Some (phys, attr)"
  obtains d where "leaf_at st root v = Some d" "d AND ATTR_USER \<noteq> 0" "phys = frame_of d"
    "attr = d AND NOT PAGING_DESCRIPTOR_ADDR_MASK" "v AND (PAGE_SIZE - 1) = 0" "root \<noteq> INVALID_PHYS_ADDR"
  using assms by (auto simp: read_user_leaf_in_root_def leaf_at_def is_user_leaf_def split: if_splits option.splits)

lemma remap_view:
  assumes wf: "pt_wf own st" and r: "is_root own root" and u: "user_addr v" and attr: "attr AND 1 \<noteq> 0"
    and res: "remap_user_page_in_root root v phys attr st = (True, st')"
  shows "pt_wf own st'" "v AND (PAGE_SIZE - 1) = 0"
    "is_root own root' \<Longrightarrow> user_addr w \<Longrightarrow> w AND (PAGE_SIZE - 1) = 0 \<Longrightarrow>
      leaf_at st' root' w =
        (if frame_of root' = frame_of root \<and> w = v then Some (frame_of phys OR attr) else leaf_at st root' w)"
proof -
  from res obtain pt i where pte: "root_pte st root v = Some (pt, i)" and al: "v AND (PAGE_SIZE - 1) = 0"
    and st': "st' = set_entry pt i (frame_of phys OR attr) st"
    by (auto simp: remap_user_page_in_root_def split: if_splits option.splits)
  note pt = root_pte_own[OF wf r u pte]
  show "pt_wf own st'" unfolding st' by (rule set_leaf_wf[OF wf pt(1)]) simp
  show "v AND (PAGE_SIZE - 1) = 0" by (rule al)
  have "paging_present (frame_of phys OR attr)"
  proof -
    have "bit attr 0" using attr paging_present_bit[of attr] by (simp add: paging_present_def)
    then show ?thesis by (simp add: paging_present_bit bit_or_iff)
  qed
  then show "leaf_at st' root' w =
      (if frame_of root' = frame_of root \<and> w = v then Some (frame_of phys OR attr) else leaf_at st root' w)"
    if "is_root own root'" "user_addr w" "w AND (PAGE_SIZE - 1) = 0"
    unfolding st' using set_leaf_view[OF wf pte r that(1) u that(2) al that(3)] by simp
qed

lemma remap_keeps:
  "remap_user_page_in_root root v phys attr st = (ok, st') \<Longrightarrow>
   vm_heap st' = vm_heap st \<and> vm_bytes st' = vm_bytes st \<and> vm_refs st' = vm_refs st \<and> vm_refs_max st' = vm_refs_max st \<and> vm_direct st' = vm_direct st"
  by (auto simp: remap_user_page_in_root_def set_entry_def split: if_splits option.splits)

lemma remap_False: "remap_user_page_in_root root v phys attr st = (False, st') \<Longrightarrow> st' = st"
  by (auto simp: remap_user_page_in_root_def split: if_splits option.splits)

lemma leaf_present: "leaf_at st root v = Some d \<Longrightarrow> bit d 0"
  by (auto simp: leaf_at_def paging_present_bit split: option.splits if_splits)

lemma remap_present:
  assumes "leaf_at st root v = Some d" "d AND ATTR_USER \<noteq> 0" "v AND (PAGE_SIZE - 1) = 0" "root \<noteq> INVALID_PHYS_ADDR"
    "phys AND (PAGE_SIZE - 1) = 0"
  shows "fst (remap_user_page_in_root root v phys attr st)"
  using assms by (auto simp: leaf_at_def is_user_leaf_def remap_user_page_in_root_def split: if_splits option.splits)

lemma frame_aligned: "frame_of d AND (PAGE_SIZE - 1) = 0"
  unfolding page_mask by (rule bit_word_eqI) (auto simp: bit_simps bit_addr_mask)

text \<open>Two distinct frames share no byte.\<close>

lemma frame_align_down: "frame_of f = f \<Longrightarrow> align_down_page f = f"
  by (rule bit_word_eqI) (metis align_down_bits bit_frame_of)

lemma frame_add: "frame_of f = f \<Longrightarrow> k < PAGE_SIZE \<Longrightarrow> align_down_page (f + k) = f"
proof -
  assume f: "frame_of f = f" and k: "k < PAGE_SIZE"
  have "page_offset f = 0" using frame_aligned[of f] f by (simp add: page_offset_def)
  then have "align_down_page (f + word_of_nat (unat k)) = align_down_page f"
    using k by (intro page_add(2)) (simp add: word_less_nat_alt PAGE_SIZE_def)
  then show ?thesis using f by (simp add: frame_align_down)
qed

lemma frames_apart:
  assumes "frame_of f = f" "frame_of g = g" "f \<noteq> g" "k < PAGE_SIZE"
  shows "\<not> g + k - f < PAGE_SIZE"
proof
  assume "g + k - f < PAGE_SIZE"
  from frame_add[OF assms(1) this] frame_add[OF assms(2,4)] assms(3) show False by simp
qed

lemma set_page_simps [simp]:
  "vm_tables (set_page f g st) = vm_tables st" "vm_heap (set_page f g st) = vm_heap st"
  "vm_direct (set_page f g st) = vm_direct st" "vm_refs (set_page f g st) = vm_refs st"
  "vm_refs_max (set_page f g st) = vm_refs_max st"
  by (simp_all add: set_page_def)

lemma set_page_bytes:
  "k < PAGE_SIZE \<Longrightarrow> vm_bytes (set_page f g st) (f + k) = g k"
  "frame_of f = f \<Longrightarrow> frame_of h = h \<Longrightarrow> f \<noteq> h \<Longrightarrow> k < PAGE_SIZE \<Longrightarrow> vm_bytes (set_page f g st) (h + k) = vm_bytes st (h + k)"
  by (simp_all add: set_page_def frames_apart)

lemma set_page_views [simp]:
  "pt_wf own (set_page f g st) = pt_wf own st" "leaf_at (set_page f g st) = leaf_at st"
  by (simp_all add: set_page_def)

lemma phys_to_direct_Some: "phys_to_direct st p = Some d \<Longrightarrow> d = p"
  by (auto simp: phys_to_direct_def split: if_splits)


section \<open>Copy-on-write split\<close>

lemma attr_bits:
  "(x :: u64) AND ATTR_PRESENT = 0 \<longleftrightarrow> \<not> bit x 0" "x AND ATTR_WRITABLE = 0 \<longleftrightarrow> \<not> bit x 1"
  "x AND ATTR_USER = 0 \<longleftrightarrow> \<not> bit x 2" "x AND ATTR_PTE_COW = 0 \<longleftrightarrow> \<not> bit x 9"
  "x AND ATTR_NO_EXECUTE = 0 \<longleftrightarrow> \<not> bit x 63"
proof -
  have "x AND 2 ^ n = 0 \<longleftrightarrow> \<not> bit x n" for n by (rule and_exp_eq_0_iff_not_bit)
  from this[of 0] this[of 1] this[of 2] this[of 9] this[of 63]
  show "x AND ATTR_PRESENT = 0 \<longleftrightarrow> \<not> bit x 0" "x AND ATTR_WRITABLE = 0 \<longleftrightarrow> \<not> bit x 1"
    "x AND ATTR_USER = 0 \<longleftrightarrow> \<not> bit x 2" "x AND ATTR_PTE_COW = 0 \<longleftrightarrow> \<not> bit x 9"
    "x AND ATTR_NO_EXECUTE = 0 \<longleftrightarrow> \<not> bit x 63"
    by (simp_all add: attr_defs)
qed

lemma attr_const_bits:
  "bit ATTR_PRESENT n \<longleftrightarrow> n = 0" "bit ATTR_WRITABLE n \<longleftrightarrow> n = 1" "bit ATTR_USER n \<longleftrightarrow> n = 2"
  "bit ATTR_PTE_COW n \<longleftrightarrow> n = 9" "bit ATTR_NO_EXECUTE n \<longleftrightarrow> n = 63"
proof -
  have "bit (2 ^ k :: u64) n \<longleftrightarrow> n = k" if "k < 64" for k using that by (auto simp: bit_simps)
  from this[of 0] this[of 1] this[of 2] this[of 9] this[of 63]
  show "bit ATTR_PRESENT n \<longleftrightarrow> n = 0" "bit ATTR_WRITABLE n \<longleftrightarrow> n = 1" "bit ATTR_USER n \<longleftrightarrow> n = 2"
    "bit ATTR_PTE_COW n \<longleftrightarrow> n = 9" "bit ATTR_NO_EXECUTE n \<longleftrightarrow> n = 63"
    by (simp_all add: attr_defs)
qed

lemma one_bit: "(x :: u64) AND 1 = 0 \<longleftrightarrow> \<not> bit x 0"
  using attr_bits(1)[of x] by (simp add: ATTR_PRESENT_def)

text \<open>What a successful split leaves at the page: \<open>d\<close> before, \<open>d'\<close> after.\<close>

definition split_leaf :: "u64 \<Rightarrow> u64 \<Rightarrow> bool" where
  "split_leaf d d' \<longleftrightarrow> d' AND ATTR_WRITABLE \<noteq> 0 \<and> d' AND ATTR_PTE_COW = 0 \<and> d' AND ATTR_USER \<noteq> 0 \<and>
     (d' AND ATTR_NO_EXECUTE = 0 \<longleftrightarrow> d AND ATTR_NO_EXECUTE = 0)"

lemma split_leaf_attr:
  fixes d f :: u64
  assumes "d AND ATTR_USER \<noteq> 0"
  shows "split_leaf d (frame_of f OR ((d AND NOT PAGING_DESCRIPTOR_ADDR_MASK) AND NOT ATTR_PTE_COW OR ATTR_WRITABLE))"
  using assms by (simp add: split_leaf_def attr_bits) (simp add: bit_simps attr_const_bits bit_addr_mask)

lemma frame_of_or_attr:
  "frame_of ((d :: u64) AND NOT PAGING_DESCRIPTOR_ADDR_MASK) = 0"
  "frame_of (f OR ((d AND NOT PAGING_DESCRIPTOR_ADDR_MASK) AND NOT ATTR_PTE_COW OR ATTR_WRITABLE)) = frame_of f"
  by (rule bit_word_eqI, auto simp: bit_simps attr_const_bits bit_addr_mask)+

lemma frame_ref_is_shared_cong:
  "vm_refs st' = vm_refs st \<Longrightarrow> vm_refs_max st' = vm_refs_max st \<Longrightarrow> frame_ref_is_shared st' p = frame_ref_is_shared st p"
  by (simp only: frame_ref_is_shared_def frame_refcount_slot_def)

lemma frame_ref_dec_shared:
  assumes "frame_ref_is_shared st p" "frame_of p = p"
  shows "vm_tables (frame_ref_dec_and_maybe_free ops p st) = vm_tables st"
    "vm_bytes (frame_ref_dec_and_maybe_free ops p st) = vm_bytes st"
    "vm_direct (frame_ref_dec_and_maybe_free ops p st) = vm_direct st"
    "vm_heap (frame_ref_dec_and_maybe_free ops p st) = vm_heap st"
  using assms by (auto simp: frame_ref_is_shared_def frame_ref_dec_and_maybe_free_def Let_def split: option.splits)


lemma cow_split_cases:
  assumes "cow_split_current ops p page vma st = (ok, st')"
  obtains (refused) "\<not> ok" "st' = st"
  | (failed) st1 new where "\<not> ok" "alloc_frame ops st = (new, st1)" "st' = st1 \<or> new \<noteq> 0 \<and> st' = free_frame ops new st1"
  | (alone) d where "read_user_leaf_in_root st (p_address_space_root p) page = Some (frame_of d, d AND NOT PAGING_DESCRIPTOR_ADDR_MASK)"
      "\<not> frame_ref_is_shared st (frame_of d)"
      "remap_user_page_in_root (p_address_space_root p) page (frame_of d)
         ((d AND NOT PAGING_DESCRIPTOR_ADDR_MASK) AND NOT ATTR_PTE_COW OR ATTR_WRITABLE) st = (ok, st')"
  | (shared) d st1 new st2 ok2 where
      "read_user_leaf_in_root st (p_address_space_root p) page = Some (frame_of d, d AND NOT PAGING_DESCRIPTOR_ADDR_MASK)"
      "frame_ref_is_shared st (frame_of d)" "alloc_frame ops st = (new, st1)" "new \<noteq> 0"
      "remap_user_page_in_root (p_address_space_root p) page new
         ((d AND NOT PAGING_DESCRIPTOR_ADDR_MASK) AND NOT ATTR_PTE_COW OR ATTR_WRITABLE)
         (copy_frame new (frame_of d) st1) = (ok2, st2)"
      "ok2 \<Longrightarrow> ok \<and> st' = frame_ref_dec_and_maybe_free ops (frame_of d) st2"
proof (cases "read_user_leaf_in_root st (p_address_space_root p) page")
  case None
  with assms show thesis by (intro refused) (auto simp: cow_split_current_def)
next
  case (Some leaf)
  then obtain d where d: "read_user_leaf_in_root st (p_address_space_root p) page =
      Some (frame_of d, d AND NOT PAGING_DESCRIPTOR_ADDR_MASK)"
    by (cases leaf) (auto elim!: read_user_leaf_view)
  obtain new st1 where al: "alloc_frame ops st = (new, st1)" by fastforce
  let ?attr = "(d AND NOT PAGING_DESCRIPTOR_ADDR_MASK) AND NOT ATTR_PTE_COW OR ATTR_WRITABLE"
  obtain ok2 st2 where re: "remap_user_page_in_root (p_address_space_root p) page new ?attr
      (copy_frame new (frame_of d) st1) = (ok2, st2)" by fastforce
  note res = assms[unfolded cow_split_current_def alloc_user_frame_def free_user_frame_def Let_def d option.case prod.case al]
  show thesis
  proof (cases "\<not> runtime_vma_allowed (p_runtime_layout p) vma \<or> \<not> internal_vma_attr_allowed (Some vma) ?attr")
    case True
    with res show thesis by (intro refused) auto
  next
    case ok: False
    show thesis
    proof (cases "frame_ref_is_shared st (frame_of d)")
      case False
      with res ok d show thesis by (intro alone) auto
    next
      case sh: True
      show thesis
      proof (cases "new = 0 \<or> phys_to_direct st1 (frame_of d) = None \<or> phys_to_direct st1 new = None")
        case True
        with res ok sh show thesis by (intro failed[OF _ al]) (auto split: option.splits if_splits)
      next
        case False
        then have "phys_to_direct st1 (frame_of d) = Some (frame_of d)" "phys_to_direct st1 new = Some new" "new \<noteq> 0"
          by (auto simp: phys_to_direct_def split: if_splits)
        with res ok sh re show thesis by (intro shared[OF d sh al _ re]) auto
      qed
    qed
  qed
qed


lemma pt_inv_heap_indep:
  "pt_wf own st' = pt_wf own st \<Longrightarrow> vm_heap st' = vm_heap st \<Longrightarrow> pt_inv hinv frees own st' = pt_inv hinv frees own st"
  by (simp add: pt_inv_def)

lemma alloc_frame_keeps:
  "alloc_frame ops st = (p, st1) \<Longrightarrow> \<exists>h. fo_alloc ops (vm_heap st) = (p, h) \<and> st1 = st\<lparr>vm_heap := h\<rparr>"
  by (auto simp: alloc_frame_def split: prod.splits)

lemma alloc_frame_free:
  assumes "frame_allocator ops hinv frees" "pt_inv hinv frees own st" "alloc_frame ops st = (p, st1)" "p \<noteq> 0"
  shows "p \<in> frees (vm_heap st)" "frame_of p = p" "own p = None" "p \<notin> frees (vm_heap st1)"
    "frees (vm_heap st1) \<subseteq> frees (vm_heap st)"
proof -
  from alloc_frame_keeps[OF assms(3)] obtain h where h: "fo_alloc ops (vm_heap st) = (p, h)" "st1 = st\<lparr>vm_heap := h\<rparr>" by blast
  from frame_allocator.alloc_laws[OF assms(1) _ h(1)] assms(2,4) h(2)
  show "p \<in> frees (vm_heap st)" "frame_of p = p" "own p = None" "p \<notin> frees (vm_heap st1)"
    "frees (vm_heap st1) \<subseteq> frees (vm_heap st)"
    by (auto simp: pt_inv_def)
qed

text \<open>\<open>others_kept\<close>: no leaf but one of one root changes, and no byte of a frame that was not free.\<close>

definition others_kept :: "u64 set \<Rightarrow> positions \<Rightarrow> u64 \<Rightarrow> u64 \<Rightarrow> 'h vm_state \<Rightarrow> 'h vm_state \<Rightarrow> bool" where
  "others_kept free own root page st st' \<longleftrightarrow>
     (\<forall>r w. is_root own r \<and> user_addr w \<and> w AND (PAGE_SIZE - 1) = 0 \<and> \<not> (frame_of r = frame_of root \<and> w = page) \<longrightarrow>
        leaf_at st' r w = leaf_at st r w) \<and>
     (\<forall>g k. frame_of g = g \<and> g \<notin> free \<and> k < PAGE_SIZE \<longrightarrow> vm_bytes st' (g + k) = vm_bytes st (g + k))"

lemma others_kept_refl [simp]: "others_kept free own root page st st"
  by (simp add: others_kept_def)

lemma failed_alloc_kept:
  assumes fa: "frame_allocator ops hinv frees" and inv: "pt_inv hinv frees own st"
    and al: "alloc_frame ops st = (new, st1)" and st': "st' = st1 \<or> new \<noteq> 0 \<and> st' = free_frame ops new st1"
  shows "pt_inv hinv frees own st'" "leaf_at st' = leaf_at st" "others_kept free own root page st st'"
proof -
  have inv1: "pt_inv hinv frees own st1" using frame_allocator.alloc_frame_inv(1)[OF fa inv al] .
  show "pt_inv hinv frees own st'"
    using st' inv1 frame_allocator.free_frame_inv[OF fa inv1, of new] alloc_frame_free[OF fa inv al] by auto
  from alloc_frame_keeps[OF al] st' show "leaf_at st' = leaf_at st" "others_kept free own root page st st'"
    by (auto simp: free_frame_def others_kept_def)
qed

lemma pt_wf_cong: "vm_tables st' = vm_tables st \<Longrightarrow> pt_wf own st' = pt_wf own st"
  by (simp only: pt_wf_def)

lemma remap_kept:
  assumes "pt_inv hinv frees own st" "is_root own root" "user_addr v" "attr AND 1 \<noteq> 0"
    and "remap_user_page_in_root root v phys attr st = (True, st')"
  shows "pt_inv hinv frees own st'" "others_kept free own root v st st'" "leaf_at st' root v = Some (frame_of phys OR attr)"
proof -
  have wf: "pt_wf own st" using assms(1) by (simp add: pt_inv_def)
  note rv = remap_view[OF wf assms(2-5)] and rk = remap_keeps[OF assms(5)]
  show "pt_inv hinv frees own st'" using rv(1) rk assms(1) by (simp add: pt_inv_def)
  show "others_kept free own root v st st'" using rv(3) rk by (simp add: others_kept_def)
  show "leaf_at st' root v = Some (frame_of phys OR attr)" using rv(3)[OF assms(2,3) rv(2)] by simp
qed

lemma split_attr_present: "bit d 0 \<Longrightarrow> (((d :: u64) AND NOT PAGING_DESCRIPTOR_ADDR_MASK) AND NOT ATTR_PTE_COW OR ATTR_WRITABLE) AND 1 \<noteq> 0"
  by (simp add: one_bit) (simp add: bit_simps attr_const_bits bit_addr_mask)

lemma others_kept_trans:
  assumes "others_kept free own root page st st1" "others_kept free own root page st1 st2"
  shows "others_kept free own root page st st2"
  using assms by (simp add: others_kept_def)

lemma cow_split_ok:
  assumes fa: "frame_allocator ops hinv frees" and inv: "pt_inv hinv frees own st"
    and r: "is_root own (p_address_space_root p)" and u: "user_addr page"
    and leaf: "leaf_at st (p_address_space_root p) page = Some d" and nf: "frame_of d \<notin> frees (vm_heap st)"
    and res: "cow_split_current ops p page vma st = (ok, st')"
  shows "pt_inv hinv frees own st' \<and> others_kept (frees (vm_heap st)) own (p_address_space_root p) page st st' \<and>
    (if \<not> ok then leaf_at st' (p_address_space_root p) page = Some d
     else \<exists>d'. leaf_at st' (p_address_space_root p) page = Some d' \<and> split_leaf d d' \<and>
       (\<forall>k<PAGE_SIZE. vm_bytes st' (frame_of d' + k) = vm_bytes st (frame_of d + k)) \<and>
       (if frame_ref_is_shared st (frame_of d) then frame_of d' \<in> frees (vm_heap st) else frame_of d' = frame_of d))"
  using res
proof (cases rule: cow_split_cases)
  case refused
  then show ?thesis using inv leaf by simp
next
  case (failed st1 new)
  then show ?thesis using failed_alloc_kept[OF fa inv failed(2,3)] leaf by simp
next
  case (alone d0)
  have d0: "frame_of d0 = frame_of d" "d0 AND NOT PAGING_DESCRIPTOR_ADDR_MASK = d AND NOT PAGING_DESCRIPTOR_ADDR_MASK"
    and us: "d AND ATTR_USER \<noteq> 0" "page AND (PAGE_SIZE - 1) = 0" "p_address_space_root p \<noteq> INVALID_PHYS_ADDR"
    using alone(1) leaf by (auto elim: read_user_leaf_view)
  have ok: ok using remap_present[OF leaf us frame_aligned] alone(3) by (metis fst_conv)
  note kept = remap_kept[OF inv r u split_attr_present[OF leaf_present[OF leaf]] alone(3)[unfolded d0 eqTrueI[OF ok]]]
  have "vm_bytes st' = vm_bytes st" using remap_keeps[OF alone(3)] by simp
  with kept ok alone(2) show ?thesis
    by (auto simp: d0 frame_of_or_attr intro!: exI split_leaf_attr us)
next
  case (shared d0 st1 new st2 ok2)
  have d0: "frame_of d0 = frame_of d" "d0 AND NOT PAGING_DESCRIPTOR_ADDR_MASK = d AND NOT PAGING_DESCRIPTOR_ADDR_MASK"
    and us: "d AND ATTR_USER \<noteq> 0" "page AND (PAGE_SIZE - 1) = 0" "p_address_space_root p \<noteq> INVALID_PHYS_ADDR"
    using shared(1) leaf by (auto elim: read_user_leaf_view)
  let ?s = "copy_frame new (frame_of d) st1"
  note new = alloc_frame_free[OF fa inv shared(3,4)]
  have inv1: "pt_inv hinv frees own st1" by (rule frame_allocator.alloc_frame_inv(1)[OF fa inv shared(3)])
  have st1: "vm_tables st1 = vm_tables st" "vm_direct st1 = vm_direct st" "vm_bytes st1 = vm_bytes st"
    "vm_refs st1 = vm_refs st" "vm_refs_max st1 = vm_refs_max st" "leaf_at st1 = leaf_at st"
    using alloc_frame_keeps[OF shared(3)] by auto
  have inv_s: "pt_inv hinv frees own ?s" using inv1 by (simp add: pt_inv_def copy_frame_def)
  have leaf_s: "leaf_at ?s = leaf_at st" by (simp add: copy_frame_def st1)
  have ne: "new \<noteq> frame_of d" using new(1) nf by auto
  have bytes_s: "vm_bytes ?s (g + k) = (if g = new then vm_bytes st (frame_of d + k) else vm_bytes st (g + k))"
    if "frame_of g = g" "k < PAGE_SIZE" for g k
    using that new(2) by (auto simp: copy_frame_def set_page_bytes st1)
  have "leaf_at ?s (p_address_space_root p) page = Some d" using leaf by (simp add: leaf_s)
  from remap_present[OF this us, of new] shared(5)[unfolded d0] frame_aligned[of new] new(2) have ok2: ok2
    by (metis fst_conv)
  from shared(6)[OF ok2] have ok: ok and st': "st' = frame_ref_dec_and_maybe_free ops (frame_of d) st2" by (simp_all add: d0)
  note kept = remap_kept[OF inv_s r u split_attr_present[OF leaf_present[OF leaf]] shared(5)[unfolded d0 eqTrueI[OF ok2]]]
  note keep2 = remap_keeps[OF shared(5)]
  have "frame_ref_is_shared st2 (frame_of d) = frame_ref_is_shared st (frame_of d)"
    using keep2 by (intro frame_ref_is_shared_cong) (simp_all add: copy_frame_def st1)
  with shared(2) d0 have sh2: "frame_ref_is_shared st2 (frame_of d)" by simp
  note dec = frame_ref_dec_shared[OF sh2 frame_of_idem, of ops, folded st']
  have leaf': "leaf_at st' = leaf_at st2" by (intro ext leaf_at_cong dec)
  have "pt_inv hinv frees own st'" using kept(1) pt_wf_cong[OF dec(1)] dec(4) by (simp add: pt_inv_def)
  moreover have "others_kept (frees (vm_heap st)) own (p_address_space_root p) page st st'"
    using kept(2) new(1) keep2 by (auto simp: others_kept_def leaf' dec leaf_s bytes_s)
  moreover have "leaf_at st' (p_address_space_root p) page =
      Some (new OR ((d AND NOT PAGING_DESCRIPTOR_ADDR_MASK) AND NOT ATTR_PTE_COW OR ATTR_WRITABLE))"
    using kept(3) new(2) by (simp add: leaf')
  ultimately show ?thesis
    using ok sh2 new keep2 split_leaf_attr[OF us(1), of new] shared(2)
    by (auto simp: frame_of_or_attr dec bytes_s d0)
qed


section \<open>Demand-zero pages\<close>

text \<open>Mapping a page touches tables, the registry and the heap, not the data of user frames or their counts.\<close>

definition data_of :: "'h vm_state \<Rightarrow> (u64 \<Rightarrow> u8) \<times> (u64 \<Rightarrow> u16) \<times> u64 option" where
  "data_of st = (vm_bytes st, vm_refs st, vm_refs_max st)"

lemma meta_ops_data:
  "register_page_table root f ow lv st = Some st' \<Longrightarrow> data_of st' = data_of st"
  "increment_present_entry f st = Some st' \<Longrightarrow> data_of st' = data_of st"
  "decrement_present_entry f st = Some st' \<Longrightarrow> data_of st' = data_of st"
  "data_of (unregister_page_table f st) = data_of st" "data_of (free_frame ops f st) = data_of st"
  "data_of (set_entry f i d st) = data_of st" "data_of (zero_table f st) = data_of st"
  "alloc_frame ops st = (p, st') \<Longrightarrow> data_of st' = data_of st"
  by (auto simp: data_of_def register_page_table_def increment_present_entry_def decrement_present_entry_def update_metadata_def
      unregister_page_table_def free_frame_def set_entry_def zero_table_def alloc_frame_def
      split: if_splits option.splits prod.splits)

lemma clear_owned_data: "data_of (clear_owned_paging_descriptors ops cs st) = data_of st"
  by (induction cs) (auto simp: Let_def meta_ops_data split: option.splits)

lemma ensure_owned_data:
  "ensure_owned_descriptor ops f i attr par root ow lv st ch = (ok, st', ch') \<Longrightarrow> data_of st' = data_of st"
  by (auto simp: ensure_owned_descriptor_def Let_def meta_ops_data split: if_splits option.splits prod.splits
      dest!: meta_ops_data(1,2,8))

lemma map_descend_data:
  "map_descend ops f i attr par root lv st ch = Inl st' \<Longrightarrow> data_of st' = data_of st"
  "map_descend ops f i attr par root lv st ch = Inr (f', st', ch') \<Longrightarrow> data_of st' = data_of st"
  by (auto simp: map_descend_def clear_owned_data split: prod.splits if_splits option.splits dest!: ensure_owned_data)

lemma map_page_data: "map_page_in_root ops root v phys attr st = (ok, st') \<Longrightarrow> data_of st' = data_of st"
  by (auto simp: map_page_in_root_def map_root_page_def map_leaf_def Let_def clear_owned_data meta_ops_data
      split: if_splits option.splits sum.splits prod.splits dest!: map_descend_data meta_ops_data(2))

lemma map_page_keeps:
  "map_page_in_root ops root v phys attr st = (ok, st') \<Longrightarrow>
   vm_bytes st' = vm_bytes st \<and> vm_refs st' = vm_refs st \<and> vm_refs_max st' = vm_refs_max st"
  using map_page_data by (fastforce simp: data_of_def)

lemma map_page_outcome:
  assumes fa: "frame_allocator ops hinv frees" and inv: "pt_inv hinv frees own st" and r: "is_root own root"
    and u: "user_addr v" and attr: "attr AND 1 \<noteq> 0" and res: "map_page_in_root ops root v phys attr st = (ok, st')"
  shows "\<exists>own'. map_outcome hinv frees own st root v (frame_of phys OR attr) ok own' st'"
proof (cases "root = INVALID_PHYS_ADDR \<or> v AND (PAGE_SIZE - 1) \<noteq> 0 \<or> phys AND (PAGE_SIZE - 1) \<noteq> 0")
  case True
  then have "ok = False" "st' = st" using res by (auto simp: map_page_in_root_def)
  then show ?thesis using inv by (auto simp: map_outcome_def)
next
  case False
  then have "map_root_page ops root v phys attr st = (ok, st')" "v AND (PAGE_SIZE - 1) = 0"
    using res by (auto simp: map_page_in_root_def)
  from frame_allocator.map_root_page_correct[OF fa inv r u this(2) attr this(1)] show ?thesis .
qed

lemma anonymous_page_attr_bits:
  "bit (anonymous_page_attr q) n \<longleftrightarrow> n = 0 \<or> n = 2 \<or> (n = 1 \<and> permissions_include q PermWrite) \<or>
     (n = 63 \<and> \<not> permissions_include q PermExecute)"
  by (auto simp: anonymous_page_attr_def Let_def bit_or_iff attr_const_bits)

lemma map_user_page_cases:
  assumes "map_user_page_for_process ops p v phys attr st = (ok, st')"
  shows "map_page_in_root ops (p_address_space_root p) v phys attr st = (ok, st') \<or> \<not> ok \<and> st' = st"
  using assms unfolding map_user_page_for_process_def Let_def by (metis prod.inject)

lemma materialize_anonymous_cases:
  assumes "materialize_anonymous ops page vma p st = (ok, p', st')"
  obtains (failed) st1 new where "\<not> ok" "p' = p" "alloc_frame ops st = (new, st1)" "st' = st1 \<or> new \<noteq> 0 \<and> st' = free_frame ops new st1"
  | (mapped) st1 new st2 where "alloc_frame ops st = (new, st1)" "new \<noteq> 0"
      "map_page_in_root ops (p_address_space_root p) page new (anonymous_page_attr (v_permissions vma))
         (set_page new (\<lambda>_. 0) st1) = (ok, st2)"
      "if ok then st' = st2 else st' = free_frame ops new st2 \<and> p' = p"
  | (denied) st1 new where "\<not> ok" "p' = p" "alloc_frame ops st = (new, st1)" "new \<noteq> 0" "st' = free_frame ops new (set_page new (\<lambda>_. 0) st1)"
proof -
  obtain new st1 where al: "alloc_frame ops st = (new, st1)" by fastforce
  obtain ok2 st2 where mp: "map_user_page_for_process ops p page new (anonymous_page_attr (v_permissions vma))
      (set_page new (\<lambda>_. 0) st1) = (ok2, st2)" by fastforce
  note res = assms[unfolded materialize_anonymous_def alloc_user_frame_def free_user_frame_def Let_def al prod.case]
  show thesis
  proof (cases "new = 0 \<or> phys_to_direct st1 new = None")
    case True
    with res show thesis by (intro failed[OF _ _ al]) (auto simp: zero_frame_def split: if_splits)
  next
    case False
    then have ne: "new \<noteq> 0" and "zero_frame new st1 = (True, set_page new (\<lambda>_. 0) st1)"
      by (auto simp: zero_frame_def phys_to_direct_def split: if_splits)
    with res mp have out: "ok = ok2" "if ok then st' = st2 else st' = free_frame ops new st2 \<and> p' = p"
      by (auto split: if_splits)
    from mp consider "map_page_in_root ops (p_address_space_root p) page new (anonymous_page_attr (v_permissions vma))
         (set_page new (\<lambda>_. 0) st1) = (ok2, st2)" | "\<not> ok2" "st2 = set_page new (\<lambda>_. 0) st1"
      using map_user_page_cases by blast
    then show thesis
    proof cases
      case 1 show thesis by (rule mapped[OF al ne 1[folded out(1)] out(2)])
    next
      case 2
      then have "\<not> ok" "p' = p" "st' = free_frame ops new (set_page new (\<lambda>_. 0) st1)" using out by simp_all
      then show thesis by (rule denied[OF _ _ al ne])
    qed
  qed
qed


lemma frame_of_anonymous:
  "frame_of new = new \<Longrightarrow> frame_of (new OR anonymous_page_attr q) = new"
proof -
  assume "frame_of new = new"
  moreover have "frame_of (anonymous_page_attr q) = 0"
    by (rule bit_word_eqI) (auto simp: bit_simps anonymous_page_attr_bits bit_addr_mask)
  ultimately show ?thesis by (simp add: bit.conj_disj_distrib2)
qed

lemma zeroed_kept:
  assumes "alloc_frame ops st = (new, st1)" "new \<in> free" "frame_of new = new"
  shows "others_kept free own root page st (set_page new (\<lambda>_. 0) st1)" "leaf_at (set_page new (\<lambda>_. 0) st1) = leaf_at st"
proof -
  from alloc_frame_keeps[OF assms(1)] obtain h where st1: "st1 = st\<lparr>vm_heap := h\<rparr>" by blast
  have "vm_bytes (set_page new (\<lambda>_. 0) st1) (g + k) = vm_bytes st (g + k)"
    if "frame_of g = g" "g \<notin> free" "k < PAGE_SIZE" for g k
    using set_page_bytes(2)[OF assms(3) that(1) _ that(3), of "\<lambda>_. 0" st1] that(2) assms(2) st1 by auto
  then show "others_kept free own root page st (set_page new (\<lambda>_. 0) st1)" "leaf_at (set_page new (\<lambda>_. 0) st1) = leaf_at st"
    using st1 by (simp_all add: others_kept_def)
qed

lemma materialize_anonymous_ok:
  assumes fa: "frame_allocator ops hinv frees" and inv: "pt_inv hinv frees own st"
    and r: "is_root own (p_address_space_root p)" and u: "user_addr page" and al: "page AND (PAGE_SIZE - 1) = 0"
    and res: "materialize_anonymous ops page vma p st = (ok, p', st')"
  shows "others_kept (frees (vm_heap st)) own (p_address_space_root p) page st st' \<and>
    (if \<not> ok then leaf_at st' (p_address_space_root p) page = leaf_at st (p_address_space_root p) page \<and> p' = p
     else leaf_at st (p_address_space_root p) page = None \<and>
       (\<exists>f own'. pt_inv hinv frees own' st' \<and> f \<in> frees (vm_heap st) \<and> frame_of f = f \<and>
         leaf_at st' (p_address_space_root p) page = Some (f OR anonymous_page_attr (v_permissions vma)) \<and>
         (\<forall>k<PAGE_SIZE. vm_bytes st' (f + k) = 0)))"
  using res
proof (cases rule: materialize_anonymous_cases)
  case (failed st1 new)
  then show ?thesis using failed_alloc_kept[OF fa inv failed(3,4)] by simp
next
  case (denied st1 new)
  note new = alloc_frame_free[OF fa inv denied(3,4)]
  note z = zeroed_kept[OF denied(3) new(1,2)]
  have "leaf_at st' = leaf_at st" "vm_bytes st' = vm_bytes (set_page new (\<lambda>_. 0) st1)"
    using denied(5) z(2) by (simp_all add: free_frame_def)
  then show ?thesis using denied(1,2) z(1) by (simp add: others_kept_def)
next
  case (mapped st1 new st2)
  let ?s = "set_page new (\<lambda>_. 0) st1" and ?a = "anonymous_page_attr (v_permissions vma)" and ?r = "p_address_space_root p"
  note new = alloc_frame_free[OF fa inv mapped(1,2)]
  note z = zeroed_kept[OF mapped(1) new(1,2)]
  have "pt_inv hinv frees own st1" by (rule frame_allocator.alloc_frame_inv(1)[OF fa inv mapped(1)])
  then have "pt_inv hinv frees own ?s" by (simp add: pt_inv_def)
  moreover have "?a AND 1 \<noteq> 0" by (simp add: one_bit anonymous_page_attr_bits)
  ultimately obtain own' where "map_outcome hinv frees own ?s ?r page (frame_of new OR ?a) ok own' st2"
    using map_page_outcome[OF fa _ r u _ mapped(3)] by blast
  then have inv2: "pt_inv hinv frees own' st2" and before: "ok \<Longrightarrow> leaf_at st ?r page = None"
    and view: "\<And>r' w. is_root own r' \<Longrightarrow> user_addr w \<Longrightarrow> w AND (PAGE_SIZE - 1) = 0 \<Longrightarrow>
      leaf_at st2 r' w = (if ok \<and> frame_of r' = frame_of ?r \<and> w = page then Some (new OR ?a) else leaf_at st r' w)"
    using alloc_frame_keeps[OF mapped(1)] by (auto simp: map_outcome_def new(2))
  have b: "vm_bytes st2 = vm_bytes ?s" using map_page_keeps[OF mapped(3)] by simp
  have st': "leaf_at st' = leaf_at st2" "vm_bytes st' = vm_bytes st2"
    using mapped(4) by (auto simp: free_frame_def split: if_splits)
  have "others_kept (frees (vm_heap st)) own ?r page st st'"
    using z(1) view by (simp add: others_kept_def st' b)
  moreover have "leaf_at st' ?r page = (if ok then Some (new OR ?a) else leaf_at st ?r page)"
    using view[OF r u al] by (simp add: st')
  moreover have "\<forall>k<PAGE_SIZE. vm_bytes st' (new + k) = 0" by (simp add: st' b set_page_bytes)
  ultimately show ?thesis using inv2 before new mapped(4) by (cases ok) auto
qed

text \<open>Looking up an area after its marks have been written.\<close>

lemma find_update_first:
  assumes "find P xs = Some x" "\<And>y. P (g y) = P y" shows "find P (update_first P g xs) = Some (g x)"
  using assms by (induction xs) (auto split: if_splits)


section \<open>The page copy of fork\<close>

lemma frame_ref_inc_True:
  assumes "frame_ref_inc phys st = (True, st')"
  shows "vm_tables st' = vm_tables st" "vm_direct st' = vm_direct st" "vm_bytes st' = vm_bytes st" "vm_heap st' = vm_heap st"
    "vm_refs_max st' = vm_refs_max st" "frame_ref_is_shared st' phys"
proof -
  from assms obtain k where k: "frame_refcount_slot st phys = Some k"
    "vm_refs st k = 0 \<and> st' = st\<lparr>vm_refs := (vm_refs st)(k := 2)\<rparr> \<or>
     vm_refs st k \<noteq> 0 \<and> vm_refs st k \<noteq> FRAME_REFCOUNT_MAX \<and> st' = st\<lparr>vm_refs := (vm_refs st)(k := vm_refs st k + 1)\<rparr>"
    by (auto simp: frame_ref_inc_def split: option.splits if_splits)
  then show "vm_tables st' = vm_tables st" "vm_direct st' = vm_direct st" "vm_bytes st' = vm_bytes st"
    "vm_heap st' = vm_heap st" "vm_refs_max st' = vm_refs_max st" by auto
  have slot: "frame_refcount_slot st' phys = Some k"
    using k by (auto simp: frame_refcount_slot_def)
  have "2 \<le> n + 1" if "n \<noteq> 0" "n \<noteq> FRAME_REFCOUNT_MAX" for n :: u16
  proof -
    have "unat n \<noteq> 65535" using that(2) by (auto simp: FRAME_REFCOUNT_MAX_def word_unat_eq_iff)
    then have "unat n + 1 < 65536" using unat_u16_less[of n] by linarith
    then have "unat (n + 1) = unat n + 1" by (subst unat_plus_if_no_wrap) simp_all
    moreover have "unat n \<noteq> 0" using that(1) by (simp add: unat_eq_zero)
    ultimately show ?thesis by (simp add: word_le_nat_alt)
  qed
  with k(2) show "frame_ref_is_shared st' phys" by (auto simp: frame_ref_is_shared_def slot)
qed

lemma clone_anonymous_cases:
  assumes "clone_user_leaf ops parent child vma page phys attr m = (True, m')" "v_backing vma = BackingAnonymous"
    and "attr AND ATTR_WRITABLE \<noteq> 0"
  obtains st1 st2 st3 where "frame_ref_inc phys (mm_vm m) = (True, st1)"
    "map_page_in_root ops (p_address_space_root child) page phys (cow_shared_attr attr) st1 = (True, st2)"
    "remap_user_page_in_root (p_address_space_root parent) page phys (cow_shared_attr attr) st2 = (True, st3)"
    "m' = m\<lparr>mm_vm := st3\<rparr>"
  using assms by (auto simp: clone_user_leaf_def Let_def split: prod.splits if_splits)

lemma cow_attr_facts:
  fixes d :: u64
  assumes "bit d 0" "bit d 2" defines "e \<equiv> frame_of d OR cow_shared_attr (d AND NOT PAGING_DESCRIPTOR_ADDR_MASK)"
  shows "cow_shared_attr (d AND NOT PAGING_DESCRIPTOR_ADDR_MASK) AND 1 \<noteq> 0" "frame_of e = frame_of d"
    "e AND ATTR_WRITABLE = 0" "e AND ATTR_PTE_COW \<noteq> 0" "e AND ATTR_USER \<noteq> 0"
    "e AND ATTR_NO_EXECUTE = 0 \<longleftrightarrow> d AND ATTR_NO_EXECUTE = 0"
proof -
  show "cow_shared_attr (d AND NOT PAGING_DESCRIPTOR_ADDR_MASK) AND 1 \<noteq> 0"
    using assms(1) by (simp add: one_bit) (simp add: cow_shared_attr_def bit_simps attr_const_bits bit_addr_mask)
  show "frame_of e = frame_of d"
    by (rule bit_word_eqI) (auto simp: e_def cow_shared_attr_def bit_simps attr_const_bits bit_addr_mask)
  show "e AND ATTR_WRITABLE = 0" "e AND ATTR_PTE_COW \<noteq> 0" "e AND ATTR_USER \<noteq> 0"
    "e AND ATTR_NO_EXECUTE = 0 \<longleftrightarrow> d AND ATTR_NO_EXECUTE = 0"
    using assms(2) unfolding attr_bits
    by (simp_all add: e_def cow_shared_attr_def bit_simps attr_const_bits bit_addr_mask)
qed

lemma clone_shares:
  assumes fa: "frame_allocator ops hinv frees" and inv: "pt_inv hinv frees own (mm_vm m)"
    and rp: "is_root own (p_address_space_root parent)" and rc: "is_root own (p_address_space_root child)"
    and ne: "frame_of (p_address_space_root child) \<noteq> frame_of (p_address_space_root parent)"
    and u: "user_addr page" and an: "v_backing vma = BackingAnonymous"
    and leaf: "leaf_at (mm_vm m) (p_address_space_root parent) page = Some d" "d AND ATTR_USER \<noteq> 0" "d AND ATTR_WRITABLE \<noteq> 0"
    and res: "clone_user_leaf ops parent child vma page (frame_of d) (d AND NOT PAGING_DESCRIPTOR_ADDR_MASK) m = (True, m')"
  shows "\<exists>own' e. pt_inv hinv frees own' (mm_vm m') \<and>
    leaf_at (mm_vm m') (p_address_space_root parent) page = Some e \<and>
    leaf_at (mm_vm m') (p_address_space_root child) page = Some e \<and> frame_of e = frame_of d \<and>
    e AND ATTR_WRITABLE = 0 \<and> e AND ATTR_PTE_COW \<noteq> 0 \<and> e AND ATTR_USER \<noteq> 0 \<and>
    (e AND ATTR_NO_EXECUTE = 0 \<longleftrightarrow> d AND ATTR_NO_EXECUTE = 0) \<and>
    frame_ref_is_shared (mm_vm m') (frame_of d) \<and> vm_bytes (mm_vm m') = vm_bytes (mm_vm m) \<and>
    (\<forall>r w. is_root own r \<and> user_addr w \<and> w AND (PAGE_SIZE - 1) = 0 \<and>
       \<not> (w = page \<and> frame_of r \<in> {frame_of (p_address_space_root parent), frame_of (p_address_space_root child)}) \<longrightarrow>
       leaf_at (mm_vm m') r w = leaf_at (mm_vm m) r w)"
proof -
  let ?p = "p_address_space_root parent" and ?c = "p_address_space_root child"
  let ?a = "cow_shared_attr (d AND NOT PAGING_DESCRIPTOR_ADDR_MASK)" and ?e = "frame_of d OR cow_shared_attr (d AND NOT PAGING_DESCRIPTOR_ADDR_MASK)"
  have "(d AND NOT PAGING_DESCRIPTOR_ADDR_MASK) AND ATTR_WRITABLE \<noteq> 0"
    using leaf(3) unfolding attr_bits by (simp add: bit_simps bit_addr_mask)
  from clone_anonymous_cases[OF res an this] obtain st1 st2 st3 where
    inc: "frame_ref_inc (frame_of d) (mm_vm m) = (True, st1)"
    and mp: "map_page_in_root ops ?c page (frame_of d) ?a st1 = (True, st2)"
    and re: "remap_user_page_in_root ?p page (frame_of d) ?a st2 = (True, st3)" and m': "m' = m\<lparr>mm_vm := st3\<rparr>" .
  have b: "bit d 0" "bit d 2" using leaf_present[OF leaf(1)] leaf(2) by (simp_all add: attr_bits)
  note facts = cow_attr_facts[OF b]
  note i1 = frame_ref_inc_True[OF inc]
  have inv1: "pt_inv hinv frees own st1" using inv i1 pt_wf_cong[OF i1(1)] by (simp add: pt_inv_def)
  have leaf1: "leaf_at st1 = leaf_at (mm_vm m)" by (intro ext leaf_at_cong i1)
  from map_page_outcome[OF fa inv1 rc u facts(1) mp] obtain own' where
    inv2: "pt_inv hinv frees own' st2" and roots: "\<And>r. is_root own r \<Longrightarrow> is_root own' r"
    and v2: "\<And>r w. is_root own r \<Longrightarrow> user_addr w \<Longrightarrow> w AND (PAGE_SIZE - 1) = 0 \<Longrightarrow>
      leaf_at st2 r w = (if frame_of r = frame_of ?c \<and> w = page then Some ?e else leaf_at (mm_vm m) r w)"
    by (auto simp: map_outcome_def leaf1)
  have wf2: "pt_wf own' st2" using inv2 by (simp add: pt_inv_def)
  note rv = remap_view[OF wf2 roots[OF rp] u facts(1) re]
  have v3: "leaf_at st3 r w = (if frame_of r = frame_of ?p \<and> w = page then Some ?e else leaf_at st2 r w)"
    if "is_root own r" "user_addr w" "w AND (PAGE_SIZE - 1) = 0" for r w
    using rv(3)[OF roots[OF that(1)] that(2,3)] by simp
  have inv3: "pt_inv hinv frees own' st3" using inv2 rv(1) remap_keeps[OF re] by (simp add: pt_inv_def)
  have sh: "frame_ref_is_shared st3 (frame_of d)"
    using i1(6) frame_ref_is_shared_cong[of st3 st1] remap_keeps[OF re] map_page_keeps[OF mp] by simp
  have bt: "vm_bytes st3 = vm_bytes (mm_vm m)" using remap_keeps[OF re] map_page_keeps[OF mp] i1(3) by simp
  have "leaf_at st3 ?p page = Some ?e" "leaf_at st3 ?c page = Some ?e"
    using v3[OF rp u rv(2)] v3[OF rc u rv(2)] v2[OF rc u rv(2)] ne by simp_all
  moreover have "\<forall>r w. is_root own r \<and> user_addr w \<and> w AND (PAGE_SIZE - 1) = 0 \<and>
       \<not> (w = page \<and> frame_of r \<in> {frame_of ?p, frame_of ?c}) \<longrightarrow> leaf_at st3 r w = leaf_at (mm_vm m) r w"
    using v3 v2 by auto
  ultimately show ?thesis using inv3 sh bt facts by (auto simp: m' intro!: exI[of _ own'])
qed

end
