(* ===== verification/Addr_Space_Props.thy ===== *)
theory Addr_Space_Props
  imports Addr_Space_Correct
begin

text \<open>
  The properties of process address spaces, with a concrete machine for their witnesses: a parent
  and a child root that both have tables for the page at 16 MiB, one free frame, and a process whose
  area table covers that page.
\<close>

section \<open>A concrete machine\<close>

definition demo_process :: process where
  "demo_process = \<lparr>p_pid = 1, p_address_space_root = 0x100000, p_runtime_layout = demo_layout,
     p_vmas = demo_vmas\<lparr>vc_anon_next := 0x1004000\<rparr>, p_state = Running, p_uid = 0, p_gid = 0, p_euid = 0, p_egid = 0,
     p_sig_pending = 0, p_sig_mask = 0, p_sig_disp = []\<rparr>"

definition two_tables :: "u64 \<Rightarrow> u64 \<Rightarrow> u64 \<Rightarrow> u64 \<Rightarrow> u64" where
  "two_tables leaf1 leaf2 f i =
    (if f = 0x100000 \<and> i = 0 then 0x101007 else if f = 0x101000 \<and> i = 0 then 0x102007
     else if f = 0x102000 \<and> i = 8 then 0x103007 else if f = 0x103000 \<and> i = 0 then leaf1
     else if f = 0x110000 \<and> i = 0 then 0x111007 else if f = 0x111000 \<and> i = 0 then 0x112007
     else if f = 0x112000 \<and> i = 8 then 0x113007 else if f = 0x113000 \<and> i = 0 then leaf2 else 0)"

definition two_metas :: "u16 \<Rightarrow> u16 \<Rightarrow> page_table_metadata list" where
  "two_metas n1 n2 = [demo_meta Pml4 0x100000 1, demo_meta Pdpt 0x101000 1, demo_meta Pd 0x102000 1, demo_meta Pt 0x103000 n1,
     (demo_meta Pml4 0x110000 1)\<lparr>m_root_phys := 0x110000\<rparr>, (demo_meta Pdpt 0x111000 1)\<lparr>m_root_phys := 0x110000\<rparr>,
     (demo_meta Pd 0x112000 1)\<lparr>m_root_phys := 0x110000\<rparr>, (demo_meta Pt 0x113000 n2)\<lparr>m_root_phys := 0x110000\<rparr>]"

definition two_vm :: "u64 \<Rightarrow> u64 \<Rightarrow> u16 \<Rightarrow> u64 list vm_state" where
  "two_vm leaf1 leaf2 refs =
     (demo_vm (two_tables leaf1 leaf2) (two_metas (if leaf1 = 0 then 0 else 1) (if leaf2 = 0 then 0 else 1)) [0x300000])
       \<lparr>vm_refs := (\<lambda>k. if k = 0x200 then refs else 0)\<rparr>"

definition two_own :: positions where
  "two_own f =
    (if f = 0x100000 then Some (0x100000, []) else if f = 0x101000 then Some (0x100000, [0])
     else if f = 0x102000 then Some (0x100000, [0, 0]) else if f = 0x103000 then Some (0x100000, [0, 0, 8])
     else if f = 0x110000 then Some (0x110000, []) else if f = 0x111000 then Some (0x110000, [0])
     else if f = 0x112000 then Some (0x110000, [0, 0]) else if f = 0x113000 then Some (0x110000, [0, 0, 8]) else None)"

lemma two_own_cases:
  assumes "two_own f = Some (r, p)"
  obtains "f = 0x100000" "r = 0x100000" "p = []" | "f = 0x101000" "r = 0x100000" "p = [0]"
  | "f = 0x102000" "r = 0x100000" "p = [0, 0]" | "f = 0x103000" "r = 0x100000" "p = [0, 0, 8]"
  | "f = 0x110000" "r = 0x110000" "p = []" | "f = 0x111000" "r = 0x110000" "p = [0]"
  | "f = 0x112000" "r = 0x110000" "p = [0, 0]" | "f = 0x113000" "r = 0x110000" "p = [0, 0, 8]"
  using assms by (simp add: two_own_def split: if_splits)

lemma two_wf: "pt_wf two_own (two_vm leaf1 leaf2 refs)"
proof (rule pt_wfI, goal_cases)
  case (1 f r p) then show ?case
    by (elim two_own_cases) (simp_all add: two_own_def PAGING_DESCRIPTOR_ADDR_MASK_def)
next
  case (2 f r p i)
  from 2(1) show ?case
    by (cases rule: two_own_cases; use 2(2-) in \<open>simp add: two_vm_def demo_vm_def two_tables_def two_own_def
        PAGING_DESCRIPTOR_ADDR_MASK_def PAGING_DESCRIPTOR_LARGE_PAGE_def split: if_splits\<close>)
next
  case (3 f r p i)
  from 3 show ?case
    by (cases rule: two_own_cases; intro conjI exI[of _ "f - 0x1000"])
       (auto simp: two_own_def two_vm_def demo_vm_def two_tables_def PAGING_DESCRIPTOR_ADDR_MASK_def
        paging_present_def append_eq_Cons_conv Cons_eq_append_conv)
qed

lemma two_inv: "pt_inv pool_inv set two_own (two_vm leaf1 leaf2 refs)"
  using two_wf by (simp add: pt_inv_def pool_inv_def two_vm_def demo_vm_def two_own_def PAGING_DESCRIPTOR_ADDR_MASK_def)

lemma two_roots: "is_root two_own 0x100000" "is_root two_own 0x110000" "user_addr 0x1000000"
  by (simp_all add: is_root_def two_own_def PAGING_DESCRIPTOR_ADDR_MASK_def user_addr_def USER_LOW_HALF_LIMIT_def)

lemma two_leaf:
  "leaf_at (two_vm leaf1 leaf2 refs) 0x100000 0x1000000 = (if paging_present leaf1 then Some leaf1 else None)"
  "leaf_at (two_vm leaf1 leaf2 refs) 0x110000 0x1000000 = (if paging_present leaf2 then Some leaf2 else None)"
  by (simp_all add: leaf_at_def root_pte_def next_table_def two_vm_def two_tables_def run_defs)

definition two_mem :: "u64 list vm_state \<Rightarrow> u64 list mem" where
  "two_mem st = \<lparr>mm_vm = st, mm_shared = [], mm_files = (\<lambda>_. \<lparr>of_ref_count = 0, of_open = False, of_readable = False,
     of_vnode = None, of_identity = \<lparr>fi_backend_id = 0, fi_mount_id = 0, fi_object_id = 0\<rparr>\<rparr>)\<rparr>"

lemma demo_space_ok: "space_ok demo_process" by code_simp


lemma demo_area_allowed: "runtime_vma_allowed demo_layout demo_area" by code_simp

lemma demo_find: "internal_find_vma (p_vmas demo_process) 0x1000000 = Some demo_area" by code_simp

lemma two_pte: "root_pte (two_vm l1 l2 refs) 0x100000 0x1000000 = Some (0x103000, 0)"
  "root_pte (two_vm l1 l2 refs) 0x110000 0x1000000 = Some (0x113000, 0)"
  by (simp_all add: root_pte_def next_table_def two_vm_def two_tables_def run_defs)

lemma two_read:
  "read_user_leaf_in_root (two_vm 0x8000000000200205 l2 refs) 0x100000 0x1000000 = Some (0x200000, 0x8000000000000205)"
  by (simp add: read_user_leaf_in_root_def two_pte) (simp add: two_vm_def two_tables_def run_defs)

lemma demo_map_anonymous: "fst (map_anonymous_current True 0x2000 3 0 (Some demo_process)) = 0x1004000"
  "snd (map_anonymous_current True 0x2000 3 0 (Some demo_process)) \<noteq> None"
  by code_simp+

section \<open>Properties\<close>

text \<open>C11. Whatever sequence of brk, mmap, munmap, mprotect, file and dynamic-library mapping calls and page
  faults a process makes, successful or not, its area table stays sound: areas have page-aligned
  bounds below the user limit, do not overlap and are never writable and executable at once, the
  counter is exact, every area lies in the layout window of its purpose with the backing and
  permissions that purpose allows, and the heap break stays between its bounds. The layout never changes.\<close>

theorem space_steps_ok:
  assumes "(space_step ops)\<^sup>*\<^sup>* (p, m) (p', m')" and "space_ok p"
  shows "space_ok p' \<and> p_runtime_layout p' = p_runtime_layout p"
proof -
  have "space_ok (fst s') \<and> p_runtime_layout (fst s') = p_runtime_layout p"
    if "(space_step ops)\<^sup>*\<^sup>* (p, m) s'" for s'
    using that by (induction rule: rtranclp_induct) (use assms(2) space_step_ok in \<open>force+\<close>)
  from this[OF assms(1)] show ?thesis by simp
qed

theorem space_steps_ok_witness:
  "\<exists>p'. (space_step pool_ops)\<^sup>*\<^sup>* (demo_process, two_mem (two_vm 0 0 0)) (p', two_mem (two_vm 0 0 0)) \<and>
     map_anonymous_current True 0x2000 3 0 (Some demo_process) = (0x1004000, Some p') \<and>
     space_ok demo_process \<and> space_ok p'"
proof -
  obtain p' where p': "map_anonymous_current True 0x2000 3 0 (Some demo_process) = (0x1004000, Some p')"
    using demo_map_anonymous by (cases "map_anonymous_current True 0x2000 3 0 (Some demo_process)") auto
  have "(space_step pool_ops)\<^sup>*\<^sup>* (demo_process, two_mem (two_vm 0 0 0)) (p', two_mem (two_vm 0 0 0))"
    by (rule r_into_rtranclp, rule step_mmap[OF p'])
  from this space_steps_ok[OF this demo_space_ok] p' demo_space_ok show ?thesis by blast
qed

text \<open>C12. A copy-on-write split gives the faulting process, and nobody else, a page it may write. Whatever
  its outcome, no other leaf of any root changes and no byte of any frame that was in use. When it
  succeeds the page is writable and no longer marked, keeps its execute permission and its contents,
  and lies in the old frame if that frame had no other owner, in a frame taken from the allocator
  otherwise; when it fails the old leaf is still in place.\<close>

theorem cow_split_correct:
  assumes "frame_allocator ops hinv frees" and "pt_inv hinv frees own st"
    and "is_root own (p_address_space_root p)" and "user_addr page"
    and "leaf_at st (p_address_space_root p) page = Some d" and "frame_of d \<notin> frees (vm_heap st)"
    and "cow_split_current ops p page vma st = (ok, st')"
  shows "pt_inv hinv frees own st' \<and> others_kept (frees (vm_heap st)) own (p_address_space_root p) page st st' \<and>
    (if \<not> ok then leaf_at st' (p_address_space_root p) page = Some d
     else \<exists>d'. leaf_at st' (p_address_space_root p) page = Some d' \<and> split_leaf d d' \<and>
       (\<forall>k<PAGE_SIZE. vm_bytes st' (frame_of d' + k) = vm_bytes st (frame_of d + k)) \<and>
       (if frame_ref_is_shared st (frame_of d) then frame_of d' \<in> frees (vm_heap st) else frame_of d' = frame_of d))"
  by (rule cow_split_ok[OF assms])

theorem cow_split_correct_witness:
  "\<exists>st'. cow_split_current pool_ops demo_process 0x1000000 demo_area (two_vm 0x8000000000200205 0x8000000000200205 2) = (True, st') \<and>
     (\<exists>d'. leaf_at st' 0x100000 0x1000000 = Some d' \<and> split_leaf 0x8000000000200205 d' \<and> frame_of d' \<in> {0x300000}) \<and>
     leaf_at st' 0x110000 0x1000000 = Some 0x8000000000200205"
proof -
  let ?st = "two_vm 0x8000000000200205 0x8000000000200205 2"
  have sh: "frame_ref_is_shared ?st 0x200000"
    by (simp add: frame_ref_is_shared_def frame_refcount_slot_def two_vm_def run_defs)
  have "internal_vma_attr_allowed (Some demo_area) 0x8000000000000007"
    "runtime_vma_allowed (p_runtime_layout demo_process) demo_area" by code_simp+
  then have "fst (cow_split_current pool_ops demo_process 0x1000000 demo_area ?st)"
    by (simp add: cow_split_current_def demo_process_def two_read Let_def sh attr_defs alloc_user_frame_def)
       (simp add: two_vm_def copy_frame_def set_page_def remap_user_page_in_root_def root_pte_def next_table_def
         two_tables_def run_defs)
  then obtain st' where res: "cow_split_current pool_ops demo_process 0x1000000 demo_area ?st = (True, st')"
    by (cases "cow_split_current pool_ops demo_process 0x1000000 demo_area ?st") auto
  have root: "p_address_space_root demo_process = 0x100000" by (simp add: demo_process_def)
  have leaf: "leaf_at ?st (p_address_space_root demo_process) 0x1000000 = Some 0x8000000000200205"
    "leaf_at ?st 0x110000 0x1000000 = Some 0x8000000000200205" by (simp_all add: root two_leaf paging_present_def)
  have fr: "frame_of (0x8000000000200205 :: u64) = 0x200000" "vm_heap ?st = [0x300000]"
    by (simp_all add: PAGING_DESCRIPTOR_ADDR_MASK_def two_vm_def demo_vm_def)
  have "is_root two_own (p_address_space_root demo_process)" by (simp add: root two_roots)
  from cow_split_correct[OF pool_allocator two_inv this two_roots(3) leaf(1) _ res] fr sh
  have *: "others_kept {0x300000} two_own 0x100000 0x1000000 ?st st'"
    "\<exists>d'. leaf_at st' 0x100000 0x1000000 = Some d' \<and> split_leaf 0x8000000000200205 d' \<and> frame_of d' \<in> {0x300000}"
    by (auto simp: root)
  have "leaf_at st' 0x110000 0x1000000 = leaf_at ?st 0x110000 0x1000000"
    using *(1) two_roots by (simp add: others_kept_def PAGE_SIZE_def PAGING_DESCRIPTOR_ADDR_MASK_def)
  with res *(2) leaf(2) show ?thesis by (intro exI[of _ st']) simp
qed


lemma fault_anonymous:
  assumes "internal_find_vma (p_vmas p) (page_down a) = Some vma" "v_backing vma = BackingAnonymous" "code AND 1 = 0"
  shows "try_handle_user_page_fault ops cb ca pread a code (Some p) m = (False, Some p, m) \<or>
    (\<exists>ok p' st. materialize_anonymous ops (page_down a) vma p (mm_vm m) = (ok, p', st) \<and>
       try_handle_user_page_fault ops cb ca pread a code (Some p) m = (ok, Some p', m\<lparr>mm_vm := st\<rparr>))"
proof -
  obtain ok p' st where "materialize_anonymous ops (page_down a) vma p (mm_vm m) = (ok, p', st)" by (metis prod_cases3)
  then show ?thesis by (simp add: try_handle_user_page_fault_def Let_def assms)
qed

text \<open>C13. A not-present fault in an anonymous area that the handler resolves leaves exactly one new leaf:
  a frame from the allocator, filled with zeroes, with the attributes of the area's permissions, at a
  page that had none. Every other leaf of every root, and every byte of every frame in use, is as
  before. A fault it refuses changes no leaf and no such byte either.\<close>

theorem demand_zero_correct:
  assumes "frame_allocator ops hinv frees" and "pt_inv hinv frees own (mm_vm m)"
    and "is_root own (p_address_space_root p)"
    and "internal_find_vma (p_vmas p) (page_down a) = Some vma" and "v_backing vma = BackingAnonymous"
    and "code AND 1 = 0"
    and "try_handle_user_page_fault ops cb ca pread a code (Some p) m = (ok, Some p', m')"
  shows "others_kept (frees (vm_heap (mm_vm m))) own (p_address_space_root p) (page_down a) (mm_vm m) (mm_vm m') \<and>
    (if \<not> ok then leaf_at (mm_vm m') (p_address_space_root p) (page_down a) = leaf_at (mm_vm m) (p_address_space_root p) (page_down a)
     else leaf_at (mm_vm m) (p_address_space_root p) (page_down a) = None \<and>
       (\<exists>f\<in>frees (vm_heap (mm_vm m)). frame_of f = f \<and>
         leaf_at (mm_vm m') (p_address_space_root p) (page_down a) = Some (f OR anonymous_page_attr (v_permissions vma)) \<and>
         (\<forall>k<PAGE_SIZE. vm_bytes (mm_vm m') (f + k) = 0)))"
proof -
  have u: "user_addr (page_down a)"
    using assms(4) by (auto simp: internal_find_vma_def user_addr_def split: if_splits)
  have al: "page_down a AND (PAGE_SIZE - 1) = 0"
    by (simp add: page_down_def and.assoc)
  from assms(7) fault_anonymous[OF assms(4-6), of ops cb ca pread m]
  consider "\<not> ok" "m' = m"
    | st where "materialize_anonymous ops (page_down a) vma p (mm_vm m) = (ok, p', st)" "m' = m\<lparr>mm_vm := st\<rparr>"
    by auto
  then show ?thesis
  proof cases
    case (2 st)
    from materialize_anonymous_ok[OF assms(1-3) u al 2(1)] 2(2) show ?thesis by (cases ok) auto
  qed simp
qed

theorem demand_zero_correct_witness:
  "\<exists>p' m'. try_handle_user_page_fault pool_ops False True (\<lambda>_ _ _. None) 0x1000123 6 (Some demo_process) (two_mem (two_vm 0 0 0))
       = (True, Some p', m') \<and> leaf_at (mm_vm m') 0x100000 0x1000000 = Some 0x8000000000300007"
proof -
  let ?m = "two_mem (two_vm 0 0 0)"
  let ?run = "try_handle_user_page_fault pool_ops False True (\<lambda>_ _ _. None) 0x1000123 6 (Some demo_process) ?m"
  have pg: "page_down 0x1000123 = 0x1000000" by (simp add: page_down_def PAGE_SIZE_def)
  have ev: "internal_vma_range_allowed (p_vmas demo_process) 0x1000000 PAGE_SIZE PermRead"
    "internal_vma_attr_allowed (Some demo_area) 0x8000000000000007" "anonymous_page_attr (v_permissions demo_area) = 0x8000000000000007"
    "runtime_vma_allowed (p_runtime_layout demo_process) demo_area" "v_backing demo_area = BackingAnonymous"
    "permissions_include (v_permissions demo_area) PermWrite" "fault_range_ok demo_process demo_area 0x1000000"
    "p_state demo_process = Running" "p_address_space_root demo_process = 0x100000" "page_aligned 0x1000000" "page_aligned 0x300000"
    by code_simp+
  have map: "fst (map_page_in_root pool_ops 0x100000 0x1000000 0x300000 0x8000000000000007 (set_page 0x300000 (\<lambda>_. 0) ((two_vm 0 0 0)\<lparr>vm_heap := []\<rparr>)))"
    by (simp add: map_page_in_root_def map_root_page_def map_descend_def ensure_owned_descriptor_def map_leaf_def
     run_defs two_vm_def two_tables_def two_metas_def set_page_def Let_def)
  have z: "alloc_user_frame pool_ops (two_vm 0 0 0) = (0x300000, (two_vm 0 0 0)\<lparr>vm_heap := []\<rparr>)"
    "zero_frame 0x300000 ((two_vm 0 0 0)\<lparr>vm_heap := []\<rparr>) = (True, set_page 0x300000 (\<lambda>_. 0) ((two_vm 0 0 0)\<lparr>vm_heap := []\<rparr>))"
    by (simp_all add: alloc_user_frame_def zero_frame_def two_vm_def run_defs)
  have "fst ?run"
    using map by (auto simp: try_handle_user_page_fault_def Let_def pg demo_find ev materialize_anonymous_def
      two_mem_def z map_user_page_for_process_def split: prod.splits)
  moreover have "snd ?run \<noteq> (None, x)" for x
    using demo_find ev by (simp add: try_handle_user_page_fault_def Let_def pg split: prod.splits)
  ultimately obtain p' m' where run: "?run = (True, Some p', m')"
    by (cases ?run; cases "fst (snd ?run)") auto
  have "is_root two_own (p_address_space_root demo_process)" "pt_inv pool_inv set two_own (mm_vm ?m)"
    by (simp_all add: ev two_roots two_inv two_mem_def)
  from demand_zero_correct[OF pool_allocator this(2,1) demo_find[folded pg] ev(5) _ run]
  have "leaf_at (mm_vm m') 0x100000 0x1000000 = Some 0x8000000000300007"
    by (simp add: pg ev two_mem_def two_vm_def demo_vm_def)
  with run show ?thesis by blast
qed


text \<open>A single page passed to mprotect.\<close>

lemma page_seq_one: "v < v + PAGE_SIZE \<Longrightarrow> page_seq v (v + PAGE_SIZE) = [v]"
  by (simp add: page_seq.simps[of v] page_seq.simps[of "v + PAGE_SIZE"])

lemma protect_one_page:
  assumes wf: "pt_wf own st" and r: "is_root own (p_address_space_root p)" "p_address_space_root p \<noteq> INVALID_PHYS_ADDR"
    and u: "user_addr v" and leaf: "leaf_at st (p_address_space_root p) v = Some d" "d AND ATTR_USER \<noteq> 0"
    and res: "protect_anonymous_current cb v PAGE_SIZE q (Some p) st = (0, Some p', st')"
    and plain: "d AND ATTR_PTE_COW = 0 \<or> \<not> permissions_include (ucast q) PermWrite"
  shows "pt_wf own st'" "p_address_space_root p' = p_address_space_root p" "v AND (PAGE_SIZE - 1) = 0"
    "is_root own r' \<Longrightarrow> user_addr w \<Longrightarrow> w AND (PAGE_SIZE - 1) = 0 \<Longrightarrow>
      leaf_at st' r' w = (if frame_of r' = frame_of (p_address_space_root p) \<and> w = v
        then Some (frame_of d OR anonymous_page_attr (ucast q)) else leaf_at st r' w)"
proof -
  let ?attr = "anonymous_page_attr (ucast q)"
  obtain e where e: "lifecycle_range_bounds v PAGE_SIZE = Some e"
    and p': "p_address_space_root p' = p_address_space_root p"
    and pr: "protect_present_pages_in_range p v e (ucast q) st = (True, st')"
    using res by (auto simp: protect_anonymous_current_def Let_def errno_defs split: if_splits option.splits prod.splits)
  from e have e1: "e = v + PAGE_SIZE" "v \<le> v + PAGE_SIZE" and al: "v AND (PAGE_SIZE - 1) = 0"
    by (auto simp: lifecycle_range_bounds_def add_overflow_def page_aligned_def Let_def not_less split: if_splits option.splits)
  then have e': "e = v + PAGE_SIZE" "v < v + PAGE_SIZE" by (auto simp: less_le PAGE_SIZE_def)
  have rd: "read_user_leaf_in_root st (p_address_space_root p) v = Some (frame_of d, d AND NOT PAGING_DESCRIPTOR_ADDR_MASK)"
    using leaf r(2) al by (auto simp: read_user_leaf_in_root_def leaf_at_def is_user_leaf_def split: option.splits if_splits)
  have cow: "(d AND NOT PAGING_DESCRIPTOR_ADDR_MASK) AND ATTR_PTE_COW = 0 \<longleftrightarrow> d AND ATTR_PTE_COW = 0"
    by (simp add: attr_bits) (simp add: bit_simps bit_addr_mask)
  have re: "remap_user_page_in_root (p_address_space_root p) v (frame_of d) ?attr st = (True, st')"
    using pr plain by (auto simp: protect_present_pages_in_range_def e' page_seq_one protect_present_page_def rd cow Let_def
        split: if_splits prod.splits)
  have "?attr AND 1 \<noteq> 0" by (simp add: one_bit anonymous_page_attr_bits)
  from remap_view(1)[OF wf r(1) u this re] remap_view(3)[OF wf r(1) u this re, where root' = r' and w = w] al p'
  show "pt_wf own st'" "p_address_space_root p' = p_address_space_root p" "v AND (PAGE_SIZE - 1) = 0"
    "is_root own r' \<Longrightarrow> user_addr w \<Longrightarrow> w AND (PAGE_SIZE - 1) = 0 \<Longrightarrow>
      leaf_at st' r' w = (if frame_of r' = frame_of (p_address_space_root p) \<and> w = v
        then Some (frame_of d OR anonymous_page_attr (ucast q)) else leaf_at st r' w)"
    by simp_all
qed

text \<open>C15. Write protection does not survive mprotect. If a page shares its frame with another address
  space, as every private page does after fork, then making the page read-only and then read-write
  again leaves the caller with a writable leaf on the shared frame and without the copy-on-write
  mark, while the other address space still maps that frame: what one process writes, the other reads.\<close>

theorem mprotect_breaks_isolation:
  assumes "pt_wf own st" and "is_root own (p_address_space_root p)" and "p_address_space_root p \<noteq> INVALID_PHYS_ADDR"
    and "is_root own r2" and "frame_of r2 \<noteq> frame_of (p_address_space_root p)" and "user_addr v"
    and "leaf_at st (p_address_space_root p) v = Some d" and "d AND ATTR_USER \<noteq> 0" and "leaf_at st r2 v = Some d2"
    and "protect_anonymous_current cb v PAGE_SIZE 1 (Some p) st = (0, Some p1, st1)"
    and "protect_anonymous_current cb v PAGE_SIZE 3 (Some p1) st1 = (0, Some p2, st2)"
  shows "leaf_at st2 r2 v = Some d2 \<and>
    (\<exists>d'. leaf_at st2 (p_address_space_root p) v = Some d' \<and> frame_of d' = frame_of d \<and>
       d' AND ATTR_WRITABLE \<noteq> 0 \<and> d' AND ATTR_PTE_COW = 0)"
proof -
  have q: "\<not> permissions_include (1 :: u8) PermWrite" by (simp add: permissions_include_def perm_defs)
  note one = protect_one_page[OF assms(1-3,6-8,10)]
  have c1: "d AND ATTR_PTE_COW = 0 \<or> \<not> permissions_include (ucast (1 :: u64)) PermWrite" using q by simp
  let ?d1 = "frame_of d OR anonymous_page_attr 1" and ?root = "p_address_space_root p"
  have root: "p_address_space_root p1 = ?root" and al: "v AND (PAGE_SIZE - 1) = 0" and wf1: "pt_wf own st1"
    using one(1-3)[OF c1] by simp_all
  have v1: "leaf_at st1 ?root v = Some ?d1" "leaf_at st1 r2 v = Some d2"
    using one(4)[OF c1] assms(2,4,5,6,9) al by simp_all
  have b: "?d1 AND ATTR_USER \<noteq> 0" "?d1 AND ATTR_PTE_COW = 0"
    by (simp_all add: attr_bits, simp_all add: bit_simps anonymous_page_attr_bits bit_addr_mask)
  have c2: "?d1 AND ATTR_PTE_COW = 0 \<or> \<not> permissions_include (ucast (3 :: u64)) PermWrite" using b by simp
  let ?d2 = "frame_of ?d1 OR anonymous_page_attr 3"
  note two = protect_one_page(4)[where p = p1, OF wf1, unfolded root, OF assms(2,3,6) v1(1) b(1) assms(11) c2]
  have "permissions_include (3 :: u8) PermWrite" by (simp add: permissions_include_def perm_defs)
  then have "?d2 AND ATTR_WRITABLE \<noteq> 0" "?d2 AND ATTR_PTE_COW = 0"
    by (simp_all add: attr_bits, simp_all add: bit_simps anonymous_page_attr_bits bit_addr_mask)
  moreover have "frame_of ?d2 = frame_of d" by (simp add: frame_of_anonymous)
  ultimately show ?thesis
    using two[OF assms(2,6) al] two[OF assms(4,6) al] assms(5) v1(2) by simp
qed

lemma two_set: "l1 \<noteq> 0 \<Longrightarrow> d \<noteq> 0 \<Longrightarrow> set_entry 0x103000 0 d (two_vm l1 l2 refs) = two_vm d l2 refs"
  by (simp add: set_entry_def two_vm_def demo_vm_def) (simp add: two_tables_def fun_eq_iff)

lemma two_protect:
  assumes "d \<in> {0x8000000000200205, 0x8000000000200005}" "q = 1 \<or> d = 0x8000000000200005" "q \<in> {1, 3}"
    and "p_address_space_root p = 0x100000"
  shows "protect_present_page p q 0x1000000 (two_vm d l2 refs) = (True, two_vm (0x200000 OR anonymous_page_attr q) l2 refs)"
proof -
  have attr: "anonymous_page_attr 1 = 0x8000000000000005" "anonymous_page_attr 3 = 0x8000000000000007"
    "\<not> permissions_include 1 PermWrite" by code_simp+
  have e: "entry_at (two_vm d l2 refs) 0x103000 0 = d" by (simp add: two_vm_def demo_vm_def two_tables_def)
  have rd: "read_user_leaf_in_root (two_vm d l2 refs) 0x100000 0x1000000 = Some (0x200000, d AND NOT PAGING_DESCRIPTOR_ADDR_MASK)"
    using assms(1) by (auto simp: read_user_leaf_in_root_def two_pte e run_defs)
  have "remap_user_page_in_root 0x100000 0x1000000 0x200000 a (two_vm d l2 refs) = (True, two_vm (0x200000 OR a) l2 refs)"
    if "0x200000 OR a \<noteq> 0" for a
    using assms(1) that by (auto simp: remap_user_page_in_root_def two_pte e two_set is_user_leaf_def
      paging_present_def ATTR_USER_def INVALID_PHYS_ADDR_def PAGE_SIZE_def PAGING_DESCRIPTOR_ADDR_MASK_def)
  then show ?thesis
    using assms by (auto simp: protect_present_page_def rd attr Let_def attr_defs PAGING_DESCRIPTOR_ADDR_MASK_def)
qed

theorem mprotect_breaks_isolation_witness:
  "\<exists>p1 st1 p2 st2 d'. protect_anonymous_current True 0x1000000 PAGE_SIZE 1 (Some demo_process)
       (two_vm 0x8000000000200205 0x8000000000200205 2) = (0, Some p1, st1) \<and>
     protect_anonymous_current True 0x1000000 PAGE_SIZE 3 (Some p1) st1 = (0, Some p2, st2) \<and>
     leaf_at st2 0x110000 0x1000000 = Some 0x8000000000200205 \<and>
     leaf_at st2 0x100000 0x1000000 = Some d' \<and> frame_of d' = 0x200000 \<and> d' AND ATTR_WRITABLE \<noteq> 0"
proof -
  let ?st = "two_vm 0x8000000000200205 0x8000000000200205 2" and ?v = "0x1000000 :: u64"
  have ev: "lifecycle_range_bounds ?v PAGE_SIZE = Some 0x1001000" "permissions_supported 1" "permissions_supported 3"
    "p_state demo_process = Running" "p_address_space_root demo_process = 0x100000"
    "stage_anonymous_protect (p_runtime_layout demo_process) (p_vmas demo_process) ?v 0x1001000 1 \<noteq> None"
    "stage_anonymous_protect (p_runtime_layout demo_process)
       (the (stage_anonymous_protect (p_runtime_layout demo_process) (p_vmas demo_process) ?v 0x1001000 1)) ?v 0x1001000 3 \<noteq> None"
    by code_simp+
  have seq: "page_seq ?v 0x1001000 = [?v]" by (simp add: page_seq.simps PAGE_SIZE_def)
  have attr: "anonymous_page_attr 1 = 0x8000000000000005" "anonymous_page_attr 3 = 0x8000000000000007"
    "\<not> permissions_include 1 PermWrite" by code_simp+
  let ?vs1 = "the (stage_anonymous_protect (p_runtime_layout demo_process) (p_vmas demo_process) ?v 0x1001000 1)"
  let ?p1 = "demo_process\<lparr>p_vmas := ?vs1\<rparr>"
  let ?vs2 = "the (stage_anonymous_protect (p_runtime_layout demo_process) ?vs1 ?v 0x1001000 3)"
  have r1: "protect_anonymous_current True ?v PAGE_SIZE 1 (Some demo_process) ?st
      = (0, Some ?p1, two_vm 0x8000000000200005 0x8000000000200205 2)"
    using ev(6) by (auto simp: protect_anonymous_current_def ev(1-5) protect_present_pages_in_range_def seq
        two_protect attr)
  have r2: "protect_anonymous_current True ?v PAGE_SIZE 3 (Some ?p1) (two_vm 0x8000000000200005 0x8000000000200205 2)
      = (0, Some (?p1\<lparr>p_vmas := ?vs2\<rparr>), two_vm 0x8000000000200007 0x8000000000200205 2)"
    using ev(7) by (auto simp: protect_anonymous_current_def ev(1-5) protect_present_pages_in_range_def seq
        two_protect attr)
  have hyp: "p_address_space_root demo_process \<noteq> INVALID_PHYS_ADDR" "is_root two_own (p_address_space_root demo_process)"
    "frame_of 0x110000 \<noteq> frame_of (p_address_space_root demo_process)" "(0x8000000000200205 :: u64) AND ATTR_USER \<noteq> 0"
    "leaf_at ?st (p_address_space_root demo_process) ?v = Some 0x8000000000200205" "leaf_at ?st 0x110000 ?v = Some 0x8000000000200205"
    by (simp_all add: ev(5) INVALID_PHYS_ADDR_def two_roots PAGING_DESCRIPTOR_ADDR_MASK_def ATTR_USER_def two_leaf paging_present_def)
  from mprotect_breaks_isolation[OF two_wf hyp(2,1) two_roots(2) hyp(3) two_roots(3) hyp(5,4,6) r1 r2] r1 r2
  show ?thesis by (auto simp: ev(5) PAGING_DESCRIPTOR_ADDR_MASK_def)
qed


lemma find_holds: "find P xs = Some x \<Longrightarrow> P x"
  by (induction xs) (auto split: if_splits)

lemma find_update_first_same:
  assumes "find P xs = Some x" "find Q xs = Some x" "\<And>y. Q (g y) = Q y"
  shows "find Q (update_first P g xs) = Some (g x)"
  using assms by (induction xs) (auto split: if_splits dest: find_holds)

text \<open>C16. The downward-growing stack cannot be filled out of order. Once a fault has been resolved at a
  page of the stack, a fault at any higher page of the same area is refused, which kills the
  process, although the page lies in the area, was never mapped, and would have been given a frame
  had it been touched first.\<close>

theorem stack_gap_refused:
  assumes "internal_find_vma (p_vmas p) (page_down a) = Some vma" and "internal_find_vma (p_vmas p) (page_down b) = Some vma"
    and "v_backing vma = BackingAnonymous" and "v_growth vma = GrowthDown" and "page_down a \<le> page_down b"
    and "try_handle_user_page_fault ops cb ca pread a code (Some p) m = (True, Some p', m')" and "code AND 1 = 0"
    and "code' AND 1 = 0"
  shows "try_handle_user_page_fault ops cb' ca' pread' b code' (Some p') m' = (False, Some p', m')"
proof -
  let ?g = "\<lambda>v. v\<lparr>v_materialized_start := page_down a\<rparr>"
  from fault_anonymous[OF assms(1,3,7), of ops cb ca pread m] assms(4,6)
  have p': "p' = update_vma_at (page_down a) ?g p"
    by (auto simp: materialize_anonymous_def Let_def split: if_splits prod.splits)
  have "find (area_covers (page_down b)) (update_first (area_covers (page_down a)) ?g (vc_entries (p_vmas p))) = Some (?g vma)"
    using assms(1,2) by (intro find_update_first_same)
      (auto simp: internal_find_vma_def area_covers_def split: if_splits)
  then have "internal_find_vma (p_vmas p') (page_down b) = Some (?g vma)"
    using assms(2) by (simp add: p' update_vma_at_def internal_find_vma_def split: if_splits)
  moreover have "\<not> fault_range_ok p' (?g vma) (page_down b)"
    using assms(4,5) by (simp add: fault_range_ok_def not_less)
  ultimately show ?thesis using assms(3,8) by (simp add: try_handle_user_page_fault_def Let_def)
qed

definition stack_process :: process where
  "stack_process = demo_process\<lparr>p_vmas := the (internal_add_vma internal_init_vmas
     \<lparr>v_start = 0x7fb000, v_end = 0x800000, v_materialized_start = 0x7ff000, v_materialized_end = 0x800000,
      v_permissions = 3, v_purpose = PurposeStack, v_backing = BackingAnonymous, v_growth = GrowthDown, v_used = True,
      v_file_backing = None, v_file_offset = 0\<rparr>)\<rparr>"

definition stack_mem :: "u64 list mem" where
  "stack_mem = two_mem (demo_fresh\<lparr>vm_heap := [0x200000, 0x101000, 0x102000, 0x103000]\<rparr>)"

definition stack_fault :: "u64 \<Rightarrow> bool \<times> process option \<times> u64 list mem" where
  "stack_fault a = try_handle_user_page_fault pool_ops False True (\<lambda>_ _ _. None) a 6 (Some stack_process) stack_mem"

lemma stack_fault_resolved:
  assumes "v \<in> {0x7fc000, 0x7fd000}" shows "fst (stack_fault v)"
proof -
  have pg: "page_down v = v" using assms by (auto simp: page_down_def PAGE_SIZE_def)
  have "list_all (\<lambda>v. internal_vma_range_allowed (p_vmas stack_process) v PAGE_SIZE PermRead \<and>
      (case internal_find_vma (p_vmas stack_process) v of None \<Rightarrow> False | Some x \<Rightarrow>
        internal_vma_attr_allowed (Some x) (anonymous_page_attr (v_permissions x)) \<and> v_backing x = BackingAnonymous \<and>
        v_permissions x = 3 \<and> runtime_vma_allowed (p_runtime_layout stack_process) x \<and> fault_range_ok stack_process x v \<and>
        v_growth x = GrowthDown) \<and> page_aligned v)
      [0x7fc000, 0x7fd000]" by code_simp
  then obtain x where ev: "internal_vma_range_allowed (p_vmas stack_process) v PAGE_SIZE PermRead" "page_aligned v"
    "internal_find_vma (p_vmas stack_process) v = Some x" "internal_vma_attr_allowed (Some x) (anonymous_page_attr 3)"
    "v_backing x = BackingAnonymous" "v_permissions x = 3" "runtime_vma_allowed (p_runtime_layout stack_process) x"
    "fault_range_ok stack_process x v" "v_growth x = GrowthDown"
    using assms by (auto split: option.splits)
  have ev2: "p_state stack_process = Running" "p_address_space_root stack_process = 0x100000" "page_aligned 0x200000"
    "permissions_include 3 PermWrite" "anonymous_page_attr 3 = 0x8000000000000007" by code_simp+
  have map: "fst (map_page_in_root pool_ops 0x100000 v 0x200000 0x8000000000000007
      (set_page 0x200000 (\<lambda>_. 0) (demo_fresh\<lparr>vm_heap := [0x101000, 0x102000, 0x103000]\<rparr>)))"
    using assms by (auto simp: map_page_in_root_def map_root_page_def map_descend_def ensure_owned_descriptor_def
      map_leaf_def run_defs demo_fresh_def set_page_def Let_def)
  have z: "alloc_user_frame pool_ops (mm_vm stack_mem) = (0x200000, demo_fresh\<lparr>vm_heap := [0x101000, 0x102000, 0x103000]\<rparr>)"
    "zero_frame 0x200000 (demo_fresh\<lparr>vm_heap := h\<rparr>) = (True, set_page 0x200000 (\<lambda>_. 0) (demo_fresh\<lparr>vm_heap := h\<rparr>))" for h
    by (simp_all add: alloc_user_frame_def zero_frame_def demo_fresh_def run_defs stack_mem_def two_mem_def)
  show ?thesis
    using map by (auto simp: stack_fault_def try_handle_user_page_fault_def Let_def pg ev ev(4)[unfolded ev2(5)] ev2
      materialize_anonymous_def z map_user_page_for_process_def split: prod.splits)
qed

theorem stack_gap_refused_witness:
  "\<exists>p' m'. fst (stack_fault 0x7fd000) \<and> stack_fault 0x7fc000 = (True, Some p', m') \<and>
     try_handle_user_page_fault pool_ops False True (\<lambda>_ _ _. None) 0x7fd000 6 (Some p') m' = (False, Some p', m')"
proof -
  have pg: "page_down 0x7fc000 = 0x7fc000" "page_down 0x7fd000 = 0x7fd000" by (simp_all add: page_down_def PAGE_SIZE_def)
  have "internal_find_vma (p_vmas stack_process) 0x7fc000 = internal_find_vma (p_vmas stack_process) 0x7fd000 \<and>
    (case internal_find_vma (p_vmas stack_process) 0x7fc000 of None \<Rightarrow> False
     | Some x \<Rightarrow> v_backing x = BackingAnonymous \<and> v_growth x = GrowthDown)" by code_simp
  then obtain x where x: "internal_find_vma (p_vmas stack_process) (page_down 0x7fc000) = Some x"
    "internal_find_vma (p_vmas stack_process) (page_down 0x7fd000) = Some x" "v_backing x = BackingAnonymous" "v_growth x = GrowthDown"
    by (auto simp: pg split: option.splits)
  obtain p' m' where run: "stack_fault 0x7fc000 = (True, Some p', m')"
    using stack_fault_resolved[of "0x7fc000"] fault_anonymous[OF x(1,3), of 6 pool_ops False True "\<lambda>_ _ _. None" stack_mem]
    by (auto simp: stack_fault_def)
  from stack_gap_refused[OF x _ run[unfolded stack_fault_def], of 6 False True "\<lambda>_ _ _. None"] run stack_fault_resolved[of "0x7fd000"]
  show ?thesis by (simp add: pg)
qed


text \<open>C14. When fork copies a writable anonymous page, parent and child end up with the same leaf over the
  parent's frame: readable, marked copy-on-write, writable for neither, with the execute permission
  it had. The frame counts as shared, so that the next write on either side takes the copying branch
  of the split; no byte and no other leaf of any root has changed.\<close>

theorem fork_shares_page:
  assumes "frame_allocator ops hinv frees" and "pt_inv hinv frees own (mm_vm m)"
    and "is_root own (p_address_space_root parent)" and "is_root own (p_address_space_root child)"
    and "frame_of (p_address_space_root child) \<noteq> frame_of (p_address_space_root parent)"
    and "user_addr page" and "v_backing vma = BackingAnonymous"
    and "leaf_at (mm_vm m) (p_address_space_root parent) page = Some d" and "d AND ATTR_USER \<noteq> 0" and "d AND ATTR_WRITABLE \<noteq> 0"
    and "clone_user_leaf ops parent child vma page (frame_of d) (d AND NOT PAGING_DESCRIPTOR_ADDR_MASK) m = (True, m')"
  shows "\<exists>own' e. pt_inv hinv frees own' (mm_vm m') \<and>
    leaf_at (mm_vm m') (p_address_space_root parent) page = Some e \<and>
    leaf_at (mm_vm m') (p_address_space_root child) page = Some e \<and> frame_of e = frame_of d \<and>
    e AND ATTR_WRITABLE = 0 \<and> e AND ATTR_PTE_COW \<noteq> 0 \<and> e AND ATTR_USER \<noteq> 0 \<and>
    (e AND ATTR_NO_EXECUTE = 0 \<longleftrightarrow> d AND ATTR_NO_EXECUTE = 0) \<and>
    frame_ref_is_shared (mm_vm m') (frame_of d) \<and> vm_bytes (mm_vm m') = vm_bytes (mm_vm m) \<and>
    (\<forall>r w. is_root own r \<and> user_addr w \<and> w AND (PAGE_SIZE - 1) = 0 \<and>
       \<not> (w = page \<and> frame_of r \<in> {frame_of (p_address_space_root parent), frame_of (p_address_space_root child)}) \<longrightarrow>
       leaf_at (mm_vm m') r w = leaf_at (mm_vm m) r w)"
  by (rule clone_shares[OF assms])

theorem fork_shares_page_witness:
  "\<exists>m' e. clone_user_leaf pool_ops demo_process (demo_process\<lparr>p_address_space_root := 0x110000\<rparr>) demo_area 0x1000000
       0x200000 0x8000000000000007 (two_mem (two_vm 0x8000000000200007 0 0)) = (True, m') \<and>
     leaf_at (mm_vm m') 0x100000 0x1000000 = Some e \<and> leaf_at (mm_vm m') 0x110000 0x1000000 = Some e \<and>
     frame_of e = 0x200000 \<and> e AND ATTR_WRITABLE = 0"
proof -
  let ?m = "two_mem (two_vm 0x8000000000200007 0 0)" and ?child = "demo_process\<lparr>p_address_space_root := 0x110000\<rparr>"
  let ?run = "clone_user_leaf pool_ops demo_process ?child demo_area 0x1000000
       (frame_of 0x8000000000200007) (0x8000000000200007 AND NOT PAGING_DESCRIPTOR_ADDR_MASK) ?m"
  have run: "fst ?run"
    by (simp add: clone_user_leaf_def demo_area_def two_mem_def Let_def cow_shared_attr_def attr_defs frame_ref_inc_def
       frame_refcount_slot_def two_vm_def two_tables_def two_metas_def demo_process_def map_page_in_root_def map_root_page_def
       map_descend_def ensure_owned_descriptor_def map_leaf_def remap_user_page_in_root_def root_pte_def next_table_def run_defs)
  then obtain m' where m': "?run = (True, m')" by (cases ?run) auto
  have hyp: "pt_inv pool_inv set two_own (mm_vm ?m)" "is_root two_own (p_address_space_root demo_process)"
    "is_root two_own (p_address_space_root ?child)" "frame_of (p_address_space_root ?child) \<noteq> frame_of (p_address_space_root demo_process)"
    "v_backing demo_area = BackingAnonymous" "(0x8000000000200007 :: u64) AND ATTR_USER \<noteq> 0" "(0x8000000000200007 :: u64) AND ATTR_WRITABLE \<noteq> 0"
    "leaf_at (mm_vm ?m) (p_address_space_root demo_process) 0x1000000 = Some 0x8000000000200007"
    by (simp_all add: two_mem_def two_inv two_roots demo_process_def PAGING_DESCRIPTOR_ADDR_MASK_def demo_area_def attr_defs
        two_leaf paging_present_def)
  have fr: "frame_of 0x8000000000200007 = (0x200000 :: u64)"
    "(0x8000000000200007 :: u64) AND NOT PAGING_DESCRIPTOR_ADDR_MASK = 0x8000000000000007" "p_address_space_root demo_process = 0x100000"
    by (simp_all add: PAGING_DESCRIPTOR_ADDR_MASK_def demo_process_def)
  from fork_shares_page[OF pool_allocator hyp(1-4) two_roots(3) hyp(5) hyp(8,6,7) m'] m'
  show ?thesis unfolding fr by auto
qed

end
