(* ===== verification/Bytes.thy ===== *)
theory Bytes
  imports Prelude
begin

text \<open>
  Machine words as byte sequences: the little-endian layout the processor gives a 64-bit field in
  memory, and the big-endian reads and writes of network headers.
\<close>

section \<open>Little-endian quadwords\<close>

definition u64_le :: "u64 \<Rightarrow> u8 list" where
  "u64_le w = map (\<lambda>i. ucast (drop_bit (8 * i) w)) [0..<8]"

fun le_u64 :: "u8 list \<Rightarrow> u64" where
  "le_u64 [] = 0"
| "le_u64 (b # bs) = ucast b OR push_bit 8 (le_u64 bs)"

lemma length_u64_le [simp]: "length (u64_le w) = 8"
  by (simp add: u64_le_def)

lemma bit_le_u64:
  "bit (le_u64 bs) n \<longleftrightarrow> n < 64 \<and> n < 8 * length bs \<and> bit (bs ! (n div 8)) (n mod 8)"
proof (induction bs arbitrary: n)
  case (Cons b bs)
  show ?case
  proof (cases "n < 8")
    case False
    then have d: "n div 8 = Suc ((n - 8) div 8)" "n mod 8 = (n - 8) mod 8"
      by (simp_all add: le_div_geq le_mod_geq)
    from False show ?thesis
      using bit_imp_le_length[of b n] by (auto simp: bit_simps Cons.IH d)
  qed (auto simp: bit_simps dest: bit_imp_le_length)
qed simp

lemma le_u64_inverse [simp]: "le_u64 (u64_le w) = w"
proof (rule bit_word_eqI)
  fix n assume "n < LENGTH(64)"
  then have "n div 8 < 8" "8 * (n div 8) + n mod 8 = n" by simp_all
  then show "bit (le_u64 (u64_le w)) n = bit w n"
    using \<open>n < LENGTH(64)\<close> by (simp add: bit_le_u64 u64_le_def bit_simps)
qed

fun le_words :: "nat \<Rightarrow> u8 list \<Rightarrow> u64 list" where
  "le_words 0 bs = []"
| "le_words (Suc n) bs = le_u64 (take 8 bs) # le_words n (drop 8 bs)"

lemma le_words_inverse: "le_words (length ws) (concat (map u64_le ws)) = ws"
  by (induction ws) auto

lemma length_concat_u64_le [simp]: "length (concat (map u64_le ws)) = 8 * length ws"
  by (induction ws) auto

end
