(* ===== verification/Cred.thy ===== *)
theory Cred
  imports Process
begin

text \<open>
  Who may signal whom and who may access which file (\<^verbatim>\<open>kernel/core/proc/cred.cc\<close>): pure decisions on
  the identity quad of a process and on POSIX permission bits.
\<close>

definition ROOT_UID :: u32 where "ROOT_UID = 0"
definition S_IRUSR :: u32 where "S_IRUSR = 0x100"
definition S_IWUSR :: u32 where "S_IWUSR = 0x80"
definition S_IXUSR :: u32 where "S_IXUSR = 0x40"
definition S_IRGRP :: u32 where "S_IRGRP = 0x20"
definition S_IWGRP :: u32 where "S_IWGRP = 0x10"
definition S_IXGRP :: u32 where "S_IXGRP = 8"
definition S_IROTH :: u32 where "S_IROTH = 4"
definition S_IWOTH :: u32 where "S_IWOTH = 2"
definition S_IXOTH :: u32 where "S_IXOTH = 1"

lemmas mode_bits = S_IRUSR_def S_IWUSR_def S_IXUSR_def S_IRGRP_def S_IWGRP_def S_IXGRP_def S_IROTH_def S_IWOTH_def S_IXOTH_def

datatype access = AccessRead | AccessWrite | AccessExecute

definition may_signal :: "process option \<Rightarrow> process option \<Rightarrow> bool" where
  "may_signal actor target =
    (case (actor, target) of
       (Some a, Some t) \<Rightarrow> if p_euid a = ROOT_UID then True else p_euid a = p_uid t \<or> p_euid a = p_euid t
     | _ \<Rightarrow> False)"

definition permits :: "u32 \<Rightarrow> u32 \<Rightarrow> u32 \<Rightarrow> u32 \<Rightarrow> u32 \<Rightarrow> access \<Rightarrow> bool" where
  "permits file_uid file_gid mode req_uid req_gid acc =
    (if req_uid = ROOT_UID then True
     else
       (let (read_bit, write_bit, execute_bit) =
              (if req_uid = file_uid then (S_IRUSR, S_IWUSR, S_IXUSR)
               else if req_gid = file_gid then (S_IRGRP, S_IWGRP, S_IXGRP)
               else (S_IROTH, S_IWOTH, S_IXOTH))
        in case acc of
             AccessRead \<Rightarrow> mode AND read_bit \<noteq> 0
           | AccessWrite \<Rightarrow> mode AND write_bit \<noteq> 0
           | AccessExecute \<Rightarrow> mode AND execute_bit \<noteq> 0))"

text \<open>The reference: one three-bit group of the mode, chosen by the first class that matches, read at
  the bit of the access.\<close>

definition class_shift :: "u32 \<Rightarrow> u32 \<Rightarrow> u32 \<Rightarrow> u32 \<Rightarrow> nat" where
  "class_shift file_uid file_gid req_uid req_gid =
    (if req_uid = file_uid then 6 else if req_gid = file_gid then 3 else 0)"

fun access_bit :: "access \<Rightarrow> nat" where
  "access_bit AccessRead = 2" | "access_bit AccessWrite = 1" | "access_bit AccessExecute = 0"

section \<open>Properties\<close>


end
