(* ===== verification/Signal.thy ===== *)
theory Signal
  imports Addr_Space_Props Bytes Cred
begin

text \<open>
  Signals (\<^verbatim>\<open>kernel/core/signal/signal.cc\<close>) and the system calls that reach them
  (\<^verbatim>\<open>kernel/core/syscall/syscall.cc\<close>): pending and blocked sets as bitmaps, the disposition table,
  delivery on the way back to user mode with a frame on the user stack, and \<^verbatim>\<open>sigreturn\<close>. Leaving the
  process for good (\<^verbatim>\<open>fault_current_and_exit\<close>) is a result of its own. Signal numbers are C ints.
\<close>

section \<open>Constants and frames\<close>

definition SIGINT :: int where "SIGINT = 2"
definition SIGKILL :: int where "SIGKILL = 9"
definition SIGSEGV :: int where "SIGSEGV = 11"
definition SIGPIPE :: int where "SIGPIPE = 13"
definition SIGCHLD :: int where "SIGCHLD = 17"
definition SIG_MIN :: int where "SIG_MIN = 1"
definition SIG_MAX :: int where "SIG_MAX = 31"
definition SIG_COUNT :: nat where "SIG_COUNT = 31"
definition SIG_BLOCK :: u64 where "SIG_BLOCK = 0"
definition SIG_UNBLOCK :: u64 where "SIG_UNBLOCK = 1"
definition SIG_SETMASK :: u64 where "SIG_SETMASK = 2"
definition SIGNAL_TERMINATE_STATUS_BASE :: int where "SIGNAL_TERMINATE_STATUS_BASE = 128"
definition SIGFRAME_MAGIC :: u64 where "SIGFRAME_MAGIC = 0x4249475349474652"
definition RFLAGS_USER_SAFE :: u64 where "RFLAGS_USER_SAFE = 0xCD5"
definition RFLAGS_IF :: u64 where "RFLAGS_IF = 0x200"
definition RFLAGS_RESERVED_ONE :: u64 where "RFLAGS_RESERVED_ONE = 2"
definition USER_RED_ZONE :: u64 where "USER_RED_ZONE = 128"
definition STACK_ALIGN :: u64 where "STACK_ALIGN = 16"
definition USER_DATA_SELECTOR :: u64 where "USER_DATA_SELECTOR = 0x23"
definition USER_CODE_SELECTOR :: u64 where "USER_CODE_SELECTOR = 0x2b"
definition EPIPE :: int where "EPIPE = 32"

lemmas signal_consts = SIGINT_def SIGKILL_def SIGSEGV_def SIGPIPE_def SIGCHLD_def SIG_MIN_def SIG_MAX_def SIG_COUNT_def

datatype default_action_kind = ActTerminate | ActIgnore

record interrupt_frame =
  r15 :: u64  r14 :: u64  r13 :: u64  r12 :: u64  r11 :: u64  r10 :: u64  r9 :: u64  r8 :: u64
  rdi :: u64  rsi :: u64  rbp :: u64  rdx :: u64  rcx :: u64  rbx :: u64  rax :: u64
  rsp :: u64  ss :: u64  vector :: u64  error_code :: u64  rip :: u64  cs :: u64  rflags :: u64

record signal_frame =
  sf_magic :: u64  sf_signo :: u64  sf_saved_mask :: u64
  sf_r15 :: u64  sf_r14 :: u64  sf_r13 :: u64  sf_r12 :: u64  sf_r11 :: u64  sf_r10 :: u64  sf_r9 :: u64  sf_r8 :: u64
  sf_rdi :: u64  sf_rsi :: u64  sf_rbp :: u64  sf_rdx :: u64  sf_rcx :: u64  sf_rbx :: u64  sf_rax :: u64
  sf_rip :: u64  sf_rsp :: u64  sf_rflags :: u64

text \<open>The frame in memory: its fields in declaration order, each little-endian.\<close>

definition signal_frame_words :: "signal_frame \<Rightarrow> u64 list" where
  "signal_frame_words sf =
    [sf_magic sf, sf_signo sf, sf_saved_mask sf, sf_r15 sf, sf_r14 sf, sf_r13 sf, sf_r12 sf, sf_r11 sf, sf_r10 sf,
     sf_r9 sf, sf_r8 sf, sf_rdi sf, sf_rsi sf, sf_rbp sf, sf_rdx sf, sf_rcx sf, sf_rbx sf, sf_rax sf, sf_rip sf,
     sf_rsp sf, sf_rflags sf]"

definition signal_frame_bytes :: "signal_frame \<Rightarrow> u8 list" where
  "signal_frame_bytes sf = concat (map u64_le (signal_frame_words sf))"

definition SIGNAL_FRAME_SIZE :: nat where "SIGNAL_FRAME_SIZE = 168"

definition bytes_signal_frame :: "u8 list \<Rightarrow> signal_frame" where
  "bytes_signal_frame bs =
    (let w = (\<lambda>i. le_words 21 bs ! i) in
     \<lparr>sf_magic = w 0, sf_signo = w 1, sf_saved_mask = w 2, sf_r15 = w 3, sf_r14 = w 4, sf_r13 = w 5, sf_r12 = w 6,
      sf_r11 = w 7, sf_r10 = w 8, sf_r9 = w 9, sf_r8 = w 10, sf_rdi = w 11, sf_rsi = w 12, sf_rbp = w 13, sf_rdx = w 14,
      sf_rcx = w 15, sf_rbx = w 16, sf_rax = w 17, sf_rip = w 18, sf_rsp = w 19, sf_rflags = w 20\<rparr>)"

section \<open>Signal sets\<close>

definition lowest_set_signo :: "u64 \<Rightarrow> int" where
  \<comment> \<open>\<^verbatim>\<open>__builtin_ctzll\<close> is the index of the lowest set bit\<close>
  "lowest_set_signo s = (if s = 0 then 0 else int (hd (filter (bit s) [0..<64])) + 1)"

definition valid_signo :: "int \<Rightarrow> bool" where
  "valid_signo signo \<longleftrightarrow> SIG_MIN \<le> signo \<and> signo \<le> SIG_MAX"

definition is_uncatchable :: "int \<Rightarrow> bool" where "is_uncatchable signo \<longleftrightarrow> signo = SIGKILL"

definition is_unblockable :: "int \<Rightarrow> bool" where "is_unblockable signo \<longleftrightarrow> signo = SIGKILL"

definition default_action :: "int \<Rightarrow> default_action_kind" where
  "default_action signo = (if signo = SIGCHLD then ActIgnore else ActTerminate)"

definition signo_bit :: "int \<Rightarrow> u64" where
  "signo_bit signo = (if \<not> valid_signo signo then 0 else push_bit (nat (signo - 1)) 1)"

section \<open>Per-process signal state\<close>

definition default_disposition :: sig_disposition where
  "default_disposition = \<lparr>sd_action = ActionDefault, sd_handler = 0\<rparr>"

definition init_state :: "process \<Rightarrow> process" where
  "init_state p = p\<lparr>p_sig_pending := 0, p_sig_mask := 0, p_sig_disp := replicate SIG_COUNT default_disposition\<rparr>"

definition inherit_on_fork :: "process \<Rightarrow> process \<Rightarrow> process" where
  "inherit_on_fork child parent =
     child\<lparr>p_sig_disp := p_sig_disp parent, p_sig_mask := p_sig_mask parent, p_sig_pending := 0\<rparr>"

definition reset_handlers_on_exec :: "process \<Rightarrow> process" where
  "reset_handlers_on_exec p =
     p\<lparr>p_sig_disp := map (\<lambda>d. if sd_action d = ActionHandler then default_disposition else d) (p_sig_disp p)\<rparr>"

definition kill :: "process option \<Rightarrow> int \<Rightarrow> int \<times> process option" where
  "kill target signo =
    (case target of
       None \<Rightarrow> (- EINVAL, None)
     | Some t \<Rightarrow> if \<not> valid_signo signo then (- EINVAL, Some t)
                 else (0, Some (t\<lparr>p_sig_pending := p_sig_pending t OR signo_bit signo\<rparr>)))"

definition raise_broken_pipe :: "process option \<Rightarrow> bool \<Rightarrow> int \<times> process option" where
  "raise_broken_pipe cur suppress =
    (case cur of
       None \<Rightarrow> (- EPIPE, None)
     | Some p \<Rightarrow>
       if \<not> suppress \<and> sd_action (p_sig_disp p ! nat (SIGPIPE - 1)) \<noteq> ActionIgnore
       then (- EPIPE, snd (kill (Some p) SIGPIPE)) else (- EPIPE, Some p))"

definition deliverable :: "process \<Rightarrow> u64" where
  "deliverable p = (p_sig_pending p AND NOT (p_sig_mask p)) OR (p_sig_pending p AND signo_bit SIGKILL)"

definition has_deliverable_signal :: "process option \<Rightarrow> bool" where
  "has_deliverable_signal cur = (case cur of None \<Rightarrow> False | Some p \<Rightarrow> deliverable p \<noteq> 0)"

definition set_disposition ::
    "process option \<Rightarrow> int \<Rightarrow> sig_disposition option \<Rightarrow> int \<times> sig_disposition option \<times> process option" where
  \<comment> \<open>the second component is the old disposition where the call reports it\<close>
  "set_disposition cur signo new =
    (case cur of
       None \<Rightarrow> (- EINVAL, None, None)
     | Some p \<Rightarrow>
       if \<not> valid_signo signo then (- EINVAL, None, Some p)
       else
         (let old = p_sig_disp p ! nat (signo - 1) in
          case new of
            None \<Rightarrow> (0, Some old, Some p)
          | Some d \<Rightarrow>
            if is_uncatchable signo \<and> sd_action d \<noteq> ActionDefault then (- EINVAL, Some old, Some p)
            else (0, Some old, Some (p\<lparr>p_sig_disp := (p_sig_disp p)[nat (signo - 1) := d]\<rparr>))))"

definition set_mask :: "process option \<Rightarrow> u64 \<Rightarrow> u64 \<Rightarrow> int \<times> u64 \<times> process option" where
  "set_mask cur how set_bits =
    (case cur of
       None \<Rightarrow> (- EINVAL, 0, None)
     | Some p \<Rightarrow>
       (let requested = set_bits AND NOT (signo_bit SIGKILL); old = p_sig_mask p in
        if how = SIG_BLOCK then (0, old, Some (p\<lparr>p_sig_mask := p_sig_mask p OR requested\<rparr>))
        else if how = SIG_UNBLOCK then (0, old, Some (p\<lparr>p_sig_mask := p_sig_mask p AND NOT set_bits\<rparr>))
        else if how = SIG_SETMASK then (0, old, Some (p\<lparr>p_sig_mask := requested\<rparr>))
        else (- EINVAL, old, Some p)))"

section \<open>Delivery and return\<close>

text \<open>Either the process resumes with a frame, or it is terminated with a status.\<close>

datatype 'h delivery = Resumed interrupt_frame process "'h vm_state" | Exited int

definition force_user_return_frame :: "interrupt_frame \<Rightarrow> u64 \<Rightarrow> interrupt_frame" where
  "force_user_return_frame f fl = f\<lparr>cs := USER_CODE_SELECTOR, ss := USER_DATA_SELECTOR, rflags := fl\<rparr>"

definition save_frame :: "interrupt_frame \<Rightarrow> int \<Rightarrow> u64 \<Rightarrow> signal_frame" where
  "save_frame f signo blocked =
     \<lparr>sf_magic = SIGFRAME_MAGIC, sf_signo = word_of_int signo, sf_saved_mask = blocked,
      sf_r15 = r15 f, sf_r14 = r14 f, sf_r13 = r13 f, sf_r12 = r12 f, sf_r11 = r11 f, sf_r10 = r10 f, sf_r9 = r9 f,
      sf_r8 = r8 f, sf_rdi = rdi f, sf_rsi = rsi f, sf_rbp = rbp f, sf_rdx = rdx f, sf_rcx = rcx f, sf_rbx = rbx f,
      sf_rax = rax f, sf_rip = rip f, sf_rsp = rsp f, sf_rflags = rflags f\<rparr>"

definition signal_frame_addr :: "u64 \<Rightarrow> u64" where
  "signal_frame_addr sp = (sp - USER_RED_ZONE - word_of_nat SIGNAL_FRAME_SIZE) AND NOT (STACK_ALIGN - 1)"

definition enter_handler :: "interrupt_frame \<Rightarrow> process \<Rightarrow> int \<Rightarrow> sig_disposition \<Rightarrow> 'h vm_state \<Rightarrow> 'h delivery" where
  "enter_handler f p signo disp st =
    (let frame_addr = signal_frame_addr (rsp f);
         segv = - (SIGNAL_TERMINATE_STATUS_BASE + SIGSEGV)
     in if frame_addr \<ge> USER_LOW_HALF_LIMIT \<or>
           \<not> validate_user_io_buffer (Some p) st frame_addr (word_of_nat SIGNAL_FRAME_SIZE) then Exited segv
        else case copy_to_current_user_buffer (Some p) frame_addr
               (signal_frame_bytes (save_frame f signo (p_sig_mask p))) st of
          (ok, st') \<Rightarrow>
            if \<not> ok then Exited segv
            else Resumed (f\<lparr>rip := sd_handler disp, rdi := word_of_int signo, rsp := frame_addr\<rparr>)
                   (p\<lparr>p_sig_mask := p_sig_mask p OR signo_bit signo\<rparr>) st')"

definition deliver_pending_to_user :: "interrupt_frame \<Rightarrow> process \<Rightarrow> 'h vm_state \<Rightarrow> 'h delivery" where
  "deliver_pending_to_user f p st =
    (if deliverable p = 0 then Resumed f p st
     else
       (let signo = lowest_set_signo (deliverable p);
            p1 = p\<lparr>p_sig_pending := p_sig_pending p AND NOT (signo_bit signo)\<rparr>;
            disp = p_sig_disp p1 ! nat (signo - 1);
            status = - (SIGNAL_TERMINATE_STATUS_BASE + signo)
        in if is_uncatchable signo then Exited status
           else if sd_action disp = ActionIgnore then Resumed f p1 st
           else if sd_action disp = ActionDefault then
             (if default_action signo = ActTerminate then Exited status else Resumed f p1 st)
           else enter_handler f p1 signo disp st))"

text \<open>\<^verbatim>\<open>read_user_chunked\<close>: at most 64 bytes per copy.\<close>

function read_user_chunked :: "process option \<Rightarrow> 'h vm_state \<Rightarrow> u64 \<Rightarrow> nat \<Rightarrow> u8 list option" where
  "read_user_chunked cur st addr len =
    (if len = 0 then Some []
     else
       (let chunk = (if len > 64 then 64 else len) in
        case copy_current_user_buffer cur st addr (word_of_nat chunk) of
          None \<Rightarrow> None
        | Some bs \<Rightarrow>
          (case read_user_chunked cur st (addr + word_of_nat chunk) (len - chunk) of
             None \<Rightarrow> None | Some rest \<Rightarrow> Some (bs @ rest))))"
  by pat_completeness auto
termination
  by (relation "measure (\<lambda>(cur, st, addr, len). len)") auto
declare read_user_chunked.simps [simp del]

definition restore_frame :: "interrupt_frame \<Rightarrow> signal_frame \<Rightarrow> interrupt_frame" where
  "restore_frame f sf =
     f\<lparr>r15 := sf_r15 sf, r14 := sf_r14 sf, r13 := sf_r13 sf, r12 := sf_r12 sf, r11 := sf_r11 sf, r10 := sf_r10 sf,
       r9 := sf_r9 sf, r8 := sf_r8 sf, rdi := sf_rdi sf, rsi := sf_rsi sf, rbp := sf_rbp sf, rdx := sf_rdx sf,
       rcx := sf_rcx sf, rbx := sf_rbx sf, rax := sf_rax sf, rip := sf_rip sf, rsp := sf_rsp sf\<rparr>"

definition sigreturn :: "interrupt_frame \<Rightarrow> process \<Rightarrow> 'h vm_state \<Rightarrow> 'h delivery" where
  "sigreturn f p st =
    (let segv = - (SIGNAL_TERMINATE_STATUS_BASE + SIGSEGV) in
     case read_user_chunked (Some p) st (rsp f) SIGNAL_FRAME_SIZE of
       None \<Rightarrow> Exited segv
     | Some bs \<Rightarrow>
       (let sf = bytes_signal_frame bs in
        if sf_magic sf \<noteq> SIGFRAME_MAGIC then Exited segv
        else if sf_rip sf \<ge> USER_LOW_HALF_LIMIT \<or> sf_rsp sf \<ge> USER_LOW_HALF_LIMIT then Exited segv
        else Resumed
               (force_user_return_frame (restore_frame f sf)
                 ((sf_rflags sf AND RFLAGS_USER_SAFE) OR RFLAGS_IF OR RFLAGS_RESERVED_ONE))
               (p\<lparr>p_sig_mask := sf_saved_mask sf AND NOT (signo_bit SIGKILL)\<rparr>) st))"

section \<open>System calls\<close>

definition lookup_process :: "u32 \<Rightarrow> process list \<Rightarrow> process option" where
  "lookup_process pid ps = (if pid = 0 then None else find (\<lambda>p. p_pid p = pid) ps)"

definition find_process :: "u32 \<Rightarrow> process list \<Rightarrow> process option" where
  "find_process pid ps =
    (case lookup_process pid ps of
       None \<Rightarrow> None
     | Some p \<Rightarrow> if p_state p = Reaped \<or> p_state p = StateEmpty then None else Some p)"

definition sys_kill :: "process option \<Rightarrow> u64 \<Rightarrow> u64 \<Rightarrow> process list \<Rightarrow> int \<times> process list" where
  \<comment> \<open>\<open>ps\<close> is the registry; the target is updated in place\<close>
  "sys_kill actor pid signo ps =
    (if actor = None then (- ESRCH, ps)
     else case find_process (ucast pid) ps of
       None \<Rightarrow> (- ESRCH, ps)
     | Some t \<Rightarrow>
       if \<not> may_signal actor (Some t) then (- EPERM, ps)
       else (case kill (Some t) (sint (ucast signo :: u32)) of
               (r, Some t') \<Rightarrow> (r, update_first (\<lambda>p. p_pid p = ucast pid) (\<lambda>_. t') ps)
             | (r, None) \<Rightarrow> (r, ps)))"

fun action_code :: "sig_action \<Rightarrow> u64" where
  "action_code ActionDefault = 0" | "action_code ActionIgnore = 1" | "action_code ActionHandler = 2"

definition sys_sigaction ::
    "process option \<Rightarrow> u64 \<Rightarrow> u64 \<Rightarrow> u64 \<Rightarrow> u64 \<Rightarrow> 'h vm_state \<Rightarrow> int \<times> process option \<times> 'h vm_state" where
  "sys_sigaction cur signo act handler old_out st =
    (if cur = None then (- EINVAL, cur, st)
     else if act > 2 then (- EINVAL, cur, st)
     else
       (let a = (if act = 0 then ActionDefault else if act = 1 then ActionIgnore else ActionHandler) in
        case set_disposition cur (sint (ucast signo :: u32)) (Some \<lparr>sd_action = a, sd_handler = handler\<rparr>) of
          (r, old, cur') \<Rightarrow>
            if r \<noteq> 0 then (r, cur', st)
            else if old_out \<noteq> 0 then
              (case copy_to_current_user_buffer cur' old_out
                   (u64_le (action_code (sd_action (the old))) @ u64_le (sd_handler (the old))) st of
                 (ok, st') \<Rightarrow> if \<not> ok then (- EFAULT, cur', st') else (0, cur', st'))
            else (0, cur', st)))"

definition sys_sigprocmask ::
    "process option \<Rightarrow> u64 \<Rightarrow> u64 \<Rightarrow> u64 \<Rightarrow> 'h vm_state \<Rightarrow> int \<times> process option \<times> 'h vm_state" where
  "sys_sigprocmask cur how set_bits old_out st =
    (if cur = None then (- EINVAL, cur, st)
     else case set_mask cur how set_bits of
       (r, old, cur') \<Rightarrow>
         if r \<noteq> 0 then (r, cur', st)
         else if old_out \<noteq> 0 then
           (case copy_to_current_user_buffer cur' old_out (u64_le old) st of
              (ok, st') \<Rightarrow> if \<not> ok then (- EFAULT, cur', st') else (0, cur', st'))
         else (0, cur', st))"

section \<open>Frames in user memory\<close>

lemma signal_frame_bytes_length [simp]: "length (signal_frame_bytes sf) = SIGNAL_FRAME_SIZE"
  unfolding signal_frame_bytes_def length_concat_u64_le by (simp add: signal_frame_words_def SIGNAL_FRAME_SIZE_def)

lemma signal_frame_words_length: "length (signal_frame_words sf) = 21"
  by (simp add: signal_frame_words_def)

lemma bytes_signal_frame_inverse [simp]: "bytes_signal_frame (signal_frame_bytes sf) = sf"
proof -
  have "le_words 21 (signal_frame_bytes sf) = signal_frame_words sf"
    using le_words_inverse[of "signal_frame_words sf"]
    unfolding signal_frame_bytes_def by (simp add: signal_frame_words_length)
  then show ?thesis by (simp add: bytes_signal_frame_def signal_frame_words_def Let_def)
qed

lemma user_bytes_split:
  "c \<le> n \<Longrightarrow> user_bytes st root a n = user_bytes st root a c @ user_bytes st root (a + word_of_nat c) (n - c)"
  unfolding user_bytes_def by (subst map_upt_split[of c]) (simp_all add: add.assoc)

lemma range_allowed_sub:
  assumes "vma_inv vs" "runtime_range_allowed layout vs a (word_of_nat n) perm" "n < 2 ^ 64" "c + m \<le> n" "0 < m"
  shows "runtime_range_allowed layout vs (a + word_of_nat c) (word_of_nat m) perm"
proof -
  have u: "unat (word_of_nat k :: u64) = k" if "k \<le> n" for k using that assms(3) by (simp add: unat_of_nat)
  from assms(2) have v: "unat a + n \<le> 2 ^ 47" and all: "\<And>x. a \<le> x \<Longrightarrow> x < a + word_of_nat n \<Longrightarrow>
      \<exists>y. vma_at vs x = Some y \<and> runtime_vma_allowed layout y \<and> permissions_include (v_permissions y) perm"
    by (auto simp: runtime_range_allowed_iff[OF assms(1)] user_range_valid_iff u)
  have s: "unat (a + word_of_nat k) = unat a + k" if "k \<le> n" for k
    using v that by (subst unat_plus_if_no_wrap) (simp_all add: u)
  have e: "a + word_of_nat c + word_of_nat m = a + word_of_nat (c + m)" by (simp add: add.assoc)
  show ?thesis
    unfolding runtime_range_allowed_iff[OF assms(1)] user_range_valid_iff e
  proof (intro conjI allI impI)
    show "word_of_nat m \<noteq> (0 :: u64)" using u[of m] assms(4,5) by auto
    show "unat (a + word_of_nat c) + unat (word_of_nat m :: u64) \<le> 2 ^ 47" using s[of c] u[of m] v assms(4) by simp
    fix x assume x: "a + word_of_nat c \<le> x \<and> x < a + word_of_nat (c + m)"
    have "a \<le> x" "x < a + word_of_nat n"
      using x s[of c] s[of "c + m"] s[of n] assms(4) by (simp_all add: word_le_nat_alt word_less_nat_alt)
    then show "\<exists>y. vma_at vs x = Some y \<and> runtime_vma_allowed layout y \<and> permissions_include (v_permissions y) perm"
      by (rule all)
  qed
qed

lemma copy_current_user_buffer_ok:
  assumes "p_state p = Running" "0 < n" "n \<le> 512"
    and "runtime_range_allowed (p_runtime_layout p) (p_vmas p) a (word_of_nat n) PermRead"
    and "user_bytes st (p_address_space_root p) a n = map Some bs"
    and "\<And>k. k < n \<Longrightarrow> slot_ok st (p_address_space_root p) (\<lambda>_. True) (a + word_of_nat k)"
  shows "copy_current_user_buffer (Some p) st a (word_of_nat n) = Some bs"
proof -
  have u: "unat (word_of_nat n :: u64) = n" using assms(3) by (simp add: unat_of_nat)
  obtain bs' where bs': "copy_from_loop st (p_address_space_root p) a n = Some bs'"
    using copy_from_loop_total[of n st "p_address_space_root p" a] assms(6) by blast
  from copy_from_loop_sound[OF bs'] assms(5) have "bs' = bs" by (simp add: inj_map_eq_map)
  then show ?thesis using assms(1-4) bs'
    by (simp add: copy_current_user_buffer_def copy_from_user_root_def u SYS_IO_MAX_LEN_def word_less_nat_alt)
qed

lemma read_user_chunked_ok:
  assumes "p_state p = Running" "vma_inv (p_vmas p)"
  shows "n < 2 ^ 64 \<Longrightarrow> (n \<noteq> 0 \<Longrightarrow> runtime_range_allowed (p_runtime_layout p) (p_vmas p) a (word_of_nat n) PermRead) \<Longrightarrow>
     user_bytes st (p_address_space_root p) a n = map Some bs \<Longrightarrow>
     (\<And>k. k < n \<Longrightarrow> slot_ok st (p_address_space_root p) (\<lambda>_. True) (a + word_of_nat k)) \<Longrightarrow>
     read_user_chunked (Some p) st a n = Some bs"
proof (induction n arbitrary: a bs rule: less_induct)
  case (less n)
  show ?case
  proof (cases "n = 0")
    case True
    then show ?thesis using less.prems(3) by (simp add: read_user_chunked.simps user_bytes_def)
  next
    case False
    define c where "c = (if n > 64 then 64 else n)"
    have c: "0 < c" "c \<le> n" "c \<le> 64" using False by (auto simp: c_def)
    let ?root = "p_address_space_root p"
    have len: "length bs = n" using arg_cong[OF less.prems(3), of length] by (simp add: user_bytes_def)
    have "map Some (take c bs) @ map Some (drop c bs) = user_bytes st ?root a c @ user_bytes st ?root (a + word_of_nat c) (n - c)"
      using less.prems(3) user_bytes_split[OF c(2), of st ?root a] by (simp flip: map_append)
    moreover have "length (map Some (take c bs)) = length (user_bytes st ?root a c)"
      using c(2) len by (simp add: user_bytes_def)
    ultimately have split: "user_bytes st ?root a c = map Some (take c bs)"
      "user_bytes st ?root (a + word_of_nat c) (n - c) = map Some (drop c bs)"
      by (metis append_eq_append_conv)+
    have allowed: "runtime_range_allowed (p_runtime_layout p) (p_vmas p) a (word_of_nat n) PermRead"
      using less.prems(2) False by simp
    have sub: "runtime_range_allowed (p_runtime_layout p) (p_vmas p) (a + word_of_nat d) (word_of_nat m) PermRead"
      if "d + m \<le> n" "0 < m" for d m
      by (rule range_allowed_sub[OF assms(2) allowed less.prems(1) that])
    have "copy_current_user_buffer (Some p) st a (word_of_nat c) = Some (take c bs)"
      using c sub[of 0 c] less.prems(4) by (intro copy_current_user_buffer_ok[OF assms(1)]) (auto simp: split)
    moreover have "read_user_chunked (Some p) st (a + word_of_nat c) (n - c) = Some (drop c bs)"
    proof (rule less.IH)
      fix k assume "k < n - c"
      then show "slot_ok st ?root (\<lambda>_. True) (a + word_of_nat c + word_of_nat k)"
        using less.prems(4)[of "c + k"] by (simp add: add.assoc)
    qed (use c sub[of c "n - c"] less.prems(1) split in auto)
    ultimately show ?thesis
      using False by (simp add: read_user_chunked.simps[of _ _ a n] c_def[symmetric])
  qed
qed

section \<open>The signal state invariant\<close>

text \<open>The disposition table has its full length, only valid signals are pending, and \<^verbatim>\<open>SIGKILL\<close> is neither
  blocked nor given a disposition other than the default.\<close>

definition sig_ok :: "process \<Rightarrow> bool" where
  "sig_ok p \<longleftrightarrow> length (p_sig_disp p) = SIG_COUNT \<and> (\<forall>n. bit (p_sig_pending p) n \<longrightarrow> n < SIG_COUNT) \<and>
     \<not> bit (p_sig_mask p) 8 \<and> sd_action (p_sig_disp p ! 8) = ActionDefault"

text \<open>One step of a process: a signal operation, a fork (followed into the child), an exec, or running user
  code, which may leave any memory behind.\<close>

inductive sig_step :: "process \<times> 'h vm_state \<Rightarrow> process \<times> 'h vm_state \<Rightarrow> bool" where
  sent: "kill (Some p) signo = (r, Some p') \<Longrightarrow> sig_step (p, st) (p', st)"
| broken_pipe: "raise_broken_pipe (Some p) nosignal = (r, Some p') \<Longrightarrow> sig_step (p, st) (p', st)"
| disposition: "set_disposition (Some p) signo new = (r, old, Some p') \<Longrightarrow> sig_step (p, st) (p', st)"
| masked: "set_mask (Some p) how s = (r, old_mask, Some p') \<Longrightarrow> sig_step (p, st) (p', st)"
| delivered: "deliver_pending_to_user f p st = Resumed f' p' st' \<Longrightarrow> sig_step (p, st) (p', st')"
| returned: "sigreturn f p st = Resumed f' p' st' \<Longrightarrow> sig_step (p, st) (p', st')"
| forked: "sig_step (p, st) (inherit_on_fork child p, st)"
| exec: "sig_step (p, st) (reset_handlers_on_exec p, st)"
| ran: "sig_step (p, st) (p, st')"

lemma bit_signo_bit: "bit (signo_bit signo) n \<longleftrightarrow> valid_signo signo \<and> n = nat (signo - 1)"
  by (auto simp: signo_bit_def valid_signo_def signal_consts bit_simps)

lemma bit_kill [simp]: "bit (signo_bit SIGKILL) n \<longleftrightarrow> n = 8"
  by (simp add: bit_signo_bit valid_signo_def signal_consts)

lemma lowest_set_signo_cases:
  assumes "s \<noteq> 0"
  obtains n where "n < 64" "bit s n" "\<And>m. m < n \<Longrightarrow> \<not> bit s m" "lowest_set_signo s = int n + 1"
proof -
  from assms obtain k where k: "bit s k" by (auto simp: bit_eq_iff)
  then have "k < 64" using bit_imp_le_length by fastforce
  define n where "n = (LEAST m. bit s m)"
  have n: "bit s n" "n \<le> k" "\<And>m. m < n \<Longrightarrow> \<not> bit s m"
    using k by (auto simp: n_def intro: LeastI Least_le dest: not_less_Least)
  then have "n < 64" using \<open>k < 64\<close> by simp
  have "[0..<64] = [0..<n] @ n # [Suc n..<64]" using \<open>n < 64\<close> upt_add_eq_append[of 0 n "64 - n"] upt_conv_Cons[of n 64] by simp
  moreover have "filter (bit s) [0..<n] = []" using n(3) by simp
  ultimately have "hd (filter (bit s) [0..<64]) = n" using n(1) by simp
  with assms have "lowest_set_signo s = int n + 1" by (simp add: lowest_set_signo_def)
  with \<open>n < 64\<close> n show thesis by (intro that) auto
qed

lemma bit_deliverable:
  "bit (deliverable p) n \<longleftrightarrow> bit (p_sig_pending p) n \<and> (\<not> bit (p_sig_mask p) n \<or> n = 8)"
  by (auto simp: deliverable_def bit_simps dest: bit_imp_le_length)

lemma deliver_signo:
  assumes "sig_ok p" "deliverable p \<noteq> 0"
  obtains n where "n < SIG_COUNT" "bit (deliverable p) n" "\<And>m. m < n \<Longrightarrow> \<not> bit (deliverable p) m"
    "lowest_set_signo (deliverable p) = int n + 1" "valid_signo (int n + 1)" "nat (int n + 1 - 1) = n"
proof -
  from lowest_set_signo_cases[OF assms(2)] obtain n where n: "bit (deliverable p) n"
    "\<And>m. m < n \<Longrightarrow> \<not> bit (deliverable p) m" "lowest_set_signo (deliverable p) = int n + 1" by blast
  moreover have "n < SIG_COUNT" using n(1) assms(1) by (simp add: bit_deliverable sig_ok_def)
  ultimately show thesis by (intro that) (auto simp: valid_signo_def signal_consts)
qed

lemma enter_handler_Resumed:
  assumes "enter_handler f p signo disp st = Resumed f' p' st'"
  shows "f' = f\<lparr>rip := sd_handler disp, rdi := word_of_int signo, rsp := signal_frame_addr (rsp f)\<rparr>"
    and "p' = p\<lparr>p_sig_mask := p_sig_mask p OR signo_bit signo\<rparr>"
    and "copy_to_current_user_buffer (Some p) (signal_frame_addr (rsp f))
           (signal_frame_bytes (save_frame f signo (p_sig_mask p))) st = (True, st')"
    and "signal_frame_addr (rsp f) < USER_LOW_HALF_LIMIT"
  using assms unfolding enter_handler_def Let_def by (auto split: if_splits prod.splits)

lemma deliver_Resumed_mask:
  assumes "sig_ok p" "deliver_pending_to_user f p st = Resumed f' p' st'"
  shows "p_sig_disp p' = p_sig_disp p" "bit (p_sig_pending p') n \<Longrightarrow> bit (p_sig_pending p) n" "\<not> bit (p_sig_mask p') 8"
proof -
  have "p_sig_disp p' = p_sig_disp p \<and> (bit (p_sig_pending p') n \<longrightarrow> bit (p_sig_pending p) n) \<and> \<not> bit (p_sig_mask p') 8"
  proof (cases "deliverable p = 0")
    case True
    then show ?thesis using assms by (simp add: deliver_pending_to_user_def sig_ok_def)
  next
    case False
    obtain m where m: "lowest_set_signo (deliverable p) = int m + 1" by (rule deliver_signo[OF assms(1) False])
    show ?thesis
      using assms False unfolding deliver_pending_to_user_def Let_def
      by (auto simp: sig_ok_def bit_simps bit_signo_bit is_uncatchable_def signal_consts m
          dest!: enter_handler_Resumed(1,2) split: if_splits)
  qed
  then show "p_sig_disp p' = p_sig_disp p" "bit (p_sig_pending p') n \<Longrightarrow> bit (p_sig_pending p) n" "\<not> bit (p_sig_mask p') 8"
    by auto
qed

lemma sigreturn_Resumed:
  assumes "sigreturn f p st = Resumed f' p' st'"
  obtains bs sf where "read_user_chunked (Some p) st (rsp f) SIGNAL_FRAME_SIZE = Some bs" "sf = bytes_signal_frame bs"
    "sf_magic sf = SIGFRAME_MAGIC" "sf_rip sf < USER_LOW_HALF_LIMIT" "sf_rsp sf < USER_LOW_HALF_LIMIT" "st' = st"
    "f' = force_user_return_frame (restore_frame f sf)
            ((sf_rflags sf AND RFLAGS_USER_SAFE) OR RFLAGS_IF OR RFLAGS_RESERVED_ONE)"
    "p' = p\<lparr>p_sig_mask := sf_saved_mask sf AND NOT (signo_bit SIGKILL)\<rparr>"
  using assms unfolding sigreturn_def Let_def by (auto split: if_splits option.splits simp: not_le)

lemma kill_ok: "sig_ok p \<Longrightarrow> kill (Some p) signo = (r, Some p') \<Longrightarrow> sig_ok p'"
  by (auto simp: kill_def sig_ok_def bit_simps bit_signo_bit valid_signo_def signal_consts split: if_splits)

lemma set_disposition_ok: "sig_ok p \<Longrightarrow> set_disposition (Some p) signo new = (r, old, Some p') \<Longrightarrow> sig_ok p'"
  by (auto simp: set_disposition_def sig_ok_def is_uncatchable_def nth_list_update valid_signo_def signal_consts
      Let_def split: if_splits option.splits)

lemma sig_step_ok: "sig_step x y \<Longrightarrow> sig_ok (fst x) \<Longrightarrow> sig_ok (fst y)"
proof (induction rule: sig_step.induct)
  case (sent p signo r p' st)
  then show ?case by (auto intro: kill_ok)
next
  case (broken_pipe p nosignal r p' st)
  then show ?case using kill_ok[of p SIGPIPE "fst (kill (Some p) SIGPIPE)" p']
    by (auto simp: raise_broken_pipe_def kill_def split: if_splits)
next
  case (disposition p signo new r old p' st)
  then show ?case by (auto intro: set_disposition_ok)
next
  case (masked p how s r old_mask p' st)
  then show ?case by (auto simp: set_mask_def sig_ok_def Let_def bit_simps split: if_splits)
next
  case (delivered f p st f' p' st')
  then have "sig_ok p" by simp
  from deliver_Resumed_mask[OF this delivered(1)] this show ?case by (auto simp: sig_ok_def)
next
  case (returned f p st f' p' st')
  show ?case by (rule sigreturn_Resumed[OF returned(1)]) (use returned(2) in \<open>auto simp: sig_ok_def bit_simps\<close>)
next
  case (forked p st child)
  then show ?case by (simp add: sig_ok_def inherit_on_fork_def)
next
  case (exec p st)
  then show ?case by (auto simp: sig_ok_def reset_handlers_on_exec_def SIG_COUNT_def)
qed simp

lemma init_state_ok: "sig_ok (init_state p)"
  by (simp add: sig_ok_def init_state_def SIG_COUNT_def default_disposition_def nth_append)

lemma sig_steps_keep_ok: "sig_step\<^sup>*\<^sup>* x y \<Longrightarrow> sig_ok (fst x) \<Longrightarrow> sig_ok (fst y)"
  by (induction rule: rtranclp_induct) (auto intro: sig_step_ok)

section \<open>Repeated returns to user mode\<close>

text \<open>The process goes back to user mode once per element, from whatever registers and memory it then has,
  and makes no signal call in between; the result is the exit status once it is terminated.\<close>

fun deliver_rounds :: "(interrupt_frame \<times> 'h vm_state) list \<Rightarrow> process \<Rightarrow> int option" where
  "deliver_rounds [] p = None"
| "deliver_rounds ((f, st) # rs) p =
    (case deliver_pending_to_user f p st of
       Exited status \<Rightarrow> Some status
     | Resumed f' p' st' \<Rightarrow> deliver_rounds rs p')"

definition low_signals :: "process \<Rightarrow> nat set" where
  "low_signals p = {n. n < 8 \<and> bit (deliverable p) n}"

lemma deliver_progress:
  assumes "sig_ok p" "bit (p_sig_pending p) 8" "deliver_pending_to_user f p st = Resumed f' p' st'"
  shows "sig_ok p'" "bit (p_sig_pending p') 8" "low_signals p' \<subset> low_signals p"
proof -
  have d8: "bit (deliverable p) 8" using assms(2) by (simp add: bit_deliverable)
  then have ne: "deliverable p \<noteq> 0" by auto
  obtain n where n: "n < SIG_COUNT" "bit (deliverable p) n" "\<And>m. m < n \<Longrightarrow> \<not> bit (deliverable p) m"
    "lowest_set_signo (deliverable p) = int n + 1" "valid_signo (int n + 1)" by (rule deliver_signo[OF assms(1) ne]) blast
  have "n \<le> 8" using d8 n(3) not_less by blast
  moreover have "n \<noteq> 8"
    using assms(3) ne n(4) by (auto simp: deliver_pending_to_user_def is_uncatchable_def signal_consts Let_def)
  ultimately have n8: "n < 8" by simp
  have pm: "p_sig_pending p' = p_sig_pending p AND NOT (signo_bit (int n + 1))"
    "bit (p_sig_mask p) m \<Longrightarrow> bit (p_sig_mask p') m" for m
    using assms(3) ne unfolding deliver_pending_to_user_def Let_def n(4)
    by (auto simp: bit_simps dest!: enter_handler_Resumed(2) split: if_splits)
  have sub: "bit (deliverable p') m \<Longrightarrow> bit (deliverable p) m" for m
    using pm(2)[of m] by (auto simp: bit_deliverable pm(1) bit_simps)
  have "\<not> bit (deliverable p') n" using n(5) by (simp add: bit_deliverable pm(1) bit_simps bit_signo_bit)
  with sub n(2) n8 show "low_signals p' \<subset> low_signals p" by (auto simp: low_signals_def)
  show "bit (p_sig_pending p') 8" using assms(2) n8 by (simp add: pm(1) bit_simps bit_signo_bit)
  show "sig_ok p'" using deliver_Resumed_mask[OF assms(1,3)] assms(1) by (auto simp: sig_ok_def)
qed

lemma deliver_rounds_exit:
  "sig_ok p \<Longrightarrow> bit (p_sig_pending p) 8 \<Longrightarrow> card (low_signals p) < length rs \<Longrightarrow> \<exists>status. deliver_rounds rs p = Some status"
proof (induction rs arbitrary: p)
  case (Cons r rs)
  obtain f st where r: "r = (f, st)" by (cases r)
  show ?case
  proof (cases "deliver_pending_to_user f p st")
    case (Resumed f' p' st')
    note pr = deliver_progress[OF Cons.prems(1,2) Resumed]
    have "finite (low_signals p)" by (simp add: low_signals_def)
    with pr(3) have "card (low_signals p') < card (low_signals p)" by (intro psubset_card_mono)
    with Cons.IH[OF pr(1,2)] Cons.prems(3) show ?thesis by (simp add: r Resumed)
  qed (simp add: r)
qed simp

lemma low_signals_card: "card (low_signals p) \<le> 8"
  using card_mono[of "{..<8}" "low_signals p"] by (auto simp: low_signals_def)

section \<open>Properties\<close>

text \<open>C18. Whatever sequence of kills, broken pipes, disposition and mask calls, deliveries, returns, forks and
  execs a process goes through, and whatever its user code leaves in memory, the signal state stays
  well formed: the signal chosen for delivery is a valid one and indexes the disposition table in
  bounds, \<^verbatim>\<open>SIGKILL\<close> keeps its default disposition, and a pending \<^verbatim>\<open>SIGKILL\<close> is always deliverable.\<close>

theorem signal_state_invariant:
  assumes "sig_step\<^sup>*\<^sup>* (init_state p0, st0) (p, st)"
  shows "(deliverable p \<noteq> 0 \<longrightarrow> valid_signo (lowest_set_signo (deliverable p)) \<and>
            nat (lowest_set_signo (deliverable p) - 1) < length (p_sig_disp p)) \<and>
         sd_action (p_sig_disp p ! nat (SIGKILL - 1)) = ActionDefault \<and> p_sig_mask p AND signo_bit SIGKILL = 0 \<and>
         (p_sig_pending p AND signo_bit SIGKILL \<noteq> 0 \<longrightarrow> has_deliverable_signal (Some p))"
proof -
  have ok: "sig_ok p" using sig_steps_keep_ok[OF assms] init_state_ok by simp
  have "valid_signo (lowest_set_signo (deliverable p)) \<and> nat (lowest_set_signo (deliverable p) - 1) < length (p_sig_disp p)"
    if "deliverable p \<noteq> 0"
    by (rule deliver_signo[OF ok that]) (use ok in \<open>simp add: sig_ok_def\<close>)
  moreover have "p_sig_mask p AND signo_bit SIGKILL = 0"
    using ok by (auto simp: sig_ok_def bit_simps intro!: bit_word_eqI)
  moreover have "deliverable p \<noteq> 0" if "p_sig_pending p AND signo_bit SIGKILL \<noteq> 0"
    using that by (auto simp: deliverable_def or_eq_0_iff)
  moreover have "sd_action (p_sig_disp p ! nat (SIGKILL - 1)) = ActionDefault" using ok by (simp add: sig_ok_def SIGKILL_def)
  ultimately show ?thesis by (simp add: has_deliverable_signal_def)
qed

definition usr1_process :: process where
  "usr1_process = (init_state demo_process)\<lparr>p_sig_pending := 0x200, p_sig_mask := 2,
     p_sig_disp := (replicate 31 default_disposition)[9 := \<lparr>sd_action = ActionHandler, sd_handler = 0x400000\<rparr>]\<rparr>"

lemma usr1_ok: "sig_ok usr1_process"
proof -
  have "n < 31" if "bit (0x200 :: u64) n" for n
  proof -
    have "(0x200 :: u64) = signo_bit 10" by (simp add: signo_bit_def valid_signo_def signal_consts)
    with that show ?thesis by (simp add: bit_signo_bit)
  qed
  then show ?thesis by (simp add: sig_ok_def usr1_process_def SIG_COUNT_def init_state_def default_disposition_def nth_list_update)
qed

lemma usr1_next: "deliverable usr1_process = 0x200" "lowest_set_signo 0x200 = 10"
  by (simp_all add: deliverable_def usr1_process_def init_state_def signo_bit_def valid_signo_def signal_consts lowest_set_signo_def upt_rec)

theorem signal_state_invariant_witness:
  "\<exists>p. kill (Some (init_state demo_process)) SIGKILL = (0, Some p) \<and>
     p_sig_pending p AND signo_bit SIGKILL \<noteq> 0 \<and> has_deliverable_signal (Some p)"
proof -
  let ?p = "(init_state demo_process)\<lparr>p_sig_pending := 0x100\<rparr>"
  have k: "kill (Some (init_state demo_process)) SIGKILL = (0, Some ?p)"
    by (simp add: kill_def init_state_def signo_bit_def valid_signo_def signal_consts)
  have "sig_step\<^sup>*\<^sup>* (init_state demo_process, two_vm 0 0 0) (?p, two_vm 0 0 0)"
    by (rule r_into_rtranclp) (rule sig_step.sent[OF k])
  moreover have "p_sig_pending ?p AND signo_bit SIGKILL \<noteq> 0" by (simp add: signo_bit_def valid_signo_def signal_consts)
  ultimately show ?thesis using k signal_state_invariant[of demo_process "two_vm 0 0 0" ?p "two_vm 0 0 0"] by blast
qed


definition usr1_frame :: interrupt_frame where
  "usr1_frame = \<lparr>r15 = 15, r14 = 14, r13 = 13, r12 = 12, r11 = 11, r10 = 10, r9 = 9, r8 = 8, rdi = 7, rsi = 6, rbp = 5,
     rdx = 4, rcx = 3, rbx = 2, rax = 1, rsp = 0x1001000, ss = 0x23, vector = 0x80, error_code = 0, rip = 0x400123,
     cs = 0x2b, rflags = 0x246\<rparr>"


text \<open>C20. \<^verbatim>\<open>sigreturn\<close> reads its frame from memory the process controls, and whatever it finds there it only
  ever resumes in user mode: user code and stack selectors, instruction and stack pointers below the
  user limit, interrupts on, and the trap, privilege-level and nested-task flags off; it leaves memory
  alone and \<^verbatim>\<open>SIGKILL\<close> unblocked.\<close>

theorem sigreturn_safe:
  assumes "sigreturn f p st = Resumed f' p' st'"
  shows "cs f' = USER_CODE_SELECTOR \<and> ss f' = USER_DATA_SELECTOR \<and>
    rip f' < USER_LOW_HALF_LIMIT \<and> rsp f' < USER_LOW_HALF_LIMIT \<and> rflags f' AND 0x200 = 0x200 \<and>
    rflags f' AND NOT 0xED7 = 0 \<and> rflags f' AND 0x7100 = 0 \<and>
    vector f' = vector f \<and> error_code f' = error_code f \<and> st' = st \<and>
    p' = p\<lparr>p_sig_mask := p_sig_mask p'\<rparr> \<and> p_sig_mask p' AND signo_bit SIGKILL = 0"
proof -
  have flags: "((x AND RFLAGS_USER_SAFE) OR RFLAGS_IF OR RFLAGS_RESERVED_ONE) AND 0x200 = 0x200"
    "((x AND RFLAGS_USER_SAFE) OR RFLAGS_IF OR RFLAGS_RESERVED_ONE) AND - 0xED8 = 0"
    "((x AND RFLAGS_USER_SAFE) OR RFLAGS_IF OR RFLAGS_RESERVED_ONE) AND 0x7100 = 0" for x :: u64
    by (simp_all add: RFLAGS_USER_SAFE_def RFLAGS_IF_def RFLAGS_RESERVED_ONE_def bit.conj_disj_distrib2 and.assoc)
  have kill: "(x AND NOT (signo_bit SIGKILL)) AND signo_bit SIGKILL = 0" for x :: u64
    by (rule bit_word_eqI) (auto simp: bit_simps)
  show ?thesis
    by (rule sigreturn_Resumed[OF assms]) (simp add: force_user_return_frame_def restore_frame_def flags kill)
qed

lemma frame_addr_range:
  assumes "copy_to_current_user_buffer (Some p) a src st = (True, st')"
  shows "p_state p = Running" "copy_to_user_root (p_address_space_root p) a src st = (True, st')"
  using assms by (auto simp: copy_to_current_user_buffer_def split: if_splits)

lemma slot_okI: "translate st root a = Some b \<Longrightarrow> phys_to_direct st b = Some b \<Longrightarrow> slot_ok st root (\<lambda>_. True) a"
  by (auto simp: slot_ok_def translate_def split: option.splits)

lemma phys_to_direct_cong: "vm_direct s = vm_direct st \<Longrightarrow> phys_to_direct s q = phys_to_direct st q"
  by (simp add: phys_to_direct_def direct_map_range_covered_def)

lemma handler_returns:
  fixes p :: process and st :: "'h vm_state"
  assumes signo_def: "signo = lowest_set_signo (deliverable p)" and fa_def: "fa = signal_frame_addr (rsp f)"
    and root_def: "root = p_address_space_root p"
    and "deliver_pending_to_user f p st = Resumed f1 p1 st1" and "sig_ok p" and "vma_inv (p_vmas p)"
    and "deliverable p \<noteq> 0" and "sd_action (p_sig_disp p ! nat (signo - 1)) = ActionHandler"
    and "rip f < USER_LOW_HALF_LIMIT" and "rsp f < USER_LOW_HALF_LIMIT"
    and "runtime_range_allowed (p_runtime_layout p) (p_vmas p) fa (word_of_nat SIGNAL_FRAME_SIZE) PermRead"
    and "inj_on (\<lambda>k. translate st root (fa + word_of_nat k)) {..<SIGNAL_FRAME_SIZE}"
    and "\<forall>k<SIGNAL_FRAME_SIZE. \<forall>q. translate st root (fa + word_of_nat k) = Some q \<longrightarrow> phys_to_direct st q = Some q"
    and "rsp f2 = rsp f1"
  shows "rip f1 = sd_handler (p_sig_disp p ! nat (signo - 1)) \<and> rdi f1 = word_of_int signo \<and> p_sig_mask p1 = p_sig_mask p OR signo_bit signo \<and>
    sigreturn f2 p1 st1 =
      Resumed (f\<lparr>ss := USER_DATA_SELECTOR, cs := USER_CODE_SELECTOR, vector := vector f2, error_code := error_code f2,
                 rflags := (rflags f AND RFLAGS_USER_SAFE) OR RFLAGS_IF OR RFLAGS_RESERVED_ONE\<rparr>)
              (p\<lparr>p_sig_pending := p_sig_pending p AND NOT (signo_bit signo)\<rparr>) st1"
proof -
  define q where "q = p\<lparr>p_sig_pending := p_sig_pending p AND NOT (signo_bit signo)\<rparr>"
  define sf where "sf = save_frame f signo (p_sig_mask p)"
  have "signo \<noteq> SIGKILL" using assms(5,8) by (auto simp: sig_ok_def SIGKILL_def)
  then have "enter_handler f q signo (p_sig_disp p ! nat (signo - 1)) st = Resumed f1 p1 st1"
    using assms(4,7,8) unfolding deliver_pending_to_user_def Let_def signo_def[symmetric]
    by (simp add: is_uncatchable_def q_def)
  note eh = enter_handler_Resumed[OF this]
  have p1: "p1 = p\<lparr>p_sig_pending := p_sig_pending p AND NOT (signo_bit signo), p_sig_mask := p_sig_mask p OR signo_bit signo\<rparr>"
    using eh(2) by (simp add: q_def)
  have cp: "p_state q = Running" "copy_to_user_root root fa (signal_frame_bytes sf) st = (True, st1)"
    using frame_addr_range[OF eh(3)] by (simp_all add: q_def root_def fa_def sf_def)
  have "inj_on (\<lambda>k. translate st root (fa + word_of_nat k)) {..<length (signal_frame_bytes sf)}" using assms(12) by simp
  note ub = copied_user_bytes[OF cp(2) this, simplified]
  have "slot_ok st1 root (\<lambda>_. True) (fa + word_of_nat k)" if k: "k < SIGNAL_FRAME_SIZE" for k
  proof -
    obtain b where "translate st root (fa + word_of_nat k) = Some b" using ub(4)[OF k] by auto
    with assms(13) k show ?thesis
      by (intro slot_okI[of _ _ _ b]) (auto simp: translate_cong[OF ub(2,3)] phys_to_direct_cong[OF ub(3)])
  qed
  then have "read_user_chunked (Some p1) st1 fa SIGNAL_FRAME_SIZE = Some (signal_frame_bytes sf)"
    using cp(1) ub(1) assms(6,11) by (intro read_user_chunked_ok) (simp_all add: p1 q_def root_def SIGNAL_FRAME_SIZE_def)
  moreover have "rsp f2 = fa" using assms(14) eh(1) by (simp add: fa_def)
  moreover have "p_sig_mask p AND NOT (signo_bit SIGKILL) = p_sig_mask p"
    using assms(5) by (intro bit_word_eqI) (auto simp: bit_simps sig_ok_def)
  ultimately have "sigreturn f2 p1 st1 =
      Resumed (f\<lparr>ss := USER_DATA_SELECTOR, cs := USER_CODE_SELECTOR, vector := vector f2, error_code := error_code f2,
                 rflags := (rflags f AND RFLAGS_USER_SAFE) OR RFLAGS_IF OR RFLAGS_RESERVED_ONE\<rparr>) q st1"
    using assms(9,10) by (simp add: sigreturn_def Let_def sf_def save_frame_def force_user_return_frame_def restore_frame_def
        p1 q_def not_le)
  with eh(1) p1 show ?thesis by (simp add: q_def)
qed


definition usr1_vm :: "u64 list vm_state" where
  "usr1_vm = two_vm 0x8000000000200207 0 1"

lemma usr1_leaf: "0x1000000 \<le> a \<Longrightarrow> a < 0x1001000 \<Longrightarrow> leaf_at usr1_vm 0x100000 a = Some 0x8000000000200207"
  using leaf_at_same_page[of a "0x1000000" usr1_vm "0x100000"]
  by (simp add: align_down_eq_iff word_le_nat_alt word_less_nat_alt usr1_vm_def two_leaf paging_present_def)

lemma usr1_addr: "signal_frame_addr 0x1001000 = 0x1000ED0"
  by (simp add: signal_frame_addr_def USER_RED_ZONE_def SIGNAL_FRAME_SIZE_def STACK_ALIGN_def)

lemma usr1_in_page:
  assumes "k < 168"
  shows "(0x1000000 :: u64) \<le> 0x1000ED0 + word_of_nat k" "(0x1000ED0 :: u64) + word_of_nat k < 0x1001000"
    "unat (page_offset (0x1000ED0 + word_of_nat k)) = 0xED0 + k"
proof -
  have "unat ((0x1000ED0 :: u64) + word_of_nat k) = 0x1000ED0 + k"
    using assms by (subst unat_plus_if_no_wrap) (simp_all add: unat_of_nat)
  moreover have "(0x1000ED0 + k) mod 4096 = 0xED0 + k"
  proof -
    have "0x1000ED0 + k = 0xED0 + k + 4096 * 4096" by simp
    then show ?thesis using assms by (simp only: mod_mult_self2 mod_less)
  qed
  ultimately show "(0x1000000 :: u64) \<le> 0x1000ED0 + word_of_nat k" "(0x1000ED0 :: u64) + word_of_nat k < 0x1001000"
    "unat (page_offset (0x1000ED0 + word_of_nat k)) = 0xED0 + k"
    using assms by (simp_all add: word_le_nat_alt word_less_nat_alt unat_page_offset_eq)
qed

lemma usr1_translate: "k < 168 \<Longrightarrow> translate usr1_vm 0x100000 (0x1000ED0 + word_of_nat k) = Some (0x200ED0 + word_of_nat k)"
proof -
  assume k: "k < 168"
  have "page_offset (0x1000ED0 + word_of_nat k) = 0xED0 + word_of_nat k"
  proof (rule word_unat_eq_iff[THEN iffD2])
    show "unat (page_offset (0x1000ED0 + word_of_nat k)) = unat (0xED0 + word_of_nat k :: u64)"
      using k usr1_in_page(3)[OF k] by (subst unat_plus_if_no_wrap) (simp_all add: unat_of_nat)
  qed
  then show ?thesis
    using usr1_leaf[OF usr1_in_page(1,2)[OF k]] by (simp add: translate_def ATTR_USER_def PAGING_DESCRIPTOR_ADDR_MASK_def)
qed

lemma usr1_delivers:
  "\<exists>st1. deliver_pending_to_user usr1_frame usr1_process usr1_vm =
     Resumed (usr1_frame\<lparr>rip := 0x400000, rdi := 10, rsp := 0x1000ED0\<rparr>)
       (usr1_process\<lparr>p_sig_pending := 0, p_sig_mask := 0x202\<rparr>) st1"
proof -
  have proc: "p_state usr1_process = Running" "p_address_space_root usr1_process = 0x100000" "rsp usr1_frame = 0x1001000"
    "p_vmas usr1_process = p_vmas demo_process" "p_runtime_layout usr1_process = demo_layout"
    "p_sig_mask usr1_process = 2" "p_sig_pending usr1_process = 0x200"
    "p_sig_disp usr1_process ! 9 = \<lparr>sd_action = ActionHandler, sd_handler = 0x400000\<rparr>"
    by (simp_all add: usr1_process_def init_state_def demo_process_def usr1_frame_def)
  have allowed: "runtime_range_allowed demo_layout (p_vmas demo_process) 0x1000ED0 168 PermWrite" by code_simp
  have leaf: "leaf_at usr1_vm 0x100000 0x1000ED0 = Some 0x8000000000200207" "leaf_at usr1_vm 0x100000 0x1000000 = Some 0x8000000000200207"
    by (simp_all add: usr1_leaf)
  have "user_range_writable usr1_vm 0x100000 0x1000ED0 168"
    by (simp add: user_range_writable_def user_range_checked_def pages_between_def align_down_page_def PAGE_SIZE_def
        USER_LOW_HALF_LIMIT_def INVALID_PHYS_ADDR_def leaf_ok_leaf_at leaf attr_defs)
  then have val: "validate_user_io_buffer (Some q) usr1_vm 0x1000ED0 168"
    if "p_state q = Running" "p_address_space_root q = 0x100000" "p_vmas q = p_vmas demo_process" "p_runtime_layout q = demo_layout" for q
    using that allowed by (simp add: validate_user_io_buffer_def SYS_IO_MAX_LEN_def)
  have slot: "copy_slot usr1_vm 0x100000 0x1000ED0 (\<lambda>d. d AND ATTR_WRITABLE \<noteq> 0) = Some 0x200ED0"
    by (simp add: copy_slot_def usr1_vm_def root_pte_def next_table_def two_vm_def two_tables_def run_defs page_offset_def ATTR_WRITABLE_def)
  have "fst (copy_to_loop 0x100000 0x1000ED0 src usr1_vm)" if "length src = 168" for src
    using that by (subst copy_to_loop.simps) (simp add: slot page_chunk_def page_offset_def PAGE_SIZE_def Let_def copy_to_loop.simps[of _ _ "[]"])
  then have cp: "fst (copy_to_current_user_buffer (Some q) 0x1000ED0 src usr1_vm)"
    if "p_state q = Running" "p_address_space_root q = 0x100000" "p_vmas q = p_vmas demo_process" "p_runtime_layout q = demo_layout"
      "length src = 168" for q src
    using that allowed by (auto simp: copy_to_current_user_buffer_def SYS_IO_MAX_LEN_def copy_to_user_root_def)
  let ?q = "usr1_process\<lparr>p_sig_pending := 0\<rparr>" and ?src = "signal_frame_bytes (save_frame usr1_frame 10 2)"
  obtain st1 where st1: "copy_to_current_user_buffer (Some ?q) 0x1000ED0 ?src usr1_vm = (True, st1)"
    using cp[of ?q ?src] proc by (cases "copy_to_current_user_buffer (Some ?q) 0x1000ED0 ?src usr1_vm") (auto simp: SIGNAL_FRAME_SIZE_def)
  have bit: "signo_bit 10 = 0x200" by (simp add: signo_bit_def valid_signo_def signal_consts)
  have "validate_user_io_buffer (Some ?q) usr1_vm 0x1000ED0 168" using val[of ?q] proc by simp
  then show ?thesis
    using st1 by (simp add: deliver_pending_to_user_def Let_def usr1_next enter_handler_def proc usr1_addr bit
        is_uncatchable_def SIGKILL_def SIGNAL_FRAME_SIZE_def USER_LOW_HALF_LIMIT_def)
qed


lemma usr1_facts:
  "vma_inv (p_vmas usr1_process)"
  "runtime_range_allowed (p_runtime_layout usr1_process) (p_vmas usr1_process) 0x1000ED0 (word_of_nat SIGNAL_FRAME_SIZE) PermRead"
  "inj_on (\<lambda>k. translate usr1_vm 0x100000 (0x1000ED0 + word_of_nat k)) {..<SIGNAL_FRAME_SIZE}"
  "\<forall>k<SIGNAL_FRAME_SIZE. \<forall>q. translate usr1_vm 0x100000 (0x1000ED0 + word_of_nat k) = Some q \<longrightarrow> phys_to_direct usr1_vm q = Some q"
proof -
  have v: "vma_inv (p_vmas demo_process)" and "runtime_range_allowed demo_layout (p_vmas demo_process) 0x1000ED0 168 PermRead"
    by code_simp+
  then show "vma_inv (p_vmas usr1_process)"
    "runtime_range_allowed (p_runtime_layout usr1_process) (p_vmas usr1_process) 0x1000ED0 (word_of_nat SIGNAL_FRAME_SIZE) PermRead"
    by (simp_all add: usr1_process_def init_state_def demo_process_def SIGNAL_FRAME_SIZE_def)
  show "inj_on (\<lambda>k. translate usr1_vm 0x100000 (0x1000ED0 + word_of_nat k)) {..<SIGNAL_FRAME_SIZE}"
  proof (rule inj_onI)
    fix i j assume "i \<in> {..<SIGNAL_FRAME_SIZE}" "j \<in> {..<SIGNAL_FRAME_SIZE}"
      "translate usr1_vm 0x100000 (0x1000ED0 + word_of_nat i) = translate usr1_vm 0x100000 (0x1000ED0 + word_of_nat j)"
    then have "i < 168" "j < 168" "(word_of_nat i :: u64) = word_of_nat j"
      by (simp_all add: SIGNAL_FRAME_SIZE_def usr1_translate)
    then show "i = j" by (simp add: word_unat_eq_iff unat_of_nat)
  qed
  show "\<forall>k<SIGNAL_FRAME_SIZE. \<forall>q. translate usr1_vm 0x100000 (0x1000ED0 + word_of_nat k) = Some q \<longrightarrow> phys_to_direct usr1_vm q = Some q"
  proof (intro allI impI)
    fix k q assume k: "k < SIGNAL_FRAME_SIZE" and "translate usr1_vm 0x100000 (0x1000ED0 + word_of_nat k) = Some q"
    then have q: "q = 0x200ED0 + word_of_nat k" by (simp add: SIGNAL_FRAME_SIZE_def usr1_translate)
    have "unat q = 0x200ED0 + k" "unat (q + 1) = 0x200ED0 + k + 1"
      using k unfolding q SIGNAL_FRAME_SIZE_def add.assoc
      by (subst unat_plus_if_no_wrap; simp add: unat_of_nat unat_word_ariths)+
    then show "phys_to_direct usr1_vm q = Some q"
      using k by (simp add: usr1_vm_def two_vm_def run_defs word_le_nat_alt word_less_nat_alt Let_def SIGNAL_FRAME_SIZE_def)
  qed
qed

lemma usr1_eqs:
  "10 = lowest_set_signo (deliverable usr1_process)" "0x1000ED0 = signal_frame_addr (rsp usr1_frame)"
  "0x100000 = p_address_space_root usr1_process"
  unfolding usr1_next by (simp_all add: usr1_addr usr1_frame_def usr1_process_def init_state_def demo_process_def)

lemma usr1_user:
  "deliverable usr1_process \<noteq> 0" "sd_action (p_sig_disp usr1_process ! nat (10 - 1)) = ActionHandler"
  "rip usr1_frame < USER_LOW_HALF_LIMIT" "rsp usr1_frame < USER_LOW_HALF_LIMIT"
  unfolding usr1_next by (simp_all add: usr1_frame_def usr1_process_def USER_LOW_HALF_LIMIT_def)



lemma usr1_returns:
  "\<exists>f p st f' p' st'. sigreturn f p (st :: u64 list vm_state) = Resumed f' p' st'"
proof -
  obtain f1 p1 st1 where d: "deliver_pending_to_user usr1_frame usr1_process usr1_vm = Resumed f1 p1 st1"
    using usr1_delivers by blast
  from handler_returns[OF usr1_eqs d usr1_ok usr1_facts(1) usr1_user usr1_facts(2-4) refl] show ?thesis by blast
qed

theorem sigreturn_safe_witness:
  "\<exists>f p st f' p' st'. sigreturn f p (st :: u64 list vm_state) = Resumed f' p' st' \<and>
     rip f' < USER_LOW_HALF_LIMIT \<and> cs f' = USER_CODE_SELECTOR"
proof -
  obtain f p f' p' and st st' :: "u64 list vm_state" where r: "sigreturn f p st = Resumed f' p' st'" using usr1_returns by blast
  from r sigreturn_safe[OF r] show ?thesis by blast
qed

lemma find_process_iff:
  assumes "distinct (map p_pid ps)"
  shows "find_process pid ps = Some t \<longleftrightarrow> t \<in> set ps \<and> p_pid t = pid \<and> pid \<noteq> 0 \<and> p_state t \<notin> {Reaped, StateEmpty}"
proof -
  have l: "lookup_process pid ps = Some u \<longleftrightarrow> u \<in> set ps \<and> p_pid u = pid \<and> pid \<noteq> 0" for u
    using assms unfolding lookup_process_def by (induction ps) auto
  show ?thesis
  proof (cases "lookup_process pid ps")
    case None
    then show ?thesis using l[of t] by (auto simp: find_process_def)
  next
    case (Some u)
    then show ?thesis using l[of t] l[of u] by (auto simp: find_process_def)
  qed
qed

lemma update_first_pid:
  "distinct (map p_pid ps) \<Longrightarrow> t \<in> set ps \<Longrightarrow> p_pid t = pid \<Longrightarrow>
   update_first (\<lambda>p. p_pid p = pid) (\<lambda>_. g t) ps = map (\<lambda>p. if p_pid p = pid then g p else p) ps"
proof (induction ps)
  case (Cons p ps)
  show ?case
  proof (cases "p_pid p = pid")
    case True
    with Cons.prems have "p = t" by (auto simp: image_iff)
    moreover have "map (\<lambda>p. if p_pid p = pid then g p else p) ps = ps"
      using Cons.prems(1) True by (intro map_idI) (auto simp: image_iff)
    ultimately show ?thesis using True by simp
  qed (use Cons in auto)
qed simp

text \<open>C22. The kill call, on every branch. It returns 0 exactly if there is a live process with that non-zero id
  that the caller may signal (root, or the caller's effective id is the target's real or effective
  id) and the signal number is valid; then that process gains that one pending bit. In every
  other case the result is \<^verbatim>\<open>-ESRCH\<close>, \<^verbatim>\<open>-EPERM\<close> or \<^verbatim>\<open>-EINVAL\<close>, checked in this order, and no process
  changes.\<close>

theorem sys_kill_correct:
  fixes pid signo :: u64
  assumes "sys_kill (Some a) pid signo ps = (r, ps')" and "distinct (map p_pid ps)"
    and target: "target = (\<lambda>t. t \<in> set ps \<and> p_pid t = ucast pid \<and> p_pid t \<noteq> 0 \<and> p_state t \<notin> {Reaped, StateEmpty})"
    and allowed: "allowed = (\<lambda>t. p_euid a = 0 \<or> p_euid a = p_uid t \<or> p_euid a = p_euid t)"
    and n: "n = sint (ucast signo :: u32)"
  shows "r = (if \<nexists>t. target t then - ESRCH else if \<nexists>t. target t \<and> allowed t then - EPERM
              else if n < 1 \<or> n > 31 then - EINVAL else 0) \<and>
    ps' = map (\<lambda>t. if r = 0 \<and> target t then t\<lparr>p_sig_pending := p_sig_pending t OR push_bit (nat (n - 1)) 1\<rparr> else t) ps"
proof (cases "find_process (ucast pid) ps")
  case None
  have no: "\<not> target t" for t
    using None find_process_iff[OF assms(2), of "ucast pid" t] by (auto simp: target)
  with None assms(1) show ?thesis by (simp add: sys_kill_def ESRCH_def)
next
  case (Some t)
  have is_t: "target u \<longleftrightarrow> u = t" for u
    using Some find_process_iff[OF assms(2), of "ucast pid" u] by (auto simp: target)
  have t: "t \<in> set ps" "p_pid t = ucast pid" using is_t[of t] by (auto simp: target)
  have pid: "p_pid u = ucast pid \<longleftrightarrow> u = t" if "u \<in> set ps" for u
    using that t assms(2) by (metis distinct_map inj_onD)
  have perm: "may_signal (Some a) (Some t) = allowed t" by (auto simp: may_signal_def allowed ROOT_UID_def)
  have upd: "update_first (\<lambda>p. p_pid p = ucast pid) (\<lambda>_. g t) ps = map (\<lambda>u. if u = t then g u else u) ps" for g
    using update_first_pid[OF assms(2) t, of g] pid by simp
  have "update_first (\<lambda>p. p_pid p = ucast pid) (\<lambda>_. t) ps = ps"
    using upd[of "\<lambda>u. u"] by simp
  then show ?thesis
    using assms(1) Some perm upd[of "\<lambda>u. u\<lparr>p_sig_pending := p_sig_pending u OR push_bit (nat (n - 1)) 1\<rparr>"]
    unfolding sys_kill_def kill_def n[symmetric] is_t
    by (cases "valid_signo n")
       (auto simp: valid_signo_def signal_consts signo_bit_def EPERM_def EINVAL_def simp del: push_bit_of_1 split: if_splits)
qed

theorem sys_kill_correct_witness:
  "sys_kill (Some usr1_process) 1 9 [usr1_process] = (0, [usr1_process\<lparr>p_sig_pending := 0x300\<rparr>]) \<and>
   sys_kill (Some (usr1_process\<lparr>p_euid := 5\<rparr>)) 1 9 [usr1_process] = (- EPERM, [usr1_process])"
proof -
  have *: "distinct (map p_pid [usr1_process])" "p_pid usr1_process = 1" "p_state usr1_process = Running" "p_euid usr1_process = 0"
    "p_uid usr1_process = 0" "p_sig_pending usr1_process = 0x200"
    by (simp_all add: usr1_process_def init_state_def demo_process_def)
  obtain r ps' r2 ps2 where rs: "sys_kill (Some usr1_process) 1 9 [usr1_process] = (r, ps')"
    "sys_kill (Some (usr1_process\<lparr>p_euid := 5\<rparr>)) 1 9 [usr1_process] = (r2, ps2)" by fastforce
  show ?thesis
    unfolding rs using sys_kill_correct[OF rs(1) *(1) refl refl refl] sys_kill_correct[OF rs(2) *(1) refl refl refl] *(2-)
    by (simp add: EPERM_def)
qed

end
