(* ===== verification/Pipe.thy ===== *)
theory Pipe
  imports Ring Vfs_Types Signal
begin

text \<open>
  Pipes (\<^verbatim>\<open>kernel/core/ipc/pipe.cc\<close>): a ring of 256 bytes, two ends behind open files, and blocking
  reads and writes on two wait queues. A call is cut at the points where it can sleep; every piece is
  a function from the pipe to the pipe, the thread's next state and the queue it wakes. The pieces
  of all threads interleave freely in \<open>pipe_step\<close>; a piece itself runs without interference, as the
  kernel's pipe code takes no lock of its own.
\<close>

section \<open>The ring\<close>

definition PIPE_CAPACITY :: u32 where "PIPE_CAPACITY = 256"

record pipe =
  pi_buf :: "u8 list"
  pi_head :: u32
  pi_tail :: u32
  pi_count :: u32
  pi_read_open :: bool
  pi_write_open :: bool

record pipe_end =
  pe_pipe :: nat
  pe_is_write :: bool

definition read_ready :: "pipe \<Rightarrow> bool" where
  "read_ready p \<longleftrightarrow> pi_count p > 0 \<or> \<not> pi_write_open p"

definition write_ready :: "pipe \<Rightarrow> bool" where
  "write_ready p \<longleftrightarrow> pi_count p < PIPE_CAPACITY \<or> \<not> pi_read_open p"

definition pipe_get :: "pipe \<Rightarrow> u8 \<times> pipe" where
  "pipe_get p =
     (pi_buf p ! unat (pi_head p), p\<lparr>pi_head := (pi_head p + 1) mod PIPE_CAPACITY, pi_count := pi_count p - 1\<rparr>)"

definition pipe_put :: "u8 \<Rightarrow> pipe \<Rightarrow> pipe" where
  "pipe_put b p =
     p\<lparr>pi_buf := (pi_buf p)[unat (pi_tail p) := b], pi_tail := (pi_tail p + 1) mod PIPE_CAPACITY, pi_count := pi_count p + 1\<rparr>"

text \<open>The copy loop of \<^verbatim>\<open>pipe_read\<close>, at most \<open>n\<close> bytes.\<close>

fun read_loop :: "nat \<Rightarrow> pipe \<Rightarrow> u8 list \<times> pipe" where
  "read_loop 0 p = ([], p)"
| "read_loop (Suc n) p =
    (if pi_count p > 0 then (let (b, p1) = pipe_get p; (bs, p2) = read_loop n p1 in (b # bs, p2)) else ([], p))"

section \<open>Calls, cut where they can sleep\<close>

datatype wakeup = NoWake | WakeReaders | WakeWriters

text \<open>A thread is outside the pipe with the result of its last call (status, bytes read, and the number
  written to the byte-count argument), about to wait, asleep, woken, or in the write loop with the
  number of bytes done.\<close>

datatype pthread =
    Returned status "u8 list" nat
  | ReadWait nat | ReadBlocked nat | ReadWoken nat
  | WriteRun "u8 list" nat | WriteWait "u8 list" nat | WriteBlocked "u8 list" nat | WriteWoken "u8 list" nat

definition read_finish :: "nat \<Rightarrow> pipe \<Rightarrow> pthread \<times> pipe \<times> wakeup" where
  "read_finish len p =
    (if pi_count p = 0 then (Returned Success [] 0, p, NoWake)
     else (let (bs, p') = read_loop len p in (Returned Success bs (length bs), p', WakeWriters)))"

definition read_enter :: "bool \<Rightarrow> bool \<Rightarrow> bool \<Rightarrow> nat \<Rightarrow> pipe \<Rightarrow> pthread \<times> pipe \<times> wakeup" where
  "read_enter nonblocking can_block dst_null len p =
    (if len = 0 then (Returned Success [] 0, p, NoWake)
     else if dst_null then (Returned InvalidArgument [] 0, p, NoWake)
     else if pi_count p = 0 \<and> pi_write_open p then
       (if nonblocking \<or> \<not> can_block then (Returned WouldBlock [] 0, p, NoWake) else (ReadWait len, p, NoWake))
     else read_finish len p)"

text \<open>\<^verbatim>\<open>wait_queue_wait_until\<close> refuses where blocking is forbidden, returns at once if the predicate holds,
  and otherwise sleeps until woken; it does not look at the predicate again then.\<close>

definition read_wait :: "bool \<Rightarrow> nat \<Rightarrow> pipe \<Rightarrow> pthread \<times> pipe \<times> wakeup" where
  "read_wait can_block len p =
    (if \<not> can_block then (Returned WouldBlock [] 0, p, NoWake)
     else if read_ready p then read_finish len p
     else (ReadBlocked len, p, NoWake))"

definition write_enter :: "bool \<Rightarrow> u8 list \<Rightarrow> pthread" where
  "write_enter src_null src =
    (if src = [] then Returned Success [] 0 else if src_null then Returned InvalidArgument [] 0 else WriteRun src 0)"

definition write_stop :: "nat \<Rightarrow> pthread" where
  "write_stop done = Returned (if done > 0 then Success else WouldBlock) [] 0"

text \<open>One iteration of the loop of \<^verbatim>\<open>pipe_write\<close>, or its end; the last component is the writing process,
  which a write to a pipe without readers signals.\<close>

definition write_iter ::
    "bool \<Rightarrow> bool \<Rightarrow> u8 list \<Rightarrow> nat \<Rightarrow> pipe \<Rightarrow> process option \<Rightarrow> pthread \<times> pipe \<times> wakeup \<times> process option" where
  "write_iter nonblocking can_block src done p cur =
    (if done < length src then
       (if \<not> pi_read_open p then
          (if done > 0 then (Returned Success [] 0, p, NoWake, cur)
           else (Returned BrokenPipe [] 0, p, NoWake, snd (raise_broken_pipe cur False)))
        else if pi_count p = PIPE_CAPACITY then
          (if nonblocking \<or> \<not> can_block then (write_stop done, p, NoWake, cur) else (WriteWait src done, p, NoWake, cur))
        else (WriteRun src (done + 1), pipe_put (src ! done) p, WakeReaders, cur))
     else (Returned Success [] done, p, NoWake, cur))"

definition write_wait :: "bool \<Rightarrow> u8 list \<Rightarrow> nat \<Rightarrow> pipe \<Rightarrow> pthread" where
  "write_wait can_block src done p =
    (if \<not> can_block then write_stop done else if write_ready p then WriteRun src done else WriteBlocked src done)"

definition close_end :: "bool \<Rightarrow> pipe \<Rightarrow> pipe \<times> wakeup" where
  "close_end is_write p =
    (if is_write then (p\<lparr>pi_write_open := False\<rparr>, WakeReaders) else (p\<lparr>pi_read_open := False\<rparr>, WakeWriters))"

fun woken :: "wakeup \<Rightarrow> pthread \<Rightarrow> pthread" where
  "woken WakeReaders (ReadBlocked n) = ReadWoken n"
| "woken WakeWriters (WriteBlocked src d) = WriteWoken src d"
| "woken w t = t"

section \<open>Open files over an object heap\<close>

text \<open>Pipes, ends and files live in kernel memory; \<^verbatim>\<open>kmalloc\<close> is a parameter, the list of what its five
  calls return.\<close>

datatype kobj = KPipe pipe | KEnd pipe_end | KFile vfile

type_synonym kheap = "nat \<rightharpoonup> kobj"

definition kfree :: "nat option \<Rightarrow> kheap \<Rightarrow> kheap" where
  "kfree x h = (case x of None \<Rightarrow> h | Some i \<Rightarrow> h(i := None))"

definition new_pipe :: "u8 list \<Rightarrow> pipe" where
  "new_pipe junk = \<lparr>pi_buf = junk, pi_head = 0, pi_tail = 0, pi_count = 0, pi_read_open = True, pi_write_open = True\<rparr>"

definition pipe_file :: "bool \<Rightarrow> nat \<Rightarrow> vfile" where
  "pipe_file is_write e =
     \<lparr>f_ops = (if is_write then PIPE_WRITE_OPS else PIPE_READ_OPS), f_offset = 0, f_ref_count = 1,
      f_readable = \<not> is_write, f_close_on_exec = False, f_private_data = Some e, f_writable = is_write,
      f_nonblocking = False\<rparr>"

definition create ::
    "u8 list \<Rightarrow> nat option \<Rightarrow> nat option \<Rightarrow> nat option \<Rightarrow> nat option \<Rightarrow> nat option \<Rightarrow> kheap
     \<Rightarrow> status \<times> (nat \<times> nat) option \<times> kheap" where
  \<comment> \<open>\<open>junk\<close> is what the allocated buffer holds; the other arguments are the results of \<^verbatim>\<open>kmalloc\<close> in call order\<close>
  "create junk m_pipe m_rend m_wend m_rfile m_wfile h =
    (case m_pipe of
       None \<Rightarrow> (NoMemory, None, h)
     | Some p \<Rightarrow>
       (let h1 = h(p \<mapsto> KPipe (new_pipe junk)) in
        case (m_rend, m_wend, m_rfile, m_wfile) of
          (Some re, Some we, Some rfile, Some wfile) \<Rightarrow>
            (Success, Some (rfile, wfile),
             h1(re \<mapsto> KEnd \<lparr>pe_pipe = p, pe_is_write = False\<rparr>, we \<mapsto> KEnd \<lparr>pe_pipe = p, pe_is_write = True\<rparr>,
                rfile \<mapsto> KFile (pipe_file False re), wfile \<mapsto> KFile (pipe_file True we)))
        | _ \<Rightarrow> (NoMemory, None, kfree m_pipe (kfree m_wfile (kfree m_rfile (kfree m_wend (kfree m_rend h1)))))))"

text \<open>The end and the pipe behind a file, if the file has any.\<close>

definition file_end :: "vfile option \<Rightarrow> kheap \<Rightarrow> (pipe_end \<times> pipe) option" where
  "file_end f h =
    (case f of
       None \<Rightarrow> None
     | Some f \<Rightarrow>
       (case f_private_data f of
          None \<Rightarrow> None
        | Some e \<Rightarrow>
          (case h e of
             Some (KEnd en) \<Rightarrow> (case h (pe_pipe en) of Some (KPipe p) \<Rightarrow> Some (en, p) | _ \<Rightarrow> None)
           | _ \<Rightarrow> None)))"

definition maybe_free :: "nat \<Rightarrow> kheap \<Rightarrow> kheap" where
  "maybe_free pid h =
    (case h pid of
       Some (KPipe p) \<Rightarrow> if \<not> pi_read_open p \<and> \<not> pi_write_open p then kfree (Some pid) h else h
     | _ \<Rightarrow> h)"

definition pipe_read :: "bool \<Rightarrow> bool \<Rightarrow> nat \<Rightarrow> vfile option \<Rightarrow> kheap \<Rightarrow> pthread \<times> kheap \<times> wakeup" where
  "pipe_read can_block dst_null len f h =
    (case file_end f h of
       None \<Rightarrow> (Returned BadFileDescriptor [] 0, h, NoWake)
     | Some (e, p) \<Rightarrow>
       if pe_is_write e then (Returned BadFileDescriptor [] 0, h, NoWake)
       else (case read_enter (file_is_nonblocking f) can_block dst_null len p of
               (t, p', w) \<Rightarrow> (t, h(pe_pipe e \<mapsto> KPipe p'), w)))"

definition pipe_write :: "bool \<Rightarrow> u8 list \<Rightarrow> vfile option \<Rightarrow> kheap \<Rightarrow> pthread" where
  "pipe_write src_null src f h =
    (case file_end f h of
       None \<Rightarrow> Returned BadFileDescriptor [] 0
     | Some (e, p) \<Rightarrow> if \<not> pe_is_write e then Returned BadFileDescriptor [] 0 else write_enter src_null src)"

definition pipe_lseek :: status where "pipe_lseek = NotSeekable"

definition pipe_poll :: "vfile option \<Rightarrow> kheap \<Rightarrow> u32" where
  "pipe_poll f h =
    (case file_end f h of
       None \<Rightarrow> READY_ERROR
     | Some (e, p) \<Rightarrow>
       if pe_is_write e then
         (if write_ready p then READY_WRITABLE else 0) OR (if \<not> pi_read_open p then READY_ERROR else 0)
       else (if read_ready p then READY_READABLE else 0))"

datatype pipe_queue = ReadQueue nat | WriteQueue nat

definition pipe_poll_wait :: "vfile option \<Rightarrow> nat \<Rightarrow> kheap \<Rightarrow> pipe_queue list" where
  "pipe_poll_wait f max_out h =
    (case file_end f h of
       None \<Rightarrow> []
     | Some (e, p) \<Rightarrow>
       if max_out = 0 then [] else [if pe_is_write e then WriteQueue (pe_pipe e) else ReadQueue (pe_pipe e)])"

definition pipe_close :: "nat \<Rightarrow> kheap \<Rightarrow> kheap \<times> wakeup" where
  "pipe_close fid h =
    (case h fid of
       Some (KFile f) \<Rightarrow>
         (case (f_private_data f, file_end (Some f) h) of
            (Some eid, Some (e, p)) \<Rightarrow>
              (case close_end (pe_is_write e) p of
                 (p', w) \<Rightarrow>
                   (maybe_free (pe_pipe e)
                      ((kfree (Some eid) (h(pe_pipe e \<mapsto> KPipe p')))(fid \<mapsto> KFile (f\<lparr>f_private_data := None\<rparr>))), w))
          | _ \<Rightarrow> (h, NoWake))
     | _ \<Rightarrow> (h, NoWake))"

definition is_pipe_file :: "vfile option \<Rightarrow> bool" where
  "is_pipe_file f = (case f of None \<Rightarrow> False | Some f \<Rightarrow> f_ops f = PIPE_READ_OPS \<or> f_ops f = PIPE_WRITE_OPS)"

section \<open>Threads on one pipe\<close>

record pipe_sys =
  sys_pipe :: pipe
  sys_thr :: "nat \<Rightarrow> pthread"
  sys_in :: "u8 list"     \<comment> \<open>every byte put into the pipe so far\<close>
  sys_out :: "u8 list"    \<comment> \<open>every byte returned by a read so far\<close>

definition sys_set :: "nat \<Rightarrow> pthread \<times> pipe \<times> wakeup \<Rightarrow> pipe_sys \<Rightarrow> pipe_sys" where
  "sys_set t r s =
    (case r of (th, p, w) \<Rightarrow> s\<lparr>sys_pipe := p, sys_thr := (\<lambda>u. if u = t then th else woken w (sys_thr s u))\<rparr>)"

fun read_bytes :: "pthread \<Rightarrow> u8 list" where
  "read_bytes (Returned st bs n) = bs"
| "read_bytes _ = []"

text \<open>A finished read logs what it returns; a write iteration logs the byte it stores.\<close>

inductive pipe_step :: "pipe_sys \<Rightarrow> pipe_sys \<Rightarrow> bool" where
  read_call: "\<lbrakk>sys_thr s t = Returned st bs n; read_enter nb cb null len (sys_pipe s) = r\<rbrakk>
    \<Longrightarrow> pipe_step s ((sys_set t r s)\<lparr>sys_out := sys_out s @ read_bytes (fst r)\<rparr>)"
| read_sleep: "\<lbrakk>sys_thr s t = ReadWait len; read_wait cb len (sys_pipe s) = r\<rbrakk>
    \<Longrightarrow> pipe_step s ((sys_set t r s)\<lparr>sys_out := sys_out s @ read_bytes (fst r)\<rparr>)"
| read_resume: "\<lbrakk>sys_thr s t = ReadWoken len; read_finish len (sys_pipe s) = r\<rbrakk>
    \<Longrightarrow> pipe_step s ((sys_set t r s)\<lparr>sys_out := sys_out s @ read_bytes (fst r)\<rparr>)"
| write_call: "sys_thr s t = Returned st bs n
    \<Longrightarrow> pipe_step s (sys_set t (write_enter null src, sys_pipe s, NoWake) s)"
| write_go: "\<lbrakk>sys_thr s t = WriteRun src d; write_iter nb cb src d (sys_pipe s) cur = (th, p, w, cur')\<rbrakk>
    \<Longrightarrow> pipe_step s ((sys_set t (th, p, w) s)\<lparr>sys_in := sys_in s @ (if w = WakeReaders then [src ! d] else [])\<rparr>)"
| write_sleep: "sys_thr s t = WriteWait src d
    \<Longrightarrow> pipe_step s (sys_set t (write_wait cb src d (sys_pipe s), sys_pipe s, NoWake) s)"
| write_resume: "sys_thr s t = WriteWoken src d
    \<Longrightarrow> pipe_step s (sys_set t (WriteRun src d, sys_pipe s, NoWake) s)"
| closed: "\<lbrakk>sys_thr s t = Returned st bs n; close_end is_write (sys_pipe s) = (p, w)\<rbrakk>
    \<Longrightarrow> pipe_step s (sys_set t (Returned Success [] 0, p, w) s)"

definition sys_init :: "u8 list \<Rightarrow> pipe_sys" where
  "sys_init junk = \<lparr>sys_pipe = new_pipe junk, sys_thr = (\<lambda>_. Returned Success [] 0), sys_in = [], sys_out = []\<rparr>"

section \<open>The ring holds a queue\<close>

definition pipe_inv :: "pipe \<Rightarrow> bool" where
  "pipe_inv p \<longleftrightarrow> length (pi_buf p) = 256 \<and> unat (pi_head p) < 256 \<and> unat (pi_count p) \<le> 256 \<and>
     unat (pi_tail p) = (unat (pi_head p) + unat (pi_count p)) mod 256"

definition pipe_contents :: "pipe \<Rightarrow> u8 list" where
  "pipe_contents p = ring_list (pi_buf p) (unat (pi_head p)) (unat (pi_count p))"

lemma unat_ring_succ: "unat (x :: u32) < 256 \<Longrightarrow> unat ((x + 1) mod PIPE_CAPACITY) = Suc (unat x) mod 256"
  by (simp add: PIPE_CAPACITY_def unat_mod unat_word_ariths)

lemma unat_count_put: "unat (c :: u32) < 256 \<Longrightarrow> unat (c + 1) = Suc (unat c)"
  by (simp add: unat_word_ariths)

lemma unat_count_get: "0 < unat (c :: u32) \<Longrightarrow> unat (c - 1) = unat c - 1"
  by (rule unat_minus_one) auto

interpretation pipe_ring: ring_buffer 256 pipe_inv pipe_contents pipe_put pipe_get
proof (unfold_locales)
  fix p :: pipe and b
  assume i: "pipe_inv p"
  show "length (pipe_contents p) \<le> 256" using i by (simp add: pipe_inv_def pipe_contents_def)
  { assume room: "length (pipe_contents p) < 256"
    then have c: "unat (pi_count p) < length (pi_buf p)" using i by (simp add: pipe_inv_def pipe_contents_def)
    from ring_list_push[OF c, of "unat (pi_head p)" b] i c
    show "pipe_contents (pipe_put b p) = pipe_contents p @ [b]"
      by (simp add: pipe_contents_def pipe_put_def pipe_inv_def unat_count_put)
    show "pipe_inv (pipe_put b p)"
      using i c by (auto simp: pipe_inv_def pipe_put_def unat_ring_succ unat_count_put mod_Suc_eq) }
  { assume "pipe_contents p \<noteq> []"
    then have c: "0 < unat (pi_count p)" by (simp add: pipe_contents_def)
    then obtain n where n: "unat (pi_count p) = Suc n" using gr0_conv_Suc by blast
    show "pipe_contents p = fst (pipe_get p) # pipe_contents (snd (pipe_get p))"
      using i n ring_list_pop[of "unat (pi_head p)" "pi_buf p" n] unat_count_get[OF c]
      by (simp add: pipe_contents_def pipe_get_def pipe_inv_def unat_ring_succ)
    show "pipe_inv (snd (pipe_get p))"
      using i n unat_count_get[OF c] by (auto simp: pipe_inv_def pipe_get_def unat_ring_succ mod_simps) }
qed

lemma contents_empty: "pipe_contents p = [] \<longleftrightarrow> pi_count p = 0"
  by (simp add: pipe_contents_def unat_eq_0)

lemma count_pos: "pi_count p > 0 \<longleftrightarrow> pipe_contents p \<noteq> []"
  by (simp add: contents_empty word_gt_0)

lemma contents_full: "pipe_inv p \<Longrightarrow> pi_count p = PIPE_CAPACITY \<longleftrightarrow> length (pipe_contents p) = 256"
  by (simp add: pipe_contents_def PIPE_CAPACITY_def word_unat_eq_iff)

lemma read_loop_drain: "pipe_inv p \<Longrightarrow> read_loop n p = drain pipe_get (min n (length (pipe_contents p))) p"
proof (induction n arbitrary: p)
  case (Suc n)
  show ?case
  proof (cases "pipe_contents p = []")
    case False
    let ?p1 = "snd (pipe_get p)"
    have "length (pipe_contents p) = Suc (length (pipe_contents ?p1))"
      using arg_cong[OF pipe_ring.contents_get[OF Suc.prems False], of length] by simp
    moreover have "read_loop n ?p1 = drain pipe_get (min n (length (pipe_contents ?p1))) ?p1"
      by (rule Suc.IH[OF pipe_ring.invar_get[OF Suc.prems False]])
    ultimately show ?thesis using False by (simp add: count_pos Let_def case_prod_beta)
  qed (simp add: count_pos)
qed simp

lemma read_loop_spec:
  assumes "pipe_inv p"
  shows "fst (read_loop n p) = take n (pipe_contents p)" "pipe_contents (snd (read_loop n p)) = drop n (pipe_contents p)"
    "pipe_inv (snd (read_loop n p))"
  using pipe_ring.drain_spec[OF assms, of "min n (length (pipe_contents p))"]
  by (auto simp: read_loop_drain[OF assms] min_def)

lemma pipe_get_open: "pi_read_open (snd (pipe_get p)) = pi_read_open p" "pi_write_open (snd (pipe_get p)) = pi_write_open p"
  by (simp_all add: pipe_get_def)

lemma read_loop_open:
  "pi_read_open (snd (read_loop n p)) = pi_read_open p" "pi_write_open (snd (read_loop n p)) = pi_write_open p"
  by (induction n arbitrary: p) (auto simp: Let_def case_prod_beta pipe_get_def)

section \<open>The system invariant\<close>

text \<open>A sleeping thread sleeps for a reason: its wait predicate is false.\<close>

fun sleep_ok :: "pipe \<Rightarrow> pthread \<Rightarrow> bool" where
  "sleep_ok p (ReadBlocked n) \<longleftrightarrow> \<not> read_ready p"
| "sleep_ok p (WriteBlocked src d) \<longleftrightarrow> \<not> write_ready p"
| "sleep_ok p _ \<longleftrightarrow> True"

definition sys_inv :: "pipe_sys \<Rightarrow> bool" where
  "sys_inv s \<longleftrightarrow> pipe_inv (sys_pipe s) \<and> sys_in s = sys_out s @ pipe_contents (sys_pipe s) \<and>
     (\<forall>t. sleep_ok (sys_pipe s) (sys_thr s t))"

definition wake_ok :: "pipe \<Rightarrow> pipe \<Rightarrow> wakeup \<Rightarrow> bool" where
  "wake_ok p p' w \<longleftrightarrow> (w \<noteq> WakeReaders \<and> read_ready p' \<longrightarrow> read_ready p) \<and> (w \<noteq> WakeWriters \<and> write_ready p' \<longrightarrow> write_ready p)"

lemma sleep_woken: "wake_ok p p' w \<Longrightarrow> sleep_ok p u \<Longrightarrow> sleep_ok p' (woken w u)"
  by (cases u; cases w) (auto simp: wake_ok_def)

lemma wake_ok_refl [simp]: "wake_ok p p w"
  by (simp add: wake_ok_def)

lemma sys_set_inv:
  assumes "sys_inv s" "pipe_inv p'" "wake_ok (sys_pipe s) p' w" "sleep_ok p' th"
    "sys_in s @ i = (sys_out s @ out) @ pipe_contents p'"
  shows "sys_inv ((sys_set t (th, p', w) s)\<lparr>sys_in := sys_in s @ i, sys_out := sys_out s @ out\<rparr>)"
  using assms sleep_woken[OF assms(3)] by (auto simp: sys_inv_def sys_set_def)

text \<open>What a piece of a read does: it takes bytes from the front, and wakes the writers if it took any.\<close>

definition read_piece :: "pipe \<Rightarrow> pthread \<times> pipe \<times> wakeup \<Rightarrow> bool" where
  "read_piece p r \<longleftrightarrow> (case r of (th, p', w) \<Rightarrow>
     pipe_inv p' \<and> pipe_contents p = read_bytes th @ pipe_contents p' \<and> wake_ok p p' w \<and> sleep_ok p' th)"

lemma read_piece_same: "pipe_inv p \<Longrightarrow> read_bytes th = [] \<Longrightarrow> sleep_ok p th \<Longrightarrow> read_piece p (th, p, w)"
  by (simp add: read_piece_def)

lemma read_finish_piece: "pipe_inv p \<Longrightarrow> read_piece p (read_finish len p)"
proof (cases "pi_count p = 0")
  case False
  assume i: "pipe_inv p"
  obtain bs p' where l: "read_loop len p = (bs, p')" by force
  note spec = read_loop_spec[OF i, of len, unfolded l] read_loop_open[of len p, unfolded l]
  have "read_ready p' \<Longrightarrow> read_ready p" using False spec by (auto simp: read_ready_def count_pos contents_empty)
  with spec l False show ?thesis by (simp add: read_finish_def read_piece_def wake_ok_def)
qed (simp add: read_finish_def read_piece_def)

lemma read_enter_piece: "pipe_inv p \<Longrightarrow> read_piece p (read_enter nb cb null len p)"
  by (auto simp: read_enter_def read_finish_piece read_piece_same)

lemma read_wait_piece: "pipe_inv p \<Longrightarrow> read_piece p (read_wait cb len p)"
  by (auto simp: read_wait_def read_finish_piece read_piece_same)

lemma read_piece_inv:
  assumes "sys_inv s" "read_piece (sys_pipe s) r"
  shows "sys_inv ((sys_set t r s)\<lparr>sys_out := sys_out s @ read_bytes (fst r)\<rparr>)"
proof -
  obtain th p' w where r: "r = (th, p', w)" by (cases r)
  with assms have "sys_inv ((sys_set t (th, p', w) s)\<lparr>sys_in := sys_in s @ [], sys_out := sys_out s @ read_bytes th\<rparr>)"
    by (intro sys_set_inv) (auto simp: read_piece_def sys_inv_def)
  then show ?thesis by (simp add: r sys_set_def)
qed

lemma thread_piece_inv:
  assumes "sys_inv s" "sleep_ok (sys_pipe s) th"
  shows "sys_inv (sys_set t (th, sys_pipe s, NoWake) s)"
proof -
  have "sys_inv ((sys_set t (th, sys_pipe s, NoWake) s)\<lparr>sys_in := sys_in s @ [], sys_out := sys_out s @ []\<rparr>)"
    using assms by (intro sys_set_inv) (auto simp: sys_inv_def)
  then show ?thesis by (simp add: sys_set_def)
qed

lemma write_iter_inv:
  assumes "sys_inv s" "write_iter nb cb src d (sys_pipe s) cur = (th, p, w, cur')"
  shows "sys_inv ((sys_set t (th, p, w) s)\<lparr>sys_in := sys_in s @ (if w = WakeReaders then [src ! d] else [])\<rparr>)"
proof (cases "w = WakeReaders")
  case True
  let ?p = "sys_pipe s"
  from assms(2) True have p: "p = pipe_put (src ! d) ?p" "pi_count ?p \<noteq> PIPE_CAPACITY" "th = WriteRun src (d + 1)" "pi_read_open ?p"
    by (auto simp: write_iter_def write_stop_def split: if_splits)
  have i: "pipe_inv ?p" using assms(1) by (simp add: sys_inv_def)
  then have room: "length (pipe_contents ?p) < 256"
    using pipe_ring.contents_bound[OF i] contents_full[OF i] p(2) by linarith
  have "pi_count ?p < PIPE_CAPACITY" using room by (simp add: pipe_contents_def PIPE_CAPACITY_def word_less_nat_alt)
  then have "write_ready ?p" by (simp add: write_ready_def)
  then have "sys_inv ((sys_set t (th, p, w) s)\<lparr>sys_in := sys_in s @ [src ! d], sys_out := sys_out s @ []\<rparr>)"
    using assms(1) True p pipe_ring.invar_put[OF i room] pipe_ring.contents_put[OF i room]
    by (intro sys_set_inv) (auto simp: sys_inv_def wake_ok_def)
  then show ?thesis using True by (simp add: sys_set_def)
next
  case False
  with assms(2) have "p = sys_pipe s" "w = NoWake" "sleep_ok (sys_pipe s) th"
    by (auto simp: write_iter_def write_stop_def split: if_splits)
  with thread_piece_inv[OF assms(1), of th t] show ?thesis by (simp add: sys_set_def)
qed

lemma close_end_inv:
  assumes "sys_inv s" "close_end is_write (sys_pipe s) = (p, w)"
  shows "sys_inv (sys_set t (Returned Success [] 0, p, w) s)"
proof -
  have "sys_inv ((sys_set t (Returned Success [] 0, p, w) s)\<lparr>sys_in := sys_in s @ [], sys_out := sys_out s @ []\<rparr>)"
    using assms by (intro sys_set_inv)
      (auto simp: close_end_def sys_inv_def pipe_inv_def pipe_contents_def wake_ok_def read_ready_def write_ready_def split: if_splits)
  then show ?thesis by (simp add: sys_set_def)
qed

lemma sys_inv_pipe: "sys_inv s \<Longrightarrow> pipe_inv (sys_pipe s)"
  by (simp add: sys_inv_def)

lemma pipe_step_inv: "pipe_step s s' \<Longrightarrow> sys_inv s \<Longrightarrow> sys_inv s'"
proof (induction rule: pipe_step.induct)
  case (read_call s t st bs n nb cb null len r)
  then show ?case using read_enter_piece[OF sys_inv_pipe, of s nb cb null len] by (auto intro: read_piece_inv)
next
  case (read_sleep s t len cb r)
  then show ?case using read_wait_piece[OF sys_inv_pipe, of s cb len] by (auto intro: read_piece_inv)
next
  case (read_resume s t len r)
  then show ?case using read_finish_piece[OF sys_inv_pipe, of s len] by (auto intro: read_piece_inv)
next
  case (write_call s t st bs n null src)
  then show ?case by (intro thread_piece_inv) (auto simp: write_enter_def)
next
  case (write_go s t src d nb cb cur th p w cur')
  then show ?case by (intro write_iter_inv)
next
  case (write_sleep s t src d cb)
  then show ?case by (intro thread_piece_inv) (auto simp: write_wait_def write_stop_def)
next
  case (write_resume s t src d)
  then show ?case by (intro thread_piece_inv) auto
next
  case (closed s t st bs n is_write p w)
  then show ?case by (intro close_end_inv)
qed

lemma sys_init_inv: "length junk = 256 \<Longrightarrow> sys_inv (sys_init junk)"
  by (simp add: sys_inv_def sys_init_def pipe_inv_def pipe_contents_def new_pipe_def)

lemma pipe_steps_inv: "pipe_step\<^sup>*\<^sup>* (sys_init junk) s \<Longrightarrow> length junk = 256 \<Longrightarrow> sys_inv s"
  by (induction rule: rtranclp_induct) (auto intro: sys_init_inv pipe_step_inv)

section \<open>Properties\<close>




definition demo_junk :: "u8 list" where "demo_junk = replicate 256 0"

lemma demo_read_sleeps:
  assumes "sys_thr s t = Returned st bs n" "pi_count (sys_pipe s) = 0" "pi_write_open (sys_pipe s)"
  shows "pipe_step\<^sup>*\<^sup>* s (s\<lparr>sys_thr := (sys_thr s)(t := ReadBlocked 4)\<rparr>)"
proof -
  let ?s1 = "s\<lparr>sys_thr := (sys_thr s)(t := ReadWait 4)\<rparr>"
  have "read_enter False True False 4 (sys_pipe s) = (ReadWait 4, sys_pipe s, NoWake)" using assms by (simp add: read_enter_def)
  from pipe_step.read_call[OF assms(1) this] have 1: "pipe_step s ?s1" by (simp add: sys_set_def fun_upd_def cong: if_cong)
  have "read_wait True 4 (sys_pipe ?s1) = (ReadBlocked 4, sys_pipe s, NoWake)" using assms by (simp add: read_wait_def read_ready_def)
  from pipe_step.read_sleep[where t = t, OF _ this] have "pipe_step ?s1 (s\<lparr>sys_thr := (sys_thr s)(t := ReadBlocked 4)\<rparr>)"
    by (simp add: sys_set_def fun_upd_def cong: if_cong)
  with 1 show ?thesis by (meson converse_rtranclp_into_rtranclp r_into_rtranclp)
qed

text \<open>Two readers asleep, then one byte written: both are awake.\<close>

definition two_readers :: pipe_sys where
  "two_readers = (sys_init demo_junk)\<lparr>sys_thr := (\<lambda>_. Returned Success [] 0)(1 := ReadBlocked 4, 2 := ReadBlocked 4)\<rparr>"

definition two_awake :: pipe_sys where
  "two_awake = \<lparr>sys_pipe = pipe_put 7 (new_pipe demo_junk),
     sys_thr = (\<lambda>_. Returned Success [] 0)(0 := WriteRun [7] 1, 1 := ReadWoken 4, 2 := ReadWoken 4), sys_in = [7], sys_out = []\<rparr>"

lemma two_readers_reached: "pipe_step\<^sup>*\<^sup>* (sys_init demo_junk) two_readers"
proof -
  let ?s = "sys_init demo_junk" and ?r = "Returned Success [] 0"
  have e: "sys_thr ?s t = ?r" "pi_count (sys_pipe ?s) = 0" "pi_write_open (sys_pipe ?s)" for t
    by (simp_all add: sys_init_def new_pipe_def)
  have "pipe_step\<^sup>*\<^sup>* ?s (?s\<lparr>sys_thr := (sys_thr ?s)(1 := ReadBlocked 4)\<rparr>)" by (rule demo_read_sleeps[OF e])
  moreover have "pipe_step\<^sup>*\<^sup>* (?s\<lparr>sys_thr := (sys_thr ?s)(1 := ReadBlocked 4)\<rparr>) two_readers"
    using demo_read_sleeps[of "?s\<lparr>sys_thr := (sys_thr ?s)(1 := ReadBlocked 4)\<rparr>" 2 Success "[]" 0] e
    by (simp add: two_readers_def sys_init_def)
  ultimately show ?thesis by (rule rtranclp_trans)
qed

lemma two_awake_reached: "pipe_step\<^sup>*\<^sup>* (sys_init demo_junk) two_awake"
proof -
  let ?s = "two_readers\<lparr>sys_thr := (sys_thr two_readers)(0 := WriteRun [7] 0)\<rparr>"
  have 0: "sys_thr two_readers 0 = Returned Success [] 0" by (simp add: two_readers_def)
  have a: "pipe_step two_readers ?s"
    using pipe_step.write_call[OF 0, of False "[7]"] by (simp add: write_enter_def sys_set_def fun_upd_def cong: if_cong)
  have 1: "sys_thr ?s 0 = WriteRun [7] 0" by simp
  have 2: "write_iter False True [7] 0 (sys_pipe ?s) None = (WriteRun [7] 1, pipe_put 7 (new_pipe demo_junk), WakeReaders, None)"
    by (simp add: write_iter_def two_readers_def sys_init_def new_pipe_def PIPE_CAPACITY_def)
  have "(sys_set 0 (WriteRun [7] 1, pipe_put 7 (new_pipe demo_junk), WakeReaders) ?s)
      \<lparr>sys_in := sys_in ?s @ (if WakeReaders = WakeReaders then [[7] ! 0] else [])\<rparr> = two_awake"
    by (auto simp: sys_set_def two_awake_def two_readers_def sys_init_def fun_eq_iff)
  with pipe_step.write_go[OF 1 2] have b: "pipe_step ?s two_awake" by simp
  from two_readers_reached a b show ?thesis by (meson rtranclp.rtrancl_into_rtrancl)
qed

lemma demo_junk_length: "length demo_junk = 256"
  by (simp add: demo_junk_def)



text \<open>C28. A read can report end of file on a pipe that still has a writer: with two readers asleep, one byte
  wakes both; the first takes it, and the second, which does not test the condition again after its
  wait, finds the pipe empty and returns success with no bytes.\<close>

theorem pipe_read_false_eof:
  "\<exists>s s'. pipe_step\<^sup>*\<^sup>* (sys_init (replicate 256 0)) s \<and> sys_thr s 2 = ReadWoken 4 \<and> pipe_step s s' \<and>
     sys_thr s' 2 = Returned Success [] 0 \<and> pi_write_open (sys_pipe s')"
proof -
  have 1: "sys_thr two_awake 1 = ReadWoken 4" by (simp add: two_awake_def)
  obtain s where s: "pipe_step two_awake s" "sys_thr s 2 = ReadWoken 4" "pi_count (sys_pipe s) = 0" "pi_write_open (sys_pipe s)"
  proof
    let ?r = "read_finish 4 (sys_pipe two_awake)"
    show "pipe_step two_awake ((sys_set 1 ?r two_awake)\<lparr>sys_out := sys_out two_awake @ read_bytes (fst ?r)\<rparr>)"
      by (rule pipe_step.read_resume[OF 1 refl])
  qed (simp_all add: read_finish_def two_awake_def pipe_put_def new_pipe_def numeral_eq_Suc pipe_get_def sys_set_def)
  let ?s' = "(sys_set 2 (read_finish 4 (sys_pipe s)) s)\<lparr>sys_out := sys_out s @ read_bytes (fst (read_finish 4 (sys_pipe s)))\<rparr>"
  have "pipe_step s ?s'" by (rule pipe_step.read_resume[OF s(2) refl])
  moreover have "sys_thr ?s' 2 = Returned Success [] 0" "pi_write_open (sys_pipe ?s')"
    using s(3,4) by (simp_all add: read_finish_def sys_set_def)
  moreover have "pipe_step\<^sup>*\<^sup>* (sys_init demo_junk) s" using two_awake_reached s(1) by (rule rtranclp.rtrancl_into_rtrancl)
  ultimately show ?thesis using s(2) unfolding demo_junk_def by blast
qed

section \<open>Writes that do not wait\<close>

text \<open>The loop of \<^verbatim>\<open>pipe_write\<close> up to its end or its first wait.\<close>

function write_seq :: "bool \<Rightarrow> bool \<Rightarrow> u8 list \<Rightarrow> nat \<Rightarrow> pipe \<Rightarrow> process option \<Rightarrow> pthread \<times> pipe \<times> process option" where
  "write_seq nonblocking can_block src done p cur =
    (case write_iter nonblocking can_block src done p cur of
       (th, p', w, cur') \<Rightarrow>
         if w = WakeReaders then write_seq nonblocking can_block src (done + 1) p' cur' else (th, p', cur'))"
  by pat_completeness auto
termination
  by (relation "measure (\<lambda>(nb, cb, src, done, p, cur). length src - done)")
     (auto simp: write_iter_def write_stop_def split: if_splits)
declare write_seq.simps [simp del]

lemma write_seq_spec:
  assumes "pipe_inv p" "pi_read_open p" "d \<le> length src" "length (pipe_contents p) + room = 256"
  shows "\<exists>p'. write_seq nb cb src d p cur =
      (if length src - d \<le> room then Returned Success [] (length src)
       else if nb \<or> \<not> cb then write_stop (d + room) else WriteWait src (d + room), p', cur) \<and>
    pipe_inv p' \<and> pipe_contents p' = pipe_contents p @ take room (drop d src)"
  using assms
proof (induction "length src - d" arbitrary: d p room)
  case 0
  then show ?case by (simp add: write_seq.simps[of nb cb src d p cur] write_iter_def)
next
  case (Suc k)
  show ?case
  proof (cases "pi_count p = PIPE_CAPACITY")
    case True
    then have "room = 0" using contents_full[OF Suc.prems(1)] Suc.prems(4) by simp
    with Suc.hyps(2) Suc.prems True show ?thesis
      by (auto simp: write_seq.simps[of nb cb src d p cur] write_iter_def)
  next
    case False
    then have "length (pipe_contents p) \<noteq> 256" using contents_full[OF Suc.prems(1)] by simp
    with Suc.prems(4) obtain r where r: "room = Suc r" by (cases room) auto
    then have full: "length (pipe_contents p) < 256" using Suc.prems(4) by simp
    let ?p = "pipe_put (src ! d) p"
    have d: "d < length src" using Suc.hyps(2) by simp
    note put = pipe_ring.invar_put[OF Suc.prems(1) full, of "src ! d"] pipe_ring.contents_put[OF Suc.prems(1) full, of "src ! d"]
    have tk: "take (Suc r) (drop d src) = src ! d # take r (drop (Suc d) src)"
      by (simp flip: Cons_nth_drop_Suc[OF d])
    have "k = length src - (d + 1)" "d + 1 \<le> length src" "length (pipe_contents ?p) + r = 256" "pi_read_open ?p"
      using Suc.hyps(2) Suc.prems(2,4) d r put(2) by (auto simp: pipe_put_def)
    from Suc.hyps(1)[OF this(1) put(1) this(4,2,3)] show ?thesis
      using d r False Suc.prems(2) put(2) tk
      by (auto simp: write_seq.simps[of nb cb src d p cur] write_iter_def)
  qed
qed

text \<open>C25. A write that may not sleep appends what fits and nothing else. If everything fits, it reports the
  full length. If only a part fits, it stores that part and returns success, but with a byte count of
  0; only if nothing fits does it say it would block. A write that may sleep is then about to wait
  with exactly the stored part done.\<close>

theorem pipe_write_fits:
  assumes "pipe_inv p" "pi_read_open p" "src \<noteq> []"
    and "room = 256 - length (pipe_contents p)"
  shows "\<exists>p'. write_seq nonblocking can_block src 0 p cur =
      (if length src \<le> room then Returned Success [] (length src)
       else if nonblocking \<or> \<not> can_block then Returned (if room > 0 then Success else WouldBlock) [] 0
       else WriteWait src room, p', cur) \<and>
    pipe_contents p' = pipe_contents p @ take room src"
proof -
  have "length (pipe_contents p) + room = 256" using assms(4) pipe_ring.contents_bound[OF assms(1)] by simp
  from write_seq_spec[OF assms(1,2) _ this, of 0 src nonblocking can_block cur] show ?thesis
    by (auto simp: write_stop_def)
qed

definition nearly_full :: pipe where
  "nearly_full = (new_pipe demo_junk)\<lparr>pi_tail := 255, pi_count := 255\<rparr>"

theorem pipe_write_fits_witness:
  "\<exists>p'. write_seq True True [1, 2] 0 nearly_full None = (Returned Success [] 0, p', None) \<and>
     pipe_contents p' = pipe_contents nearly_full @ [1]"
proof -
  have "pipe_inv nearly_full" "pi_read_open nearly_full" "1 = 256 - length (pipe_contents nearly_full)"
    by (simp_all add: pipe_inv_def nearly_full_def new_pipe_def demo_junk_def pipe_contents_def)
  from pipe_write_fits[OF this(1,2) _ this(3), of "[1, 2]" True True None] show ?thesis by simp
qed

lemma kfree_apply: "kfree m h x = (if m = Some x then None else h x)"
  by (auto simp: kfree_def split: option.splits)

lemma create_fail:
  "None \<in> {m_re, m_we, m_rd, m_wr} \<Longrightarrow> create junk (Some p) m_re m_we m_rd m_wr h =
     (NoMemory, None, kfree (Some p) (kfree m_wr (kfree m_rd (kfree m_we (kfree m_re (h(p \<mapsto> KPipe (new_pipe junk))))))))"
  by (auto simp: create_def Let_def split: option.splits)

text \<open>C26. Creating a pipe is all or nothing, and closing both its ends gives everything back. If any of the five
  allocations fails, the heap is as before. Otherwise, whichever end is closed first, the pipe
  survives until the second close, which frees it; only the two file objects remain, detached.\<close>

theorem pipe_lifecycle:
  assumes "h p = None" "h re = None" "h we = None" "h rd = None" "h wr = None" "distinct [p, re, we, rd, wr]"
    and "m_p \<in> {None, Some p}" "m_re \<in> {None, Some re}" "m_we \<in> {None, Some we}" "m_rd \<in> {None, Some rd}" "m_wr \<in> {None, Some wr}"
    and "create junk m_p m_re m_we m_rd m_wr h = (st, files, h1)"
  shows "(None \<in> {m_p, m_re, m_we, m_rd, m_wr} \<longrightarrow> st = NoMemory \<and> files = None \<and> h1 = h) \<and>
    (None \<notin> {m_p, m_re, m_we, m_rd, m_wr} \<longrightarrow> st = Success \<and> files = Some (rd, wr) \<and>
      (\<forall>a b. {a, b} = {rd, wr} \<and> a \<noteq> b \<longrightarrow>
        fst (pipe_close a h1) p \<noteq> None \<and>
        fst (pipe_close b (fst (pipe_close a h1))) =
          h(rd \<mapsto> KFile ((pipe_file False re)\<lparr>f_private_data := None\<rparr>),
            wr \<mapsto> KFile ((pipe_file True we)\<lparr>f_private_data := None\<rparr>))))"
proof (intro conjI impI)
  assume "None \<in> {m_p, m_re, m_we, m_rd, m_wr}"
  then consider "m_p = None" | "m_p = Some p" "None \<in> {m_re, m_we, m_rd, m_wr}" using assms(7) by auto
  then have "st = NoMemory \<and> files = None \<and> h1 = h"
  proof cases
    case 1
    then show ?thesis using assms(12) by (simp add: create_def)
  next
    case 2
    note f = create_fail[OF 2(2), of junk p h]
    have "kfree (Some p) (kfree m_wr (kfree m_rd (kfree m_we (kfree m_re (h(p \<mapsto> KPipe (new_pipe junk))))))) x = h x" for x
      using assms(1-5,8-11) by (auto simp: kfree_apply)
    then show ?thesis using f assms(12) 2(1) by (auto simp: fun_eq_iff)
  qed
  then show "st = NoMemory" "files = None" "h1 = h" by auto
next
  assume ne: "None \<notin> {m_p, m_re, m_we, m_rd, m_wr}"
  with assms(7-11) have m: "m_p = Some p" "m_re = Some re" "m_we = Some we" "m_rd = Some rd" "m_wr = Some wr" by auto
  note res = assms(12)[unfolded m create_def Let_def, simplified]
  show "st = Success" "files = Some (rd, wr)" using res by simp_all
  have h1: "h1 = h(p \<mapsto> KPipe (new_pipe junk), re \<mapsto> KEnd \<lparr>pe_pipe = p, pe_is_write = False\<rparr>,
      we \<mapsto> KEnd \<lparr>pe_pipe = p, pe_is_write = True\<rparr>, rd \<mapsto> KFile (pipe_file False re), wr \<mapsto> KFile (pipe_file True we))"
    using res by simp
  note run = h1 pipe_close_def file_end_def close_end_def kfree_def maybe_free_def pipe_file_def new_pipe_def
  have "fst (pipe_close rd h1) p \<noteq> None" "fst (pipe_close wr h1) p \<noteq> None" using assms(6) by (simp_all add: run)
  moreover have "fst (pipe_close wr (fst (pipe_close rd h1))) =
          h(rd \<mapsto> KFile ((pipe_file False re)\<lparr>f_private_data := None\<rparr>), wr \<mapsto> KFile ((pipe_file True we)\<lparr>f_private_data := None\<rparr>))"
    "fst (pipe_close rd (fst (pipe_close wr h1))) =
          h(rd \<mapsto> KFile ((pipe_file False re)\<lparr>f_private_data := None\<rparr>), wr \<mapsto> KFile ((pipe_file True we)\<lparr>f_private_data := None\<rparr>))"
    using assms(1-6) by (auto simp: run fun_eq_iff)
  ultimately show "\<forall>a b. {a, b} = {rd, wr} \<and> a \<noteq> b \<longrightarrow>
        fst (pipe_close a h1) p \<noteq> None \<and>
        fst (pipe_close b (fst (pipe_close a h1))) =
          h(rd \<mapsto> KFile ((pipe_file False re)\<lparr>f_private_data := None\<rparr>), wr \<mapsto> KFile ((pipe_file True we)\<lparr>f_private_data := None\<rparr>))"
    by (auto simp: doubleton_eq_iff)
qed

definition demo_open :: kheap where
  "demo_open = [1 \<mapsto> KPipe (new_pipe demo_junk), 2 \<mapsto> KEnd \<lparr>pe_pipe = 1, pe_is_write = False\<rparr>,
     3 \<mapsto> KEnd \<lparr>pe_pipe = 1, pe_is_write = True\<rparr>, 4 \<mapsto> KFile (pipe_file False 2), 5 \<mapsto> KFile (pipe_file True 3)]"

theorem pipe_lifecycle_witness:
  "create demo_junk (Some 1) (Some 2) (Some 3) (Some 4) (Some 5) Map.empty = (Success, Some (4, 5), demo_open) \<and>
   fst (pipe_close 4 (fst (pipe_close 5 demo_open))) 1 = None"
proof -
  have c: "create demo_junk (Some 1) (Some 2) (Some 3) (Some 4) (Some 5) Map.empty = (Success, Some (4, 5), demo_open)"
    by (simp add: create_def demo_open_def)
  from pipe_lifecycle[OF _ _ _ _ _ _ _ _ _ _ _ c, of 1 2 3 4 5]
  have "\<forall>a b. {a, b} = {4, 5 :: nat} \<and> a \<noteq> b \<longrightarrow> fst (pipe_close b (fst (pipe_close a demo_open))) =
     [4 \<mapsto> KFile ((pipe_file False 2)\<lparr>f_private_data := None\<rparr>), 5 \<mapsto> KFile ((pipe_file True 3)\<lparr>f_private_data := None\<rparr>)]"
    by simp
  from this[rule_format, of 5 4] c show ?thesis by (simp add: insert_commute)
qed

text \<open>C27. Polling the read end of a pipe says readable exactly if a blocking read of it would return at once,
  and polling the write end says writable exactly if a write would get past its first iteration
  without waiting; a write end without readers also reports an error.\<close>

theorem pipe_poll_agrees:
  assumes "file_end (Some f) h = Some (e, p)" "pipe_inv p" "len > 0" "src \<noteq> []"
  shows "(\<not> pe_is_write e \<longrightarrow>
      (pipe_poll (Some f) h AND READY_READABLE \<noteq> 0 \<longleftrightarrow> fst (read_enter False True False len p) \<noteq> ReadWait len)) \<and>
    (pe_is_write e \<longrightarrow>
      (pipe_poll (Some f) h AND READY_WRITABLE \<noteq> 0 \<longleftrightarrow> fst (write_iter False True src 0 p cur) \<noteq> WriteWait src 0) \<and>
      (pipe_poll (Some f) h AND READY_ERROR \<noteq> 0 \<longleftrightarrow> fst (write_iter False True src 0 p cur) = Returned BrokenPipe [] 0))"
proof -
  have c: "pi_count p < PIPE_CAPACITY \<longleftrightarrow> pi_count p \<noteq> PIPE_CAPACITY"
    using assms(2) by (auto simp: pipe_inv_def PIPE_CAPACITY_def word_less_nat_alt word_unat_eq_iff)
  have r: "fst (read_finish len p) \<noteq> ReadWait len" by (simp add: read_finish_def case_prod_beta)
  show ?thesis
    using assms r by (auto simp: pipe_poll_def ready_bits read_enter_def write_iter_def read_ready_def write_ready_def c word_gt_0)
qed

theorem pipe_poll_agrees_witness:
  "pipe_poll (Some (pipe_file False 2)) demo_open AND READY_READABLE = 0 \<and>
   fst (read_enter False True False 1 (new_pipe demo_junk)) = ReadWait 1"
proof -
  have "file_end (Some (pipe_file False 2)) demo_open = Some (\<lparr>pe_pipe = 1, pe_is_write = False\<rparr>, new_pipe demo_junk)"
    by (simp add: file_end_def pipe_file_def demo_open_def)
  moreover have "pipe_inv (new_pipe demo_junk)" by (simp add: pipe_inv_def new_pipe_def demo_junk_def)
  moreover have "fst (read_enter False True False 1 (new_pipe demo_junk)) = ReadWait 1" by (simp add: read_enter_def new_pipe_def)
  ultimately show ?thesis using pipe_poll_agrees[of "pipe_file False 2" demo_open _ _ 1 "[0]"] by fastforce
qed

end
