(* ===== verification/Ktl_List.thy ===== *)
theory Ktl_List
  imports Prelude
begin

text \<open>
  The intrusive doubly linked list of the kernel template library (\<^verbatim>\<open>cpp/ktl/list.cc\<close> and
  \<^verbatim>\<open>cpp/include/ktl/list.h\<close>): nodes that point at each other in a ring closed by a sentinel, with the
  pointer updates of the source. \<open>ring_of\<close> relates such a heap to the list of its nodes; the lemmas show
  that every pointer operation does to the list what its name says, and so that clients may be
  modelled with plain lists.
\<close>

section \<open>Nodes and pointer operations\<close>

text \<open>Addresses are numbers and \<open>0\<close> is the null pointer.\<close>

record links =
  l_next :: "nat \<Rightarrow> nat"
  l_prev :: "nat \<Rightarrow> nat"

definition set_next :: "nat \<Rightarrow> nat \<Rightarrow> links \<Rightarrow> links" where
  "set_next a b h = h\<lparr>l_next := (l_next h)(a := b)\<rparr>"

definition set_prev :: "nat \<Rightarrow> nat \<Rightarrow> links \<Rightarrow> links" where
  "set_prev a b h = h\<lparr>l_prev := (l_prev h)(a := b)\<rparr>"

definition list_init :: "nat \<Rightarrow> links \<Rightarrow> links" where
  "list_init s h = set_next s s (set_prev s s h)"

definition hook :: "nat \<Rightarrow> nat \<Rightarrow> links \<Rightarrow> links" where
  "hook n position h =
    (let h1 = set_next n position h;
         h2 = set_prev n (l_prev h1 position) h1;
         h3 = set_next (l_prev h2 position) n h2
     in set_prev position n h3)"

definition unhook :: "nat \<Rightarrow> links \<Rightarrow> links" where
  "unhook n h =
    (let next_node = l_next h n; prev_node = l_prev h n;
         h1 = set_next prev_node next_node h;
         h2 = set_prev next_node prev_node h1;
         h3 = set_prev n 0 h2
     in set_next n 0 h3)"

definition transfer :: "nat \<Rightarrow> nat \<Rightarrow> nat \<Rightarrow> links \<Rightarrow> links" where
  \<comment> \<open>moves the nodes from \<open>first\<close> up to but not including \<open>stop\<close> in front of \<open>this\<close>\<close>
  "transfer this first stop h =
    (if this \<noteq> stop then
       (let h1 = set_next (l_prev h stop) this h;
            h2 = set_next (l_prev h1 first) stop h1;
            h3 = set_next (l_prev h2 this) first h2;
            temp = l_prev h3 this;
            h4 = set_prev this (l_prev h3 stop) h3;
            h5 = set_prev stop (l_prev h4 first) h4
        in set_prev first temp h5)
     else h)"

text \<open>The loop of \<^verbatim>\<open>reverse\<close> swaps the two pointers of every node once around the ring; it ends at the node it
  started from, if ever. \<open>fuel\<close> bounds the rounds.\<close>

fun reverse_loop :: "nat \<Rightarrow> nat \<Rightarrow> nat \<Rightarrow> links \<Rightarrow> links option" where
  "reverse_loop 0 this temp h = None"
| "reverse_loop (Suc fuel) this temp h =
    (let n = l_next h temp; p = l_prev h temp;
         h' = set_prev temp n (set_next temp p h);
         temp' = l_prev h' temp
     in if temp' \<noteq> this then reverse_loop fuel this temp' h' else Some h')"

definition swap_lists :: "nat \<Rightarrow> nat \<Rightarrow> links \<Rightarrow> links" where
  \<comment> \<open>the pointer updates in the order of the assignments; \<open>a.next->prev = a.prev->next = &a\<close> assigns right to left\<close>
  "swap_lists x y h =
    (if l_next h x \<noteq> x then
       (if l_next h y \<noteq> y then
          set_prev y (l_prev h x) (set_prev x (l_prev h y) (set_next y (l_next h x) (set_next x (l_next h y) h)))
        else
          (let h1 = set_prev y (l_prev h x) (set_next y (l_next h x) h);
               h2 = set_next (l_prev h1 y) y h1;
               h3 = set_prev (l_next h2 y) y h2
           in set_next x x (set_prev x x h3)))
     else if l_next h y \<noteq> y then
       (let h1 = set_prev x (l_prev h y) (set_next x (l_next h y) h);
            h2 = set_next (l_prev h1 x) x h1;
            h3 = set_prev (l_next h2 x) x h2
        in set_next y y (set_prev y y h3))
     else h)"

definition list_begin :: "nat \<Rightarrow> links \<Rightarrow> nat" where "list_begin s h = l_next h s"

definition list_empty :: "nat \<Rightarrow> links \<Rightarrow> bool" where "list_empty s h \<longleftrightarrow> l_next h s = s"

definition insert_end :: "nat \<Rightarrow> nat \<Rightarrow> links \<Rightarrow> links" where
  \<comment> \<open>\<^verbatim>\<open>insert\<close> without a position hooks in front of the sentinel\<close>
  "insert_end s n h = hook n s h"

text \<open>The loop of \<^verbatim>\<open>remove\<close>: \<open>val\<close> gives the value stored in a node; \<open>fuel\<close> bounds the nodes visited.\<close>

fun remove_loop :: "nat \<Rightarrow> (nat \<Rightarrow> 'a) \<Rightarrow> 'a \<Rightarrow> nat \<Rightarrow> nat \<Rightarrow> links \<Rightarrow> links option" where
  "remove_loop 0 val v s first h = None"
| "remove_loop (Suc fuel) val v s first h =
    (if first \<noteq> s then
       (let n = l_next h first in
        remove_loop fuel val v s n (if val first = v then unhook first h else h))
     else Some h)"

section \<open>Rings\<close>

fun linked :: "links \<Rightarrow> nat list \<Rightarrow> bool" where
  "linked h (a # b # r) \<longleftrightarrow> l_next h a = b \<and> l_prev h b = a \<and> linked h (b # r)"
| "linked h _ \<longleftrightarrow> True"

definition ring_of :: "links \<Rightarrow> nat \<Rightarrow> nat list \<Rightarrow> bool" where
  "ring_of h s xs \<longleftrightarrow> linked h (s # xs @ [s]) \<and> distinct (s # xs)"

lemma linked_append: "linked h (xs @ y # zs) \<longleftrightarrow> linked h (xs @ [y]) \<and> linked h (y # zs)"
proof (induction xs)
  case (Cons x xs)
  then show ?case by (cases xs) auto
qed simp

lemma linked_cong:
  "(\<And>a. a \<in> set (butlast xs) \<Longrightarrow> l_next h a = l_next h' a) \<Longrightarrow> (\<And>a. a \<in> set (tl xs) \<Longrightarrow> l_prev h a = l_prev h' a) \<Longrightarrow>
   linked h xs = linked h' xs"
  by (induction h xs rule: linked.induct) auto

lemma set_simps [simp]:
  "l_next (set_next a b h) = (l_next h)(a := b)" "l_prev (set_next a b h) = l_prev h"
  "l_prev (set_prev a b h) = (l_prev h)(a := b)" "l_next (set_prev a b h) = l_next h"
  by (simp_all add: set_next_def set_prev_def)

lemma list_init_ring: "ring_of (list_init s h) s []"
  by (simp add: ring_of_def list_init_def)

text \<open>Around a place in the ring: the node before it, the node after it.\<close>

lemma ring_split:
  "ring_of h s (xs @ ys) \<longleftrightarrow> linked h (s # xs @ [hd (ys @ [s])]) \<and> linked h (ys @ [s]) \<and> distinct (s # xs @ ys)"
proof (cases ys)
  case (Cons y r)
  then show ?thesis using linked_append[of h "s # xs" y "r @ [s]"] by (simp add: ring_of_def)
qed (simp add: ring_of_def)

lemma linked_snoc:
  "linked h (zs @ [p]) \<longleftrightarrow> linked h zs \<and> (zs \<noteq> [] \<longrightarrow> l_next h (last zs) = p \<and> l_prev h p = last zs)"
proof (induction zs)
  case (Cons z zs)
  then show ?case by (cases zs) auto
qed simp

lemma linked_cons: "linked h (a # zs) \<longleftrightarrow> linked h zs \<and> (zs \<noteq> [] \<longrightarrow> l_next h a = hd zs \<and> l_prev h (hd zs) = a)"
  by (cases zs) auto

lemma last_butlast: "distinct zs \<Longrightarrow> zs \<noteq> [] \<Longrightarrow> last zs \<notin> set (butlast zs)"
  by (metis append_butlast_last_id distinct_butlast not_distinct_conv_prefix)

lemma ring_hook:
  assumes "ring_of h s (xs @ ys)" "n \<notin> set (s # xs @ ys)"
  shows "ring_of (hook n (hd (ys @ [s])) h) s (xs @ n # ys)"
proof -
  define p q where "p = hd (ys @ [s])" and "q = last (s # xs)"
  let ?h = "hook n p h"
  from assms(1) have l: "linked h (s # xs)" "l_prev h p = q" "linked h (ys @ [s])" and d: "distinct (s # xs @ ys)"
    unfolding ring_split p_def q_def using linked_snoc[of h "s # xs"] by auto
  have q1: "q \<in> set (s # xs)" using last_in_set[of "s # xs"] by (simp only: q_def) simp
  have q2: "q \<notin> set (butlast (s # xs))" unfolding q_def by (rule last_butlast) (use d in auto)
  have "q \<notin> set ys" using q1 d by auto
  note q = q1 q2 this
  have p: "p \<in> insert s (set ys)" "p \<notin> set xs" "p \<notin> set (tl (ys @ [s]))"
    using d by (cases ys; auto simp: p_def)+
  have h: "l_next ?h = (l_next h)(n := p, q := n)" "l_prev ?h = (l_prev h)(n := q, p := n)"
    using assms(2) p q l(2) by (auto simp: hook_def Let_def fun_eq_iff)
  have np: "n \<noteq> p" "n \<noteq> q" using assms(2) p q by auto
  have "n \<notin> set (tl (ys @ [s]))" using assms(2) by (cases ys) auto
  note p = p this
  have "linked ?h (s # xs) = linked h (s # xs)"
    using p q assms(2) d by (intro linked_cong) (auto simp: h dest: in_set_butlastD split: if_splits)
  moreover have "linked ?h (ys @ [s]) = linked h (ys @ [s])"
    using p q assms(2) d by (intro linked_cong) (auto simp: h butlast_append dest: in_set_butlastD list.set_sel(2))
  moreover have "l_next ?h q = n" "l_prev ?h n = q" "l_next ?h n = p" "l_prev ?h p = n" using np by (simp_all add: h)
  ultimately have "linked ?h ((s # xs) @ [n])" "linked ?h (n # ys @ [s])"
    using l unfolding linked_snoc linked_cons[of _ n] by (simp_all add: p_def q_def)
  then show ?thesis using d assms(2) unfolding ring_split p_def[symmetric] by simp
qed

lemma ring_unhook:
  assumes "ring_of h s (xs @ n # ys)"
  shows "ring_of (unhook n h) s (xs @ ys)" "l_next (unhook n h) n = 0" "l_prev (unhook n h) n = 0"
proof -
  define p q where "p = hd (ys @ [s])" and "q = last (s # xs)"
  let ?h = "unhook n h"
  from assms have l: "linked h (s # xs)" "linked h (ys @ [s])" "l_prev h n = q" "l_next h n = p" and d: "distinct (s # xs @ n # ys)"
    unfolding ring_split p_def q_def using linked_snoc[of h "s # xs" n] linked_cons[of h n "ys @ [s]"] by auto
  have q1: "q \<in> set (s # xs)" using last_in_set[of "s # xs"] by (simp only: q_def) simp
  have q2: "q \<notin> set (butlast (s # xs))" unfolding q_def by (rule last_butlast) (use d in auto)
  have "q \<notin> set ys" using q1 d by auto
  note q = q1 q2 this
  have p: "p \<in> insert s (set ys)" "p \<notin> set xs" "p \<notin> set (tl (ys @ [s]))"
    using d by (cases ys; auto simp: p_def)+
  have h: "l_next ?h = (l_next h)(q := p, n := 0)" "l_prev ?h = (l_prev h)(p := q, n := 0)"
    using l by (auto simp: unhook_def Let_def fun_eq_iff)
  have np: "n \<noteq> p" "n \<noteq> q" using d p q by auto
  have "n \<notin> set (tl (ys @ [s]))" using d by (cases ys) auto
  note p = p this
  have "linked ?h (s # xs) = linked h (s # xs)"
    using p q d by (intro linked_cong) (auto simp: h dest: in_set_butlastD split: if_splits)
  moreover have "linked ?h (ys @ [s]) = linked h (ys @ [s])"
    using p q d by (intro linked_cong) (auto simp: h butlast_append dest: in_set_butlastD list.set_sel(2))
  moreover have "l_next ?h q = p" "l_prev ?h p = q" using np by (simp_all add: h)
  ultimately have "linked ?h ((s # xs) @ [p])" "linked ?h (ys @ [s])"
    using l unfolding linked_snoc by (simp_all add: q_def)
  then show "ring_of ?h s (xs @ ys)" using d unfolding ring_split p_def[symmetric] by simp
  show "l_next ?h n = 0" "l_prev ?h n = 0" by (simp_all add: h)
qed

text \<open>Swapping both pointers of every node of a ring turns it round.\<close>

definition swapped :: "nat set \<Rightarrow> links \<Rightarrow> links" where
  "swapped A h = \<lparr>l_next = (\<lambda>a. if a \<in> A then l_prev h a else l_next h a),
                  l_prev = (\<lambda>a. if a \<in> A then l_next h a else l_prev h a)\<rparr>"

lemma linked_rev: "linked h ws \<Longrightarrow> set ws \<subseteq> A \<Longrightarrow> linked (swapped A h) (rev ws)"
proof (induction ws)
  case (Cons w ws)
  from Cons.prems have "linked h ws" "ws \<noteq> [] \<Longrightarrow> l_next h w = hd ws \<and> l_prev h (hd ws) = w"
    unfolding linked_cons[of h w] by auto
  with Cons show ?case by (auto simp: linked_snoc last_rev swapped_def dest: hd_in_set)
qed simp

lemma linked_nexts: "linked h (zs @ [s]) \<Longrightarrow> map (l_next h) zs = tl (zs @ [s])"
proof (induction zs)
  case (Cons z zs)
  then show ?case by (cases zs) auto
qed simp

lemma reverse_loop_swapped:
  "map (l_next h) zs = tl (zs @ [s]) \<Longrightarrow> zs \<noteq> [] \<Longrightarrow> distinct zs \<Longrightarrow> s \<notin> set (tl zs) \<Longrightarrow> length zs \<le> fuel \<Longrightarrow>
   reverse_loop fuel s (hd zs) h = Some (swapped (set zs) h)"
proof (induction zs arbitrary: h fuel)
  case (Cons a r)
  obtain f where f: "fuel = Suc f" using Cons.prems(5) by (cases fuel) auto
  let ?h = "set_prev a (l_next h a) (set_next a (l_prev h a) h)"
  have one: "swapped {a} h = ?h" by (simp add: swapped_def fun_eq_iff set_prev_def set_next_def)
  show ?case
  proof (cases r)
    case Nil
    then show ?thesis using Cons.prems(1) by (simp add: f one)
  next
    case (Cons b r')
    have "map (l_next ?h) r = map (l_next h) r" using Cons.prems(3) by (intro map_cong) auto
    also have "\<dots> = tl (r @ [s])" using Cons.prems(1) Cons by simp
    finally have m: "map (l_next ?h) r = tl (r @ [s])" .
    have "reverse_loop f s (hd r) ?h = Some (swapped (set r) ?h)"
      by (rule Cons.IH[OF m]) (use Cons.prems Cons f in auto)
    moreover have "swapped (set r) ?h = swapped (set (a # r)) h"
      using Cons.prems(3) by (auto simp: swapped_def fun_eq_iff)
    moreover have "l_next h a = hd r" "hd r \<noteq> s" using Cons.prems(1,4) Cons by auto
    ultimately show ?thesis by (simp add: f Let_def)
  qed
qed simp

lemma ring_reverse:
  assumes "ring_of h s xs" "length xs < fuel"
  shows "\<exists>h'. reverse_loop fuel s s h = Some h' \<and> ring_of h' s (rev xs)"
proof -
  have "linked (swapped (set (s # xs)) h) (rev (s # xs @ [s]))" using assms(1) by (intro linked_rev) (auto simp: ring_of_def)
  then have "ring_of (swapped (set (s # xs)) h) s (rev xs)" using assms(1) by (simp add: ring_of_def)
  moreover have "reverse_loop fuel s s h = Some (swapped (set (s # xs)) h)"
    using reverse_loop_swapped[OF linked_nexts, of h "s # xs" s fuel] assms by (auto simp: ring_of_def)
  ultimately show ?thesis by blast
qed

lemma ring_next: "ring_of h s (xs @ n # ys) \<Longrightarrow> l_next h n = hd (ys @ [s])"
  unfolding ring_split using linked_cons[of h n "ys @ [s]"] by auto

lemma ring_begin: "ring_of h s xs \<Longrightarrow> list_begin s h = hd (xs @ [s])"
  by (cases xs) (auto simp: ring_of_def list_begin_def)

lemma ring_remove:
  "ring_of h s (xs @ ys) \<Longrightarrow> length ys < fuel \<Longrightarrow>
   \<exists>h'. remove_loop fuel val v s (hd (ys @ [s])) h = Some h' \<and> ring_of h' s (xs @ filter (\<lambda>x. val x \<noteq> v) ys)"
proof (induction ys arbitrary: xs h fuel)
  case Nil
  then show ?case by (cases fuel) auto
next
  case (Cons y ys)
  obtain f where f: "fuel = Suc f" "length ys < f" using Cons.prems(2) by (cases fuel) auto
  have ne: "y \<noteq> s" using Cons.prems(1) by (auto simp: ring_of_def)
  note nx = ring_next[OF Cons.prems(1)]
  show ?case
  proof (cases "val y = v")
    case True
    from Cons.IH[OF ring_unhook(1)[OF Cons.prems(1)] f(2)] True ne nx show ?thesis by (simp add: f(1))
  next
    case False
    have "ring_of h s ((xs @ [y]) @ ys)" using Cons.prems(1) by simp
    from Cons.IH[OF this f(2)] False ne nx show ?thesis by (simp add: f(1))
  qed
qed

lemma ring_pieces:
  assumes "bs \<noteq> []"
  shows "ring_of h s (xs @ bs @ ys) \<longleftrightarrow>
     (linked h (s # xs) \<and> linked h bs \<and> linked h (ys @ [s])) \<and>
     (l_next h (last (s # xs)) = hd bs \<and> l_prev h (hd bs) = last (s # xs)) \<and>
     (l_next h (last bs) = hd (ys @ [s]) \<and> l_prev h (hd (ys @ [s])) = last bs) \<and> distinct (s # xs @ bs @ ys)"
proof -
  have hd: "hd ((bs @ ys) @ [s]) = hd bs" using assms by simp
  have A: "linked h (s # xs @ [hd bs]) \<longleftrightarrow>
      linked h (s # xs) \<and> l_next h (last (s # xs)) = hd bs \<and> l_prev h (hd bs) = last (s # xs)"
    using linked_snoc[of h "s # xs" "hd bs"] by (simp only: append_Cons list.distinct simp_thms)
  have "linked h (bs @ ys @ [s]) \<longleftrightarrow> linked h (bs @ [hd (ys @ [s])]) \<and> linked h (ys @ [s])"
    using linked_append[of h bs "hd (ys @ [s])" "tl (ys @ [s])"] by (simp only: list.collapse append_is_Nil_conv list.distinct simp_thms)
  then have B: "linked h ((bs @ ys) @ [s]) \<longleftrightarrow>
      (linked h bs \<and> l_next h (last bs) = hd (ys @ [s]) \<and> l_prev h (hd (ys @ [s])) = last bs) \<and> linked h (ys @ [s])"
    using assms by (simp only: linked_snoc append_assoc simp_thms)
  show ?thesis unfolding ring_split hd A B by (simp only: conj_ac)
qed

lemma ring_two: "ring_of h s (xs @ ys) \<longleftrightarrow>
     (linked h (s # xs) \<and> linked h (ys @ [s])) \<and>
     (l_next h (last (s # xs)) = hd (ys @ [s]) \<and> l_prev h (hd (ys @ [s])) = last (s # xs)) \<and> distinct (s # xs @ ys)"
proof -
  have A: "linked h (s # xs @ [hd (ys @ [s])]) \<longleftrightarrow>
      linked h (s # xs) \<and> l_next h (last (s # xs)) = hd (ys @ [s]) \<and> l_prev h (hd (ys @ [s])) = last (s # xs)"
    using linked_snoc[of h "s # xs" "hd (ys @ [s])"] by (simp only: append_Cons list.distinct simp_thms)
  show ?thesis unfolding ring_split A by (simp only: conj_ac)
qed

lemma seam_in:
  "hd (ys @ [s]) \<in> insert s (set ys)" "last (s # xs) \<in> insert s (set xs)" "bs \<noteq> [] \<Longrightarrow> hd bs \<in> set bs" "bs \<noteq> [] \<Longrightarrow> last bs \<in> set bs"
  by (cases ys; auto)+

lemma seam_out:
  assumes "distinct (s # zs)"
  shows "last (s # zs) \<notin> set (butlast (s # zs))"
  using last_butlast[OF assms] by simp

lemma seam_hd: "distinct (s # ys) \<Longrightarrow> hd (ys @ [s]) \<notin> set (tl (ys @ [s]))"
  by (cases ys) auto

lemma ring_transfer:
  assumes "ring_of h s (xs @ ys)" "ring_of h t (as @ bs @ cs)" "distinct (s # xs @ ys @ t # as @ bs @ cs)" "bs \<noteq> []"
  shows "ring_of (transfer (hd (ys @ [s])) (hd bs) (hd (cs @ [t])) h) s (xs @ bs @ ys)"
    and "ring_of (transfer (hd (ys @ [s])) (hd bs) (hd (cs @ [t])) h) t (as @ cs)"
proof -
  define p q f l e u where "p = hd (ys @ [s])" and "q = last (s # xs)" and "f = hd bs" and "l = last bs"
    and "e = hd (cs @ [t])" and "u = last (t # as)"
  let ?h = "transfer p f e h"
  note in1 = seam_in(1)[of ys s, folded p_def] seam_in(2)[of s xs, folded q_def] seam_in(3,4)[OF assms(4), folded f_def l_def]
    seam_in(1)[of cs t, folded e_def] seam_in(2)[of t as, folded u_def]
  have ds: "distinct (s # xs)" "distinct (s # ys)" "distinct bs" "distinct (t # as)" "distinct (t # cs)" using assms(3) by auto
  note out = seam_out[OF ds(1), folded q_def] seam_out[OF ds(4), folded u_def] seam_hd[OF ds(2), folded p_def] seam_hd[OF ds(5), folded e_def]
    last_butlast[OF ds(3) assms(4), folded l_def]
  have f_tl: "f \<notin> set (tl bs)" using ds(3) assms(4) by (cases bs) (auto simp: f_def)
  from assms(1)[unfolded ring_two] have r1: "linked h (s # xs)" "linked h (ys @ [s])" "l_next h q = p" "l_prev h p = q"
    by (simp_all only: p_def q_def)
  from assms(2)[unfolded ring_pieces[OF assms(4)]] have r2: "linked h (t # as)" "linked h bs" "linked h (cs @ [t])"
    "l_next h u = f" "l_prev h f = u" "l_next h l = e" "l_prev h e = l"
    by (simp_all only: f_def l_def e_def u_def)
  have "p \<noteq> e" "f \<noteq> e" "f \<noteq> p" using in1 assms(3) by auto
  then have h: "l_next ?h = (l_next h)(l := p, u := e, q := f)" "l_prev ?h = (l_prev h)(p := l, e := u, f := q)"
    using r1 r2 by (simp_all add: transfer_def Let_def)
  have keep: "linked ?h zs = linked h zs"
    if "set (butlast zs) \<inter> {l, u, q} = {}" "set (tl zs) \<inter> {p, e, f} = {}" for zs
    by (rule linked_cong) (use that in \<open>auto simp: h\<close>)
  have L: "linked ?h (s # xs)" "linked ?h (ys @ [s])" "linked ?h bs" "linked ?h (t # as)" "linked ?h (cs @ [t])"
    using r1(1,2) r2(1-3) in1 out f_tl assms(3)
    by (subst keep; auto dest!: in_set_butlastD list.set_sel(2)[rotated] simp: butlast_append split: if_splits)+
  have J: "l_next ?h q = f" "l_prev ?h f = q" "l_next ?h l = p" "l_prev ?h p = l" "l_next ?h u = e" "l_prev ?h e = u"
    using in1 assms(3) by (auto simp: h)
  have D: "distinct (s # xs @ bs @ ys)" "distinct (t # as @ cs)" using assms(3) by auto
  show "ring_of (transfer (hd (ys @ [s])) (hd bs) (hd (cs @ [t])) h) s (xs @ bs @ ys)"
    unfolding ring_pieces[OF assms(4)] p_def[symmetric] q_def[symmetric] f_def[symmetric] l_def[symmetric] e_def[symmetric]
    using L J D by (simp only: simp_thms)
  show "ring_of (transfer (hd (ys @ [s])) (hd bs) (hd (cs @ [t])) h) t (as @ cs)"
    unfolding ring_two p_def[symmetric] f_def[symmetric] e_def[symmetric] u_def[symmetric]
    using L J D by (simp only: simp_thms)
qed

section \<open>Properties\<close>

text \<open>C29. The list operations of the kernel template library refine operations on lists. On a heap in which
  the nodes \<open>xs @ ys\<close> form a ring with the sentinel: hooking a node in front of a position inserts it
  there, inserting without a position appends it, unhooking a node deletes exactly it and nulls
  its two pointers, and the removal loop ends and deletes exactly the nodes with the given value.\<close>

theorem list_operations_refine:
  assumes "ring_of h s (xs @ ys)" and "n \<notin> set (s # xs @ ys)" and "fuel > length (xs @ ys)"
  shows "ring_of (hook n (hd (ys @ [s])) h) s (xs @ n # ys) \<and>
    ring_of (insert_end s n h) s (xs @ ys @ [n]) \<and>
    (ys \<noteq> [] \<longrightarrow> ring_of (unhook (hd ys) h) s (xs @ tl ys) \<and>
       l_next (unhook (hd ys) h) (hd ys) = 0 \<and> l_prev (unhook (hd ys) h) (hd ys) = 0) \<and>
    (\<exists>h'. remove_loop fuel val v s (list_begin s h) h = Some h' \<and> ring_of h' s (filter (\<lambda>x. val x \<noteq> v) (xs @ ys))) \<and>
    (list_empty s h \<longleftrightarrow> xs @ ys = [])"
proof (intro conjI)
  show "ring_of (hook n (hd (ys @ [s])) h) s (xs @ n # ys)" by (rule ring_hook[OF assms(1,2)])
  show "ring_of (insert_end s n h) s (xs @ ys @ [n])"
    using ring_hook[of h s "xs @ ys" "[]" n] assms by (simp add: insert_end_def)
  show "ys \<noteq> [] \<longrightarrow> ring_of (unhook (hd ys) h) s (xs @ tl ys) \<and>
       l_next (unhook (hd ys) h) (hd ys) = 0 \<and> l_prev (unhook (hd ys) h) (hd ys) = 0"
    using ring_unhook[of h s xs "hd ys" "tl ys"] assms(1) by auto
  show "\<exists>h'. remove_loop fuel val v s (list_begin s h) h = Some h' \<and> ring_of h' s (filter (\<lambda>x. val x \<noteq> v) (xs @ ys))"
    using ring_remove[of h s "[]" "xs @ ys" fuel val v] assms(1,3) by (simp add: ring_begin[OF assms(1)])
  show "list_empty s h \<longleftrightarrow> xs @ ys = []"
    using assms(1) by (cases "xs @ ys") (auto simp: ring_of_def list_empty_def)
qed

definition demo_links :: links where
  "demo_links = \<lparr>l_next = (\<lambda>_. 0)(1 := 2, 2 := 3, 3 := 1, 4 := 5, 5 := 4), l_prev = (\<lambda>_. 0)(1 := 3, 2 := 1, 3 := 2, 4 := 5, 5 := 4)\<rparr>"

lemma demo_rings: "ring_of demo_links 1 [2, 3]" "ring_of demo_links 4 [5]"
  by (simp_all add: ring_of_def demo_links_def)

theorem list_operations_refine_witness:
  "ring_of (hook 6 3 demo_links) 1 [2, 6, 3] \<and> ring_of (unhook 3 demo_links) 1 [2]"
  using list_operations_refine[of demo_links 1 "[2]" "[3]" 6 3 id 0] demo_rings by simp



text \<open>C31. Swapping two lists that are both non-empty breaks them: the sentinels exchange their pointers, but the
  first and last nodes still point back at the old sentinels, so neither sentinel heads a ring any more.\<close>

theorem swap_breaks_rings:
  assumes "ring_of h s (x # xs)" "ring_of h t (y # ys)" "distinct (s # x # xs @ t # y # ys)"
  shows "\<not> ring_of (swap_lists s t h) s zs \<and> \<not> ring_of (swap_lists s t h) t zs"
proof -
  have h: "l_next h s = x" "l_prev h x = s" "l_next h t = y" "l_prev h y = t"
    using assms(1,2) by (simp_all add: ring_of_def)
  have n: "s \<noteq> t" "x \<noteq> s" "x \<noteq> t" "y \<noteq> s" "y \<noteq> t" using assms(3) by auto
  then have h': "l_next (swap_lists s t h) s = y" "l_next (swap_lists s t h) t = x"
    "l_prev (swap_lists s t h) y = t" "l_prev (swap_lists s t h) x = s"
    using h by (simp_all add: swap_lists_def)
  show ?thesis using h' n by (cases zs) (auto simp: ring_of_def)
qed

theorem swap_breaks_rings_witness:
  "ring_of demo_links 1 [2, 3] \<and> ring_of demo_links 4 [5] \<and> \<not> ring_of (swap_lists 1 4 demo_links) 1 [5]"
  using swap_breaks_rings[of demo_links 1 2 "[3]" 4 5 "[]" "[5]"] demo_rings by simp

end
