(* ===== verification/Ktl_Bitset.thy ===== *)
theory Ktl_Bitset
  imports Prelude
begin

text \<open>
  The bit set of the kernel template library (\<^verbatim>\<open>cpp/ktl/bitset.cc\<close>): bits stored most significant first in
  bytes, a count of the clear ones, and a first-fit scan for a run of clear bits. The slab allocator
  keeps the occupancy of its slabs in one. \<open>bits_of\<close> is the abstract content, a list of truth values.
\<close>

section \<open>The bit set\<close>

record bitset =
  bs_heap :: "u8 list option"
  bs_nr_bits :: u32
  bs_nr_avl_bits :: u32
  bs_owns_storage :: bool

definition npos :: u32 where "npos = 0xFFFFFFFF"

definition bits_heap_size :: "u32 \<Rightarrow> u32" where
  "bits_heap_size n = (n + 8 - 1) div 8"

definition new_bitset :: "u32 \<Rightarrow> u8 list option \<Rightarrow> u8 list option \<Rightarrow> bitset" where
  \<comment> \<open>\<open>storage\<close> is the caller's storage, \<open>kmalloc\<close> what an allocation of the needed size returns; the first
    bytes of either are cleared\<close>
  "new_bitset n storage kmalloc =
    (if n = 0 then \<lparr>bs_heap = None, bs_nr_bits = n, bs_nr_avl_bits = 0, bs_owns_storage = False\<rparr>
     else
       (let owns = (storage = None \<and> kmalloc \<noteq> None);
            heap = (if storage = None then kmalloc else storage);
            clear = (\<lambda>h. replicate (unat (bits_heap_size n)) 0 @ drop (unat (bits_heap_size n)) h)
        in \<lparr>bs_heap = map_option clear heap, bs_nr_bits = n, bs_nr_avl_bits = (if heap = None then 0 else n),
            bs_owns_storage = owns\<rparr>))"

definition bit_mask8 :: "nat \<Rightarrow> u8" where
  "bit_mask8 pos = drop_bit (pos mod 8) 0x80"

text \<open>The two update loops over the bits from \<open>pos\<close> on; both count the bits they change.\<close>

fun set_loop :: "nat \<Rightarrow> nat \<Rightarrow> u8 list \<Rightarrow> u32 \<Rightarrow> u8 list \<times> u32" where
  "set_loop 0 pos h ret = (h, ret)"
| "set_loop (Suc n) pos h ret =
    (if h ! (pos div 8) AND bit_mask8 pos = 0
     then set_loop n (pos + 1) (h[pos div 8 := h ! (pos div 8) OR bit_mask8 pos]) (ret + 1)
     else set_loop n (pos + 1) h ret)"

fun reset_loop :: "nat \<Rightarrow> nat \<Rightarrow> u8 list \<Rightarrow> u32 \<Rightarrow> u8 list \<times> u32" where
  "reset_loop 0 pos h ret = (h, ret)"
| "reset_loop (Suc n) pos h ret =
    (if h ! (pos div 8) AND bit_mask8 pos \<noteq> 0
     then reset_loop n (pos + 1) (h[pos div 8 := h ! (pos div 8) AND NOT (bit_mask8 pos)]) (ret + 1)
     else reset_loop n (pos + 1) h ret)"

definition bitset_set :: "u32 \<Rightarrow> u32 \<Rightarrow> bitset \<Rightarrow> u32 \<times> bitset" where
  "bitset_set pos len b =
    (case bs_heap b of
       None \<Rightarrow> (0, b)
     | Some h \<Rightarrow>
       if len = 0 \<or> pos \<ge> bs_nr_bits b then (0, b)
       else
         (let l = (if len > bs_nr_bits b - pos then bs_nr_bits b - pos else len) in
          case set_loop (unat l) (unat pos) h 0 of
            (h', ret) \<Rightarrow> (ret, b\<lparr>bs_heap := Some h', bs_nr_avl_bits := bs_nr_avl_bits b - ret\<rparr>)))"

definition bitset_reset :: "u32 \<Rightarrow> u32 \<Rightarrow> bitset \<Rightarrow> u32 \<times> bitset" where
  "bitset_reset pos len b =
    (case bs_heap b of
       None \<Rightarrow> (0, b)
     | Some h \<Rightarrow>
       if len = 0 \<or> pos \<ge> bs_nr_bits b then (0, b)
       else
         (let l = (if len > bs_nr_bits b - pos then bs_nr_bits b - pos else len) in
          case reset_loop (unat l) (unat pos) h 0 of
            (h', ret) \<Rightarrow> (ret, b\<lparr>bs_heap := Some h', bs_nr_avl_bits := bs_nr_avl_bits b + ret\<rparr>)))"

definition bitset_test :: "u32 \<Rightarrow> bitset \<Rightarrow> bool" where
  "bitset_test pos b =
    (case bs_heap b of
       None \<Rightarrow> False
     | Some h \<Rightarrow> if pos \<ge> bs_nr_bits b then False else bit (h ! (unat pos div 8)) (8 - unat pos mod 8 - 1))"

text \<open>The loop of \<^verbatim>\<open>scan\<close> with \<open>n\<close> positions still to visit from \<open>i\<close> on.\<close>

fun scan_loop :: "u32 \<Rightarrow> bitset \<Rightarrow> nat \<Rightarrow> u32 \<Rightarrow> u32 \<Rightarrow> u32 \<Rightarrow> u32" where
  "scan_loop len b 0 i run_start run_len = npos"
| "scan_loop len b (Suc n) i run_start run_len =
    (if \<not> bitset_test i b then
       (let start = (if run_len = 0 then i else run_start) in
        if run_len + 1 = len then start else scan_loop len b n (i + 1) start (run_len + 1))
     else scan_loop len b n (i + 1) npos 0)"

definition bitset_scan :: "u32 \<Rightarrow> bitset \<Rightarrow> u32" where
  "bitset_scan len b =
    (if bs_heap b = None \<or> len = 0 \<or> len > bs_nr_avl_bits b \<or> len > bs_nr_bits b then npos
     else scan_loop len b (unat (bs_nr_bits b)) 0 npos 0)"

definition set_size :: "bitset \<Rightarrow> u32" where "set_size b = bs_nr_bits b - bs_nr_avl_bits b"

section \<open>Abstract content\<close>

definition heap_bit :: "u8 list \<Rightarrow> nat \<Rightarrow> bool" where
  "heap_bit h i \<longleftrightarrow> bit (h ! (i div 8)) (7 - i mod 8)"

definition bits_of :: "bitset \<Rightarrow> bool list" where
  "bits_of b = (case bs_heap b of None \<Rightarrow> [] | Some h \<Rightarrow> map (heap_bit h) [0..<unat (bs_nr_bits b)])"

definition bitset_ok :: "bitset \<Rightarrow> bool" where
  "bitset_ok b \<longleftrightarrow> (case bs_heap b of
     None \<Rightarrow> bs_nr_avl_bits b = 0
   | Some h \<Rightarrow> unat (bs_nr_bits b) \<le> 8 * length h \<and> unat (bs_nr_avl_bits b) = length (filter Not (bits_of b)))"

lemma bit_mask8_iff: "bit (bit_mask8 pos) j \<longleftrightarrow> j = 7 - pos mod 8"
proof -
  have "(0x80 :: u8) = push_bit 7 1" by simp
  then have b: "bit (0x80 :: u8) i \<longleftrightarrow> i = 7" for i by (simp only: bit_push_bit_iff) (auto simp: bit_1_iff)
  define k where "k = pos mod 8"
  have "k < 8" by (simp add: k_def)
  then show ?thesis unfolding bit_mask8_def bit_drop_bit_eq o_def b k_def[symmetric] by arith
qed

lemma mask_test: "h ! (pos div 8) AND bit_mask8 pos = 0 \<longleftrightarrow> \<not> heap_bit h pos"
proof
  assume "h ! (pos div 8) AND bit_mask8 pos = 0"
  then have "\<not> bit (h ! (pos div 8) AND bit_mask8 pos) (7 - pos mod 8)" by simp
  then show "\<not> heap_bit h pos" by (simp add: bit_and_iff bit_mask8_iff heap_bit_def)
next
  assume "\<not> heap_bit h pos"
  then show "h ! (pos div 8) AND bit_mask8 pos = 0"
    by (intro bit_word_eqI) (auto simp: bit_and_iff bit_mask8_iff heap_bit_def)
qed

lemma same_place: "i div 8 = j div 8 \<Longrightarrow> 7 - i mod 8 = 7 - j mod 8 \<longleftrightarrow> i = (j :: nat)"
proof -
  assume e: "i div 8 = j div 8"
  have "i mod 8 < 8" "j mod 8 < 8" by simp_all
  then have "7 - i mod 8 = 7 - j mod 8 \<longleftrightarrow> i mod 8 = j mod 8" by arith
  also have "\<dots> \<longleftrightarrow> i = j" using e by (metis div_mult_mod_eq)
  finally show ?thesis .
qed

lemma heap_bit_update:
  "pos div 8 < length h \<Longrightarrow>
   heap_bit (h[pos div 8 := w]) i = (if i div 8 = pos div 8 then bit w (7 - i mod 8) else heap_bit h i)"
  by (auto simp: heap_bit_def nth_list_update)

lemma heap_bit_set:
  assumes "pos div 8 < length h"
  shows "heap_bit (h[pos div 8 := h ! (pos div 8) OR bit_mask8 pos]) i \<longleftrightarrow> heap_bit h i \<or> i = pos"
  unfolding heap_bit_update[OF assms] using same_place[of i pos] by (auto simp: bit_or_iff bit_mask8_iff heap_bit_def)

lemma heap_bit_reset:
  assumes "pos div 8 < length h"
  shows "heap_bit (h[pos div 8 := h ! (pos div 8) AND NOT (bit_mask8 pos)]) i \<longleftrightarrow> heap_bit h i \<and> i \<noteq> pos"
proof -
  have "7 - i mod 8 < 8" by simp
  then show ?thesis
    unfolding heap_bit_update[OF assms] using same_place[of i pos]
    by (auto simp: bit_and_iff bit_not_iff bit_mask8_iff heap_bit_def)
qed

lemma range_step: "[pos..<pos + Suc n] = pos # [Suc pos..<Suc pos + n]" "{pos..<pos + Suc n} = insert pos {Suc pos..<Suc pos + n}"
  by (auto simp: upt_conv_Cons)

lemma set_loop_spec:
  "pos + n \<le> 8 * length h \<Longrightarrow> set_loop n pos h ret = (h', ret') \<Longrightarrow>
   length h' = length h \<and> (\<forall>i. heap_bit h' i \<longleftrightarrow> heap_bit h i \<or> i \<in> {pos..<pos + n}) \<and>
   ret' = ret + word_of_nat (length (filter (\<lambda>i. \<not> heap_bit h i) [pos..<pos + n]))"
proof (induction n arbitrary: pos h ret)
  case (Suc n)
  have p: "pos div 8 < length h" "Suc pos + n \<le> 8 * length h" using Suc.prems(1) by linarith+
  show ?case
  proof (cases "heap_bit h pos")
    case True
    then have "set_loop n (Suc pos) h ret = (h', ret')" using Suc.prems(2) by (simp add: mask_test)
    from Suc.IH[OF p(2) this] True show ?thesis unfolding range_step by auto
  next
    case False
    let ?h = "h[pos div 8 := h ! (pos div 8) OR bit_mask8 pos]"
    have l: "set_loop n (Suc pos) ?h (ret + 1) = (h', ret')" using Suc.prems(2) False by (simp add: mask_test)
    have f: "filter (\<lambda>i. \<not> heap_bit ?h i) [Suc pos..<Suc pos + n] = filter (\<lambda>i. \<not> heap_bit h i) [Suc pos..<Suc pos + n]"
      by (rule filter_cong) (auto simp: heap_bit_set[OF p(1)])
    from Suc.IH[OF _ l, unfolded f] p(2) False show ?thesis
      unfolding range_step by (simp add: heap_bit_set[OF p(1)])
  qed
qed simp

lemma reset_loop_spec:
  "pos + n \<le> 8 * length h \<Longrightarrow> reset_loop n pos h ret = (h', ret') \<Longrightarrow>
   length h' = length h \<and> (\<forall>i. heap_bit h' i \<longleftrightarrow> heap_bit h i \<and> i \<notin> {pos..<pos + n}) \<and>
   ret' = ret + word_of_nat (length (filter (heap_bit h) [pos..<pos + n]))"
proof (induction n arbitrary: pos h ret)
  case (Suc n)
  have p: "pos div 8 < length h" "Suc pos + n \<le> 8 * length h" using Suc.prems(1) by linarith+
  show ?case
  proof (cases "heap_bit h pos")
    case False
    then have "reset_loop n (Suc pos) h ret = (h', ret')" using Suc.prems(2) by (simp add: mask_test)
    from Suc.IH[OF p(2) this] False show ?thesis unfolding range_step by auto
  next
    case True
    let ?h = "h[pos div 8 := h ! (pos div 8) AND NOT (bit_mask8 pos)]"
    have l: "reset_loop n (Suc pos) ?h (ret + 1) = (h', ret')" using Suc.prems(2) True by (simp add: mask_test)
    have f: "filter (heap_bit ?h) [Suc pos..<Suc pos + n] = filter (heap_bit h) [Suc pos..<Suc pos + n]"
      by (rule filter_cong) (auto simp: heap_bit_reset[OF p(1)])
    from Suc.IH[OF _ l, unfolded f] p(2) True show ?thesis
      unfolding range_step by (simp add: heap_bit_reset[OF p(1)])
  qed
qed simp

text \<open>The position and length a caller passes, clipped to the bits there are.\<close>

definition clip :: "u32 \<Rightarrow> u32 \<Rightarrow> bitset \<Rightarrow> nat set" where
  "clip pos len b = {unat pos..<min (unat pos + unat len) (unat (bs_nr_bits b))}"

lemma clip_len:
  assumes "pos < bs_nr_bits b"
  shows "unat pos + unat (if len > bs_nr_bits b - pos then bs_nr_bits b - pos else len) = min (unat pos + unat len) (unat (bs_nr_bits b))"
proof -
  have "unat (bs_nr_bits b - pos) = unat (bs_nr_bits b) - unat pos" using assms by (simp add: unat_minus_le)
  then show ?thesis using assms by (auto simp: word_less_nat_alt)
qed

lemma count_split:
  "c \<le> N \<Longrightarrow> a \<le> c \<Longrightarrow> length (filter P [0..<N]) = length (filter P [0..<a]) + length (filter P [a..<c]) + length (filter P [c..<N])"
proof -
  assume "c \<le> N" "a \<le> c"
  then have "[0..<N] = [0..<a] @ [a..<c] @ [c..<N]"
    using upt_add_eq_append[of 0 a "N - a"] upt_add_eq_append[of a c "N - c"] by simp
  then show ?thesis by simp
qed

lemma bits_of_nth: "bs_heap b = Some h \<Longrightarrow> i < unat (bs_nr_bits b) \<Longrightarrow> bits_of b ! i = heap_bit h i"
  by (simp add: bits_of_def)

lemma clear_count: "bs_heap b = Some h \<Longrightarrow> length (filter Not (bits_of b)) = length (filter (\<lambda>i. \<not> heap_bit h i) [0..<unat (bs_nr_bits b)])"
  by (simp add: bits_of_def filter_map o_def)

text \<open>Both updates, against the abstract content.\<close>

definition clear_bits :: "u8 list \<Rightarrow> nat \<Rightarrow> nat" where
  "clear_bits h n = length (filter (\<lambda>i. \<not> heap_bit h i) [0..<n])"

lemma clear_bits_set:
  assumes "\<And>i. heap_bit h' i \<longleftrightarrow> heap_bit h i \<or> i \<in> {a..<c}" "a \<le> c" "c \<le> n"
  shows "clear_bits h n = clear_bits h' n + length (filter (\<lambda>i. \<not> heap_bit h i) [a..<c])"
proof -
  have "filter (\<lambda>i. \<not> heap_bit h' i) [a..<c] = []"
    "filter (\<lambda>i. \<not> heap_bit h' i) [0..<a] = filter (\<lambda>i. \<not> heap_bit h i) [0..<a]"
    "filter (\<lambda>i. \<not> heap_bit h' i) [c..<n] = filter (\<lambda>i. \<not> heap_bit h i) [c..<n]"
    using assms(2) by (auto simp: assms(1) filter_empty_conv intro!: filter_cong)
  then show ?thesis
    using count_split[OF assms(3,2), of "\<lambda>i. \<not> heap_bit h' i"] count_split[OF assms(3,2), of "\<lambda>i. \<not> heap_bit h i"]
    by (simp add: clear_bits_def)
qed

lemma clear_bits_reset:
  assumes "\<And>i. heap_bit h' i \<longleftrightarrow> heap_bit h i \<and> i \<notin> {a..<c}" "a \<le> c" "c \<le> n"
  shows "clear_bits h' n = clear_bits h n + length (filter (heap_bit h) [a..<c])"
proof -
  have "filter (\<lambda>i. \<not> heap_bit h' i) [a..<c] = [a..<c]"
    "filter (\<lambda>i. \<not> heap_bit h' i) [0..<a] = filter (\<lambda>i. \<not> heap_bit h i) [0..<a]"
    "filter (\<lambda>i. \<not> heap_bit h' i) [c..<n] = filter (\<lambda>i. \<not> heap_bit h i) [c..<n]"
    using assms(2) by (auto simp: assms(1) filter_id_conv intro!: filter_cong)
  moreover have "length [a..<c] = length (filter (heap_bit h) [a..<c]) + length (filter (\<lambda>i. \<not> heap_bit h i) [a..<c])"
    by (rule sum_length_filter_compl[symmetric])
  ultimately show ?thesis
    using count_split[OF assms(3,2), of "\<lambda>i. \<not> heap_bit h' i"] count_split[OF assms(3,2), of "\<lambda>i. \<not> heap_bit h i"]
    by (simp add: clear_bits_def)
qed

lemma clear_bits_bound: "clear_bits h (unat (n :: u32)) \<le> unat n"
  unfolding clear_bits_def by (metis diff_zero length_filter_le length_upt)

lemma bitset_ok_clear: "bs_heap b = Some h \<Longrightarrow>
   bitset_ok b \<longleftrightarrow> unat (bs_nr_bits b) \<le> 8 * length h \<and> unat (bs_nr_avl_bits b) = clear_bits h (unat (bs_nr_bits b))"
  using clear_count[of b h] by (simp add: bitset_ok_def clear_bits_def)

lemma range_card:
  assumes "bs_heap b = Some h" "c \<le> unat (bs_nr_bits b)"
  shows "card {i \<in> {a..<c}. P (bits_of b ! i)} = length (filter (\<lambda>i. P (heap_bit h i)) [a..<c])"
proof -
  have "{i \<in> {a..<c}. P (bits_of b ! i)} = set (filter (\<lambda>i. P (heap_bit h i)) [a..<c])"
    using assms(2) by (auto simp: bits_of_nth[OF assms(1)])
  then show ?thesis by (simp only: distinct_card distinct_filter distinct_upt)
qed

lemma bits_of_range:
  assumes "bs_heap b' = Some h'" "bs_nr_bits b' = bs_nr_bits b" "bs_heap b = Some h" "i < unat (bs_nr_bits b)"
  shows "bits_of b' ! i = heap_bit h' i" "bits_of b ! i = heap_bit h i"
  using assms bits_of_nth[of b' h' i] bits_of_nth[of b h i] by simp_all

lemma bitset_set_ok:
  assumes ok: "bitset_ok b" and h: "bs_heap b = Some h" and res: "bitset_set pos len b = (r, b')"
  shows "bitset_ok b' \<and> bs_nr_bits b' = bs_nr_bits b \<and> bs_heap b' \<noteq> None \<and>
    (\<forall>i < unat (bs_nr_bits b). bits_of b' ! i \<longleftrightarrow> bits_of b ! i \<or> i \<in> clip pos len b) \<and>
    unat r = card {i \<in> clip pos len b. \<not> bits_of b ! i}"
proof (cases "len = 0 \<or> bs_nr_bits b \<le> pos")
  case True
  then have "clip pos len b = {}" by (auto simp: clip_def word_le_nat_alt)
  then show ?thesis using True res ok h by (auto simp: bitset_set_def)
next
  case False
  let ?N = "unat (bs_nr_bits b)"
  define c where "c = min (unat pos + unat len) ?N"
  define n where "n = unat (if len > bs_nr_bits b - pos then bs_nr_bits b - pos else len)"
  have pn: "unat pos + n = c" using clip_len[of pos b len] False by (simp add: n_def c_def not_le)
  have cl: "clip pos len b = {unat pos..<c}" by (simp add: clip_def c_def)
  obtain h' ret where loop: "set_loop n (unat pos) h 0 = (h', ret)" by force
  have b': "r = ret" "b' = b\<lparr>bs_heap := Some h', bs_nr_avl_bits := bs_nr_avl_bits b - ret\<rparr>"
    using res False loop by (auto simp: bitset_set_def h n_def Let_def)
  have fit: "unat pos + n \<le> 8 * length h" "c \<le> ?N" "unat pos \<le> c"
    using ok pn False by (auto simp: bitset_ok_clear[OF h] c_def word_le_nat_alt)
  note spec = set_loop_spec[OF fit(1) loop, unfolded pn]
  define k where "k = length (filter (\<lambda>i. \<not> heap_bit h i) [unat pos..<c])"
  have tot: "clear_bits h ?N = clear_bits h' ?N + k"
    unfolding k_def using spec fit by (intro clear_bits_set) auto
  have "k < 4294967296" using tot clear_bits_bound[of h "bs_nr_bits b"] u32_bound[of "bs_nr_bits b"] by linarith
  then have ret: "unat ret = k" using spec by (simp add: k_def unat_of_nat)
  have "ret \<le> bs_nr_avl_bits b" using ret tot ok by (simp add: word_le_nat_alt bitset_ok_clear[OF h])
  then have "unat (bs_nr_avl_bits b - ret) = clear_bits h' ?N"
    using tot ret ok by (simp add: unat_minus_le bitset_ok_clear[OF h])
  then have "bitset_ok b'" using spec fit ok bitset_ok_clear[OF h] bitset_ok_clear[of b' h'] by (simp add: b')
  moreover have "bits_of b' ! i \<longleftrightarrow> bits_of b ! i \<or> i \<in> clip pos len b" if "i < ?N" for i
    using bits_of_range[of b' h' b h i] that spec h by (simp add: b' cl)
  moreover have "unat r = card {i \<in> clip pos len b. \<not> bits_of b ! i}"
    using range_card[OF h fit(2), of "unat pos" Not] ret by (simp add: b' cl k_def)
  ultimately show ?thesis by (simp add: b')
qed

lemma bitset_reset_ok:
  assumes ok: "bitset_ok b" and h: "bs_heap b = Some h" and res: "bitset_reset pos len b = (r, b')"
  shows "bitset_ok b' \<and> bs_nr_bits b' = bs_nr_bits b \<and> bs_heap b' \<noteq> None \<and>
    (\<forall>i < unat (bs_nr_bits b). bits_of b' ! i \<longleftrightarrow> bits_of b ! i \<and> i \<notin> clip pos len b) \<and>
    unat r = card {i \<in> clip pos len b. bits_of b ! i}"
proof (cases "len = 0 \<or> bs_nr_bits b \<le> pos")
  case True
  then have "clip pos len b = {}" by (auto simp: clip_def word_le_nat_alt)
  then show ?thesis using True res ok h by (auto simp: bitset_reset_def)
next
  case False
  let ?N = "unat (bs_nr_bits b)"
  define c where "c = min (unat pos + unat len) ?N"
  define n where "n = unat (if len > bs_nr_bits b - pos then bs_nr_bits b - pos else len)"
  have pn: "unat pos + n = c" using clip_len[of pos b len] False by (simp add: n_def c_def not_le)
  have cl: "clip pos len b = {unat pos..<c}" by (simp add: clip_def c_def)
  obtain h' ret where loop: "reset_loop n (unat pos) h 0 = (h', ret)" by force
  have b': "r = ret" "b' = b\<lparr>bs_heap := Some h', bs_nr_avl_bits := bs_nr_avl_bits b + ret\<rparr>"
    using res False loop by (auto simp: bitset_reset_def h n_def Let_def)
  have fit: "unat pos + n \<le> 8 * length h" "c \<le> ?N" "unat pos \<le> c"
    using ok pn False by (auto simp: bitset_ok_clear[OF h] c_def word_le_nat_alt)
  note spec = reset_loop_spec[OF fit(1) loop, unfolded pn]
  define k where "k = length (filter (heap_bit h) [unat pos..<c])"
  have tot: "clear_bits h' ?N = clear_bits h ?N + k"
    unfolding k_def using spec fit by (intro clear_bits_reset) auto
  have "clear_bits h ?N + k < 4294967296"
    using tot clear_bits_bound[of h' "bs_nr_bits b"] u32_bound[of "bs_nr_bits b"] by linarith
  then have ret: "unat ret = k" "unat (bs_nr_avl_bits b) + k < 4294967296"
    using spec ok by (simp_all add: k_def unat_of_nat bitset_ok_clear[OF h])
  then have "unat (bs_nr_avl_bits b + ret) = clear_bits h' ?N"
    using tot ok by (subst unat_plus_if_no_wrap) (simp_all add: bitset_ok_clear[OF h])
  then have "bitset_ok b'" using spec fit ok bitset_ok_clear[OF h] bitset_ok_clear[of b' h'] by (simp add: b')
  moreover have "bits_of b' ! i \<longleftrightarrow> bits_of b ! i \<and> i \<notin> clip pos len b" if "i < ?N" for i
    using bits_of_range[of b' h' b h i] that spec h by (simp add: b' cl)
  moreover have "unat r = card {i \<in> clip pos len b. bits_of b ! i}"
    using range_card[OF h fit(2), of "unat pos" "\<lambda>x. x"] ret by (simp add: b' cl k_def)
  ultimately show ?thesis by (simp add: b')
qed

section \<open>The scan\<close>

definition clear_run :: "bool list \<Rightarrow> nat \<Rightarrow> nat \<Rightarrow> bool" where
  "clear_run xs len s \<longleftrightarrow> s + len \<le> length xs \<and> (\<forall>i. s \<le> i \<and> i < s + len \<longrightarrow> \<not> xs ! i)"

lemma bitset_test_bits:
  "bs_heap b = Some h \<Longrightarrow> bitset_test i b \<longleftrightarrow> unat i < unat (bs_nr_bits b) \<and> bits_of b ! unat i"
  by (auto simp: bitset_test_def bits_of_def heap_bit_def word_le_nat_alt)

lemma clear_run_count: "clear_run xs len s \<Longrightarrow> len \<le> length (filter Not xs)"
proof -
  assume r: "clear_run xs len s"
  have "xs = take s xs @ take len (drop s xs) @ drop (s + len) xs"
    by (metis append_take_drop_id drop_drop add.commute)
  then have "length (filter Not xs) \<ge> length (filter Not (take len (drop s xs)))"
    by (metis filter_append le_add1 le_add2 length_append order_trans)
  moreover have "filter Not (take len (drop s xs)) = take len (drop s xs)"
    using r by (auto simp: filter_id_conv clear_run_def in_set_conv_nth)
  moreover have "length (take len (drop s xs)) = len" using r by (auto simp: clear_run_def)
  ultimately show ?thesis by simp
qed

text \<open>What the scan answers: the first position where a run of \<open>len\<close> clear bits starts.\<close>

definition scan_answer :: "bool list \<Rightarrow> nat \<Rightarrow> u32 \<Rightarrow> bool" where
  "scan_answer xs len r \<longleftrightarrow>
     (r = npos \<and> (\<nexists>s. clear_run xs len s)) \<or> (clear_run xs len (unat r) \<and> (\<forall>s. clear_run xs len s \<longrightarrow> unat r \<le> s))"

lemma scan_loop_spec:
  assumes h: "bs_heap b = Some h"
  shows "unat i + n = unat (bs_nr_bits b) \<Longrightarrow> unat rl < unat len \<Longrightarrow> unat rl \<le> unat i \<Longrightarrow>
    \<forall>k. unat i - unat rl \<le> k \<and> k < unat i \<longrightarrow> \<not> bits_of b ! k \<Longrightarrow> rl \<noteq> 0 \<longrightarrow> unat rs = unat i - unat rl \<Longrightarrow>
    \<forall>s. clear_run (bits_of b) (unat len) s \<longrightarrow> unat i - unat rl \<le> s \<Longrightarrow>
    scan_answer (bits_of b) (unat len) (scan_loop len b n i rs rl)"
proof (induction n arbitrary: i rs rl)
  case 0
  have "length (bits_of b) = unat i" using 0(1) h by (simp add: bits_of_def)
  then have "\<nexists>s. clear_run (bits_of b) (unat len) s" using 0 by (force simp: clear_run_def)
  then show ?case by (simp add: scan_answer_def)
next
  case (Suc n)
  have i1: "unat (i + 1) = Suc (unat i)"
    by (rule unat_suc32[of i "bs_nr_bits b"]) (use Suc.prems(1) in simp)
  have rl1: "unat (rl + 1) = Suc (unat rl)"
    by (rule unat_suc32[OF Suc.prems(2)])
  have len: "length (bits_of b) = unat (bs_nr_bits b)" using h by (simp add: bits_of_def)
  define start where "start = (if rl = 0 then i else rs)"
  have st: "unat start = unat i - unat rl" using Suc.prems(5) by (simp add: start_def)
  show ?case
  proof (cases "bitset_test i b")
    case True
    then have set: "bits_of b ! unat i" by (simp add: bitset_test_bits[OF h])
    have "Suc (unat i) \<le> s" if "clear_run (bits_of b) (unat len) s" for s
    proof (rule ccontr)
      assume "\<not> Suc (unat i) \<le> s"
      with that Suc.prems(2,6) have "s \<le> unat i" "unat i < s + unat len" by auto
      with that set show False by (auto simp: clear_run_def)
    qed
    moreover have "\<forall>k. unat (i + 1) - unat (0 :: u32) \<le> k \<and> k < unat (i + 1) \<longrightarrow> \<not> bits_of b ! k" by auto
    ultimately show ?thesis using True Suc.IH[of "i + 1" 0 npos] Suc.prems(1,2) by (simp add: i1)
  next
    case False
    then have clr: "\<not> bits_of b ! unat i" using Suc.prems(1) by (simp add: bitset_test_bits[OF h])
    have run: "\<not> bits_of b ! k" if "unat i - unat rl \<le> k" "k < Suc (unat i)" for k
      using that clr Suc.prems(4) by (cases "k = unat i") auto
    show ?thesis
    proof (cases "rl + 1 = len")
      case True
      then have l: "unat len = Suc (unat rl)" using rl1 by simp
      have "clear_run (bits_of b) (unat len) (unat start)"
        using run Suc.prems(1,3) len by (auto simp: clear_run_def st l)
      then show ?thesis using True False Suc.prems(6) st by (simp add: scan_answer_def start_def[symmetric])
    next
      case ne: False
      have "unat (rl + 1) < unat len" using Suc.prems(2) ne rl1 by (metis Suc_lessI word_unat_eq_iff)
      moreover have "scan_loop len b (Suc n) i rs rl = scan_loop len b n (i + 1) start (rl + 1)"
        using False ne by (simp add: start_def)
      ultimately show ?thesis
        using Suc.IH[of "i + 1" "rl + 1" start] Suc.prems run st by (simp add: i1 rl1)
    qed
  qed
qed

section \<open>Properties\<close>

text \<open>C32. The bit set refines a list of truth values with an exact count. Setting or clearing a range that may
  run past the end changes exactly the bits of the range that exist, returns how many of them
  changed, and keeps the number of clear bits exact; so do a fresh bit set and a failed allocation.\<close>

theorem bitset_updates_refine:
  assumes "bitset_ok b" "bs_heap b = Some h" "bitset_set pos len b = (r, b1)" "bitset_reset pos len b = (r', b2)"
  shows "bitset_ok b1 \<and> bitset_ok b2 \<and> length (bits_of b1) = length (bits_of b) \<and> length (bits_of b2) = length (bits_of b) \<and>
    (\<forall>i < length (bits_of b). bits_of b1 ! i \<longleftrightarrow> bits_of b ! i \<or> (unat pos \<le> i \<and> i < unat pos + unat len)) \<and>
    (\<forall>i < length (bits_of b). bits_of b2 ! i \<longleftrightarrow> bits_of b ! i \<and> \<not> (unat pos \<le> i \<and> i < unat pos + unat len)) \<and>
    unat r = card {i. i < length (bits_of b) \<and> bits_of b1 ! i \<noteq> bits_of b ! i} \<and>
    unat r' = card {i. i < length (bits_of b) \<and> bits_of b2 ! i \<noteq> bits_of b ! i} \<and>
    unat (bs_nr_avl_bits b1) = length (filter Not (bits_of b1)) \<and> unat (bs_nr_avl_bits b2) = length (filter Not (bits_of b2))"
proof -
  note S = bitset_set_ok[OF assms(1-3)] and R = bitset_reset_ok[OF assms(1,2,4)]
  have l: "length (bits_of b) = unat (bs_nr_bits b)" "length (bits_of b1) = unat (bs_nr_bits b)" "length (bits_of b2) = unat (bs_nr_bits b)"
    using S R assms(2) by (auto simp: bits_of_def)
  have "{i. i < length (bits_of b) \<and> bits_of b1 ! i \<noteq> bits_of b ! i} = {i \<in> clip pos len b. \<not> bits_of b ! i}"
    "{i. i < length (bits_of b) \<and> bits_of b2 ! i \<noteq> bits_of b ! i} = {i \<in> clip pos len b. bits_of b ! i}"
    using S R l by (auto simp: clip_def)
  moreover have "unat (bs_nr_avl_bits b1) = length (filter Not (bits_of b1))" "unat (bs_nr_avl_bits b2) = length (filter Not (bits_of b2))"
    using S R by (auto simp: bitset_ok_def split: option.splits)
  ultimately show ?thesis using S R l by (simp add: clip_def)
qed

definition demo_bits :: bitset where
  "demo_bits = \<lparr>bs_heap = Some [0x80, 0], bs_nr_bits = 12, bs_nr_avl_bits = 11, bs_owns_storage = False\<rparr>"

lemma demo_bits_ok: "bitset_ok demo_bits"
  by (simp add: bitset_ok_def demo_bits_def bits_of_def heap_bit_def upt_rec)

theorem bitset_updates_refine_witness:
  "fst (bitset_set 0 3 demo_bits) = 2 \<and> bitset_ok (snd (bitset_set 0 3 demo_bits))"
proof -
  have h: "bs_heap demo_bits = Some [0x80, 0]" by (simp add: demo_bits_def)
  obtain r b1 r' b2 where rs: "bitset_set 0 3 demo_bits = (r, b1)" "bitset_reset 0 3 demo_bits = (r', b2)" by fastforce
  have "fst (bitset_set 0 3 demo_bits) = 2" by code_simp
  then show ?thesis using bitset_updates_refine[OF demo_bits_ok h rs] rs by simp
qed

lemma bitset_scan_answer:
  assumes "bitset_ok b" "bs_heap b = Some h" "len > 0"
  shows "scan_answer (bits_of b) (unat len) (bitset_scan len b)"
    "\<not> clear_run (bits_of b) (unat len) (unat npos)"
proof -
  have len: "length (bits_of b) = unat (bs_nr_bits b)" using assms(2) by (simp add: bits_of_def)
  show "scan_answer (bits_of b) (unat len) (bitset_scan len b)"
  proof (cases "len > bs_nr_avl_bits b \<or> len > bs_nr_bits b")
    case True
    have "\<not> clear_run (bits_of b) (unat len) s" for s
    proof
      assume r: "clear_run (bits_of b) (unat len) s"
      then have "s + unat len \<le> unat (bs_nr_bits b)" by (simp add: clear_run_def len)
      with True clear_run_count[OF r] assms(1,2) show False by (auto simp: bitset_ok_def word_less_nat_alt)
    qed
    then show ?thesis using True by (auto simp: scan_answer_def bitset_scan_def)
  next
    case False
    then have "bitset_scan len b = scan_loop len b (unat (bs_nr_bits b)) 0 npos 0"
      using assms(2,3) by (auto simp: bitset_scan_def)
    moreover have "unat len > 0" using assms(3) by (simp add: word_less_nat_alt)
    ultimately show ?thesis using scan_loop_spec[OF assms(2), of 0 "unat (bs_nr_bits b)" 0 len npos] by simp
  qed
  show "\<not> clear_run (bits_of b) (unat len) (unat npos)"
  proof -
    have "unat npos = 4294967295" by (simp add: npos_def)
    moreover have "unat len > 0" using assms(3) by (simp add: word_less_nat_alt)
    ultimately have "unat (bs_nr_bits b) < unat npos + unat len" using u32_bound[of "bs_nr_bits b"] by linarith
    then show ?thesis by (simp add: clear_run_def len)
  qed
qed

text \<open>C33. The scan is first fit: it returns the lowest position at which a run of the requested length is
  clear, and the no-position value exactly if there is none.\<close>

theorem bitset_scan_first_fit:
  assumes "bitset_ok b" "bs_heap b = Some h" "len > 0"
  shows "((\<exists>s. clear_run (bits_of b) (unat len) s) \<longrightarrow>
      clear_run (bits_of b) (unat len) (unat (bitset_scan len b)) \<and>
      (\<forall>s. clear_run (bits_of b) (unat len) s \<longrightarrow> unat (bitset_scan len b) \<le> s)) \<and>
    ((\<nexists>s. clear_run (bits_of b) (unat len) s) \<longleftrightarrow> bitset_scan len b = npos)"
  using bitset_scan_answer[OF assms] by (auto simp: scan_answer_def)

theorem bitset_scan_first_fit_witness:
  "bitset_scan 4 demo_bits = 1 \<and> clear_run (bits_of demo_bits) 4 1 \<and> \<not> clear_run (bits_of demo_bits) 4 0"
proof -
  have r: "bitset_scan 4 demo_bits = 1" by code_simp
  have h: "bs_heap demo_bits = Some [0x80, 0]" by (simp add: demo_bits_def)
  have "(0 :: u32) < 4" "bitset_scan 4 demo_bits \<noteq> npos" by (simp_all add: r npos_def)
  from bitset_scan_first_fit[OF demo_bits_ok h this(1)] this(2) r show ?thesis by (auto dest: spec[of _ 0])
qed

end
