(* ===== verification/Ktl_Buffer.thy ===== *)
theory Ktl_Buffer
  imports Ring
begin

text \<open>
  The byte ring buffer of the kernel template library (\<^verbatim>\<open>cpp/ktl/buffer.cc\<close>): storage of any capacity, a read
  and a write index and a size. It is an instance of the queue interface of theory Ring, for every
  capacity.
\<close>

section \<open>The buffer\<close>

record buffer =
  bf_cap :: u32
  bf_size :: u32
  bf_head :: u32
  bf_tail :: u32
  bf_data :: "u8 list option"
  bf_owns_storage :: bool

definition new_buffer :: "u32 \<Rightarrow> u8 list option \<Rightarrow> u8 list option \<Rightarrow> buffer" where
  \<comment> \<open>\<open>storage\<close> is the caller's storage, \<open>kmalloc\<close> what an allocation of the capacity returns\<close>
  "new_buffer cap storage kmalloc =
     \<lparr>bf_cap = cap, bf_size = 0, bf_head = 0, bf_tail = 0,
      bf_data = (if cap = 0 then storage else if storage = None then kmalloc else storage),
      bf_owns_storage = (cap \<noteq> 0 \<and> storage = None \<and> kmalloc \<noteq> None)\<rparr>"

definition buffer_clear :: "buffer \<Rightarrow> buffer" where
  "buffer_clear b = b\<lparr>bf_head := 0, bf_tail := 0, bf_size := 0\<rparr>"

definition buffer_valid :: "buffer \<Rightarrow> bool" where
  "buffer_valid b \<longleftrightarrow> bf_data b \<noteq> None \<and> bf_cap b \<noteq> 0"

text \<open>One byte out and one byte in, the bodies of the loops below.\<close>

definition buffer_get :: "buffer \<Rightarrow> u8 \<times> buffer" where
  "buffer_get b =
     (the (bf_data b) ! unat (bf_head b), b\<lparr>bf_head := (bf_head b + 1) mod bf_cap b, bf_size := bf_size b - 1\<rparr>)"

definition buffer_put :: "u8 \<Rightarrow> buffer \<Rightarrow> buffer" where
  "buffer_put x b =
     b\<lparr>bf_data := Some ((the (bf_data b))[unat (bf_tail b) := x]), bf_tail := (bf_tail b + 1) mod bf_cap b,
       bf_size := bf_size b + 1\<rparr>"

definition buffer_read1 :: "buffer \<Rightarrow> u8 \<times> buffer" where
  "buffer_read1 b = (if \<not> buffer_valid b \<or> bf_size b = 0 then (0, b) else buffer_get b)"

fun buffer_read_loop :: "nat \<Rightarrow> buffer \<Rightarrow> u8 list \<times> buffer" where
  "buffer_read_loop 0 b = ([], b)"
| "buffer_read_loop (Suc n) b =
    (if bf_size b > 0 then (let (x, b1) = buffer_get b; (xs, b2) = buffer_read_loop n b1 in (x # xs, b2)) else ([], b))"

definition buffer_read :: "bool \<Rightarrow> u32 \<Rightarrow> buffer \<Rightarrow> u8 list \<times> buffer" where
  \<comment> \<open>the bytes stored through the caller's pointer; their number is the return value\<close>
  "buffer_read dst_null len b = (if \<not> buffer_valid b \<or> dst_null \<or> len = 0 then ([], b) else buffer_read_loop (unat len) b)"

definition buffer_write1 :: "u8 \<Rightarrow> buffer \<Rightarrow> u32 \<times> buffer" where
  "buffer_write1 x b = (if \<not> buffer_valid b \<or> bf_size b \<ge> bf_cap b then (0, b) else (1, buffer_put x b))"

fun buffer_write_loop :: "u8 list \<Rightarrow> u32 \<Rightarrow> buffer \<Rightarrow> u32 \<times> buffer" where
  "buffer_write_loop [] ret b = (ret, b)"
| "buffer_write_loop (x # xs) ret b =
    (if bf_size b < bf_cap b then buffer_write_loop xs (ret + 1) (buffer_put x b) else (ret, b))"

definition buffer_write :: "u8 list option \<Rightarrow> buffer \<Rightarrow> u32 \<times> buffer" where
  \<comment> \<open>\<open>None\<close> is a null pointer\<close>
  "buffer_write data b =
    (case data of
       None \<Rightarrow> (0, b)
     | Some xs \<Rightarrow> if \<not> buffer_valid b \<or> xs = [] then (0, b) else buffer_write_loop xs 0 b)"

section \<open>An instance of the queue interface\<close>

definition buffer_inv :: "u32 \<Rightarrow> buffer \<Rightarrow> bool" where
  "buffer_inv cap b \<longleftrightarrow> bf_cap b = cap \<and> cap \<noteq> 0 \<and> bf_size b \<le> cap \<and> bf_head b < cap \<and>
     (\<exists>d. bf_data b = Some d \<and> length d = unat cap) \<and>
     unat (bf_tail b) = (unat (bf_head b) + unat (bf_size b)) mod unat cap"

definition buffer_contents :: "buffer \<Rightarrow> u8 list" where
  "buffer_contents b = ring_list (the (bf_data b)) (unat (bf_head b)) (unat (bf_size b))"

lemma unat_ring_next: "x < (c :: u32) \<Longrightarrow> unat ((x + 1) mod c) = Suc (unat x) mod unat c"
proof -
  assume "x < c"
  then have "unat (x + 1) = Suc (unat x)" using unat_suc32[of x c] by (simp add: word_less_nat_alt)
  then show ?thesis by (simp add: unat_mod)
qed

lemma unat_size_put: "x < (c :: u32) \<Longrightarrow> unat (x + 1) = Suc (unat x)"
  using unat_suc32[of x c] by (simp add: word_less_nat_alt)

interpretation buffer_ring: ring_buffer "unat cap" "buffer_inv cap" buffer_contents buffer_put buffer_get for cap
proof (unfold_locales)
  fix b :: buffer and x
  assume i: "buffer_inv cap b"
  then obtain d where d: "bf_data b = Some d" "length d = unat cap" by (auto simp: buffer_inv_def)
  have c: "0 < unat cap" using i by (simp add: buffer_inv_def unat_gt_0)
  show "length (buffer_contents b) \<le> unat cap" using i by (simp add: buffer_inv_def buffer_contents_def word_le_nat_alt)
  { assume "length (buffer_contents b) < unat cap"
    then have room: "unat (bf_size b) < length d" "bf_size b < cap" by (simp_all add: buffer_contents_def d word_less_nat_alt)
    have tail: "bf_tail b < cap" using i c by (simp add: buffer_inv_def word_less_nat_alt)
    from ring_list_push[OF room(1), of "unat (bf_head b)" x] i d room(2)
    show "buffer_contents (buffer_put x b) = buffer_contents b @ [x]"
      by (simp add: buffer_contents_def buffer_put_def buffer_inv_def unat_size_put)
    show "buffer_inv cap (buffer_put x b)"
      using i d room tail by (auto simp: buffer_inv_def buffer_put_def unat_ring_next unat_size_put mod_Suc_eq word_le_nat_alt) }
  { assume "buffer_contents b \<noteq> []"
    then have s: "0 < unat (bf_size b)" by (simp add: buffer_contents_def)
    then obtain n where n: "unat (bf_size b) = Suc n" using gr0_conv_Suc by blast
    have m: "unat (bf_size b - 1) = n" using n by (simp add: unat_minus_one flip: unat_gt_0)
    have h: "bf_head b < cap" "bf_cap b = cap" using i by (simp_all add: buffer_inv_def)
    have nx: "unat ((bf_head b + 1) mod cap) = Suc (unat (bf_head b)) mod unat cap" by (rule unat_ring_next[OF h(1)])
    show "buffer_contents b = fst (buffer_get b) # buffer_contents (snd (buffer_get b))"
      using n m nx h d ring_list_pop[of "unat (bf_head b)" d n]
      by (simp add: buffer_contents_def buffer_get_def word_less_nat_alt)
    show "buffer_inv cap (snd (buffer_get b))"
      using i n m nx h d c by (auto simp: buffer_inv_def buffer_get_def word_le_nat_alt word_less_nat_alt mod_simps) }
qed

lemma buffer_nonempty: "bf_size b > 0 \<longleftrightarrow> buffer_contents b \<noteq> []"
  by (simp add: buffer_contents_def word_gt_0 unat_eq_0)

lemma buffer_room: "buffer_inv cap b \<Longrightarrow> bf_size b < bf_cap b \<longleftrightarrow> length (buffer_contents b) < unat cap"
  by (simp add: buffer_inv_def buffer_contents_def word_less_nat_alt)

lemma buffer_read_loop_drain:
  "buffer_inv cap b \<Longrightarrow> buffer_read_loop n b = drain buffer_get (min n (length (buffer_contents b))) b"
proof (induction n arbitrary: b)
  case (Suc n)
  show ?case
  proof (cases "buffer_contents b = []")
    case False
    let ?b1 = "snd (buffer_get b)"
    have "length (buffer_contents b) = Suc (length (buffer_contents ?b1))"
      using arg_cong[OF buffer_ring.contents_get[OF Suc.prems False], of length] by simp
    moreover have "buffer_read_loop n ?b1 = drain buffer_get (min n (length (buffer_contents ?b1))) ?b1"
      by (rule Suc.IH[OF buffer_ring.invar_get[OF Suc.prems False]])
    ultimately show ?thesis using False by (simp add: buffer_nonempty Let_def case_prod_beta)
  qed (simp add: buffer_nonempty)
qed simp

lemma buffer_write_loop_fill:
  "buffer_inv cap b \<Longrightarrow> buffer_write_loop xs ret b =
     (let ys = take (unat cap - length (buffer_contents b)) xs in (ret + word_of_nat (length ys), fill buffer_put ys b))"
proof (induction xs arbitrary: ret b)
  case (Cons x xs)
  show ?case
  proof (cases "length (buffer_contents b) < unat cap")
    case True
    obtain k where k: "unat cap - length (buffer_contents b) = Suc k" using True by (metis Suc_diff_Suc)
    have "unat cap - length (buffer_contents (buffer_put x b)) = k"
      using k buffer_ring.contents_put[OF Cons.prems True] by simp
    with Cons.IH[OF buffer_ring.invar_put[OF Cons.prems True]] True k show ?thesis
      by (simp add: buffer_room[OF Cons.prems] Let_def)
  qed (simp add: buffer_room[OF Cons.prems] Let_def)
qed (simp add: Let_def)

section \<open>Properties\<close>

text \<open>C34. A ring buffer of any capacity is a bounded queue of bytes. A write stores the longest prefix that fits,
  behind what is there, and returns its length; a read returns the oldest bytes, as many as asked for and
  present, in order, and leaves the rest.\<close>

theorem buffer_is_queue:
  assumes "buffer_inv cap b" "xs \<noteq> []" "len > 0"
    and "buffer_write (Some xs) b = (w, b1)" and "buffer_read False len b1 = (out, b2)"
  shows "buffer_contents b1 = buffer_contents b @ take (unat cap - length (buffer_contents b)) xs \<and>
    unat w = length (buffer_contents b1) - length (buffer_contents b) \<and> buffer_inv cap b1 \<and>
    buffer_contents b1 = out @ buffer_contents b2 \<and> length out = min (unat len) (length (buffer_contents b1)) \<and> buffer_inv cap b2"
proof -
  have v: "buffer_valid b" using assms(1) by (auto simp: buffer_valid_def buffer_inv_def)
  let ?ys = "take (unat cap - length (buffer_contents b)) xs"
  have w: "w = word_of_nat (length ?ys)" "b1 = fill buffer_put ?ys b"
    using assms(4) v assms(2) by (simp_all add: buffer_write_def buffer_write_loop_fill[OF assms(1)] Let_def)
  have "length (buffer_contents b) + length ?ys \<le> unat cap" using buffer_ring.contents_bound[OF assms(1)] by simp
  from buffer_ring.fill_spec[OF assms(1) this] w(2)
  have b1: "buffer_contents b1 = buffer_contents b @ ?ys" "buffer_inv cap b1" by simp_all
  have "length ?ys \<le> unat cap" by simp
  then have "length ?ys < 4294967296" using u32_bound[of cap] by linarith
  then have uw: "unat w = length ?ys" by (simp add: w(1) unat_of_nat)
  have v1: "buffer_valid b1" using b1(2) by (auto simp: buffer_valid_def buffer_inv_def)
  let ?n = "min (unat len) (length (buffer_contents b1))"
  have eq: "(out, b2) = drain buffer_get ?n b1"
    using assms(3,5) v1 by (simp add: buffer_read_def buffer_read_loop_drain[OF b1(2)] word_gt_0)
  have "out = take ?n (buffer_contents b1)" "buffer_contents b2 = drop ?n (buffer_contents b1)" "buffer_inv cap b2"
    using buffer_ring.drain_spec[OF b1(2), of ?n] unfolding eq[symmetric] by simp_all
  then have "buffer_contents b1 = out @ buffer_contents b2" "length out = ?n" "buffer_inv cap b2" by simp_all
  moreover have "unat w = length (buffer_contents b1) - length (buffer_contents b)" using uw b1(1) by simp
  ultimately show ?thesis using b1 by blast
qed

definition demo_buffer :: buffer where
  "demo_buffer = new_buffer 3 (Some [0, 0, 0]) None"

theorem buffer_is_queue_witness:
  "buffer_contents (snd (buffer_write (Some [1, 2, 3, 4]) demo_buffer)) = [1, 2, 3] \<and> buffer_contents demo_buffer = []"
proof -
  have i: "buffer_inv 3 demo_buffer" by (simp add: buffer_inv_def demo_buffer_def new_buffer_def)
  have e: "buffer_contents demo_buffer = []" by (simp add: buffer_contents_def demo_buffer_def new_buffer_def)
  obtain w b1 out b2 where rs: "buffer_write (Some [1, 2, 3, 4]) demo_buffer = (w, b1)" "buffer_read False 1 b1 = (out, b2)" by fastforce
  have "(1 :: u32) > 0" by simp
  from buffer_is_queue[OF i _ this rs] e rs show ?thesis by simp
qed

end
