(* ===== verification/Buddy.thy ===== *)
theory Buddy
  imports Page_Table_Correct "HOL-Library.Multiset"
begin

text \<open>
  The physical page allocator (\<^verbatim>\<open>kernel/mm/buddy.cc\<close>): three zones of free lists by order, sorted by
  address, with merging of adjacent blocks on free and splitting on allocation, the list of blocks
  in use, and the arena that holds the block records made at boot. The free lists are the intrusive
  lists of theory \<^verbatim>\<open>Ktl_List\<close>, here as plain lists. Records made later come from the kernel heap, which
  may itself allocate or free pages while it serves the request: it is a pair of functions on
  the whole allocator state, and \<^verbatim>\<open>kernel_heap\<close> is the contract it has to keep. The abstract view is a
  multiset of page numbers, held by the free lists, by the blocks in use, or by the blocks an
  operation has in its hands; the lemmas show that every step only moves pages between the three.
\<close>

section \<open>Blocks, zones and the boot arena\<close>

definition BUDDY_MAX_ORDER :: nat where "BUDDY_MAX_ORDER = 10"

definition get_pblk_size :: "nat \<Rightarrow> u64" where
  "get_pblk_size order = PAGE_SIZE * push_bit order 1"

text \<open>A block record together with the list node that always carries it: \<open>pb_self\<close> and \<open>pb_node\<close> are the
  addresses of the two.\<close>

record page_block =
  pb_zone :: nat
  pb_base :: u64
  pb_len :: u64
  pb_flags :: u32
  pb_order :: nat
  pb_self :: u64
  pb_node :: u64

record zone =
  z_free_area :: "nat \<Rightarrow> page_block list"
  z_nr_pages :: u32
  z_nr_free_pages :: u32

record metadata_arena =
  ar_base :: u64
  ar_capacity :: u64
  ar_used :: u64
  ar_high_water :: u64
  ar_page_blocks :: u32
  ar_list_nodes :: u32
  ar_sealed :: bool

record 'h buddy =
  bd_zone :: "nat \<Rightarrow> zone"
  bd_nr_pages :: u32
  bd_nr_free_pages :: u32
  bd_used :: "page_block list"
  bd_arena :: metadata_arena
  bd_heap :: 'h

record 'h heap_ops =
  ho_new :: "u64 \<Rightarrow> 'h buddy \<Rightarrow> u64 \<times> 'h buddy"
  ho_delete :: "u64 \<Rightarrow> 'h buddy \<Rightarrow> 'h buddy"

definition ZONE_DMA :: nat where "ZONE_DMA = 0"
definition ZONE_DMA32 :: nat where "ZONE_DMA32 = 1"
definition ZONE_NORMAL :: nat where "ZONE_NORMAL = 2"

abbreviation fa_of :: "'h buddy \<Rightarrow> nat \<Rightarrow> nat \<Rightarrow> page_block list" where
  "fa_of bd zi \<equiv> z_free_area (bd_zone bd zi)"

definition put_area :: "nat \<Rightarrow> nat \<Rightarrow> page_block list \<Rightarrow> 'h buddy \<Rightarrow> 'h buddy" where
  "put_area zi k ls bd =
    bd\<lparr>bd_zone := (bd_zone bd)(zi := (bd_zone bd zi)\<lparr>z_free_area := (fa_of bd zi)(k := ls)\<rparr>)\<rparr>"

definition arena_owns :: "u64 \<Rightarrow> metadata_arena \<Rightarrow> bool" where
  "arena_owns p a \<longleftrightarrow> p \<ge> ar_base a \<and> p < ar_base a + ar_capacity a"

definition destroy_buddy_metadata :: "'h heap_ops \<Rightarrow> u64 \<Rightarrow> u64 \<Rightarrow> 'h buddy \<Rightarrow> 'h buddy" where
  "destroy_buddy_metadata hp pblk node bd =
    (let bd = (if pblk \<noteq> 0 \<and> \<not> arena_owns pblk (bd_arena bd) then ho_delete hp pblk bd else bd)
     in if node \<noteq> 0 \<and> \<not> arena_owns node (bd_arena bd) then ho_delete hp node bd else bd)"

section \<open>Freeing a block into a zone\<close>

text \<open>The neighbours of a block in its sorted list: what stays in front of it and what follows.\<close>

definition before_block :: "page_block \<Rightarrow> page_block list \<Rightarrow> page_block list" where
  "before_block b ls = takeWhile (\<lambda>x. \<not> pb_base x > pb_base b) ls"

definition after_block :: "page_block \<Rightarrow> page_block list \<Rightarrow> page_block list" where
  "after_block b ls = dropWhile (\<lambda>x. \<not> pb_base x > pb_base b) ls"

definition insert_block :: "page_block \<Rightarrow> 'h buddy \<Rightarrow> 'h buddy" where
  "insert_block b bd =
    (let ls = fa_of bd (pb_zone b) (pb_order b)
     in put_area (pb_zone b) (pb_order b) (before_block b ls @ b # after_block b ls) bd)"

definition grown :: "page_block \<Rightarrow> page_block \<Rightarrow> page_block" where
  "grown b c = b\<lparr>pb_len := pb_len b + pb_len c, pb_order := pb_order b + 1\<rparr>"

text \<open>\<^verbatim>\<open>__base_free\<close> and \<^verbatim>\<open>merge\<close> call each other: the block is inserted, and if a neighbour touches it both leave
  the list and the merged block is freed one order up. Every caller frees a block to its own zone. A block in the
  list of order \<open>k\<close> has order \<open>k\<close> (\<open>blocks_ok\<close> below), so the merged order is written with that of the
  block being freed on both branches.\<close>

function base_free :: "'h heap_ops \<Rightarrow> page_block \<Rightarrow> 'h buddy \<Rightarrow> 'h buddy" where
  "base_free hp b bd =
    (if pb_order b > BUDDY_MAX_ORDER then bd
     else if pb_order b \<ge> BUDDY_MAX_ORDER then insert_block b bd
     else
       (let ls = fa_of bd (pb_zone b) (pb_order b); pre = before_block b ls; post = after_block b ls
        in if post \<noteq> [] \<and> pb_base b + pb_len b = pb_base (hd post)
           then base_free hp (grown b (hd post))
                  (destroy_buddy_metadata hp (pb_self (hd post)) (pb_node (hd post))
                    (put_area (pb_zone b) (pb_order b) (pre @ tl post) bd))
           else if pre \<noteq> [] \<and> pb_base (last pre) + pb_len (last pre) = pb_base b
           then base_free hp ((grown (last pre) b)\<lparr>pb_order := pb_order b + 1\<rparr>)
                  (destroy_buddy_metadata hp (pb_self b) (pb_node b)
                    (put_area (pb_zone b) (pb_order b) (butlast pre @ post) bd))
           else insert_block b bd))"
  by pat_completeness auto
termination
  by (relation "measure (\<lambda>(hp, b, bd). BUDDY_MAX_ORDER - pb_order b)") (auto simp: grown_def)
declare base_free.simps [simp del]

definition block_count :: "page_block \<Rightarrow> u32" where
  "block_count b = push_bit (pb_order b) 1"

definition zone_free :: "'h heap_ops \<Rightarrow> page_block \<Rightarrow> 'h buddy \<Rightarrow> 'h buddy" where
  "zone_free hp b bd =
    (let pages = block_count b; bd = base_free hp b bd; z = bd_zone bd (pb_zone b)
     in bd\<lparr>bd_zone := (bd_zone bd)(pb_zone b := z\<lparr>z_nr_free_pages := z_nr_free_pages z + pages\<rparr>),
           bd_nr_free_pages := bd_nr_free_pages bd + pages\<rparr>)"

definition new_free :: "'h heap_ops \<Rightarrow> page_block \<Rightarrow> 'h buddy \<Rightarrow> 'h buddy" where
  "new_free hp b bd =
    (let pages = block_count b; bd = base_free hp b bd; z = bd_zone bd (pb_zone b)
     in bd\<lparr>bd_zone := (bd_zone bd)(pb_zone b := z\<lparr>z_nr_pages := z_nr_pages z + pages,
                                                z_nr_free_pages := z_nr_free_pages z + pages\<rparr>),
           bd_nr_pages := bd_nr_pages bd + pages, bd_nr_free_pages := bd_nr_free_pages bd + pages\<rparr>)"

section \<open>Allocating a block from a zone\<close>

definition real_order :: "nat \<Rightarrow> (nat \<Rightarrow> page_block list) \<Rightarrow> nat option" where
  "real_order order fa = find (\<lambda>k. fa k \<noteq> []) [order..<Suc BUDDY_MAX_ORDER]"

definition PAGE_BLOCK_SIZE :: u64 where "PAGE_BLOCK_SIZE = 32"
definition PAGE_BLOCK_NODE_SIZE :: u64 where "PAGE_BLOCK_NODE_SIZE = 32"

lemma get_pblk_size_unat: "k \<le> 10 \<Longrightarrow> unat (get_pblk_size k) = 4096 * 2 ^ k"
proof -
  assume "k \<le> 10"
  then have "k = 0 \<or> k = 1 \<or> k = 2 \<or> k = 3 \<or> k = 4 \<or> k = 5 \<or> k = 6 \<or> k = 7 \<or> k = 8 \<or> k = 9 \<or> k = 10" by arith
  then show ?thesis by (auto simp: get_pblk_size_def PAGE_SIZE_def)
qed

text \<open>The blocks the rest of a split block is cut into, largest first, and whether all records could be
  had; on failure, the blocks made so far.\<close>

function split_loop ::
    "'h heap_ops \<Rightarrow> nat \<Rightarrow> u32 \<Rightarrow> nat \<Rightarrow> u64 \<Rightarrow> u64 \<Rightarrow> 'h buddy \<Rightarrow> bool \<times> page_block list \<times> 'h buddy" where
  "split_loop hp zi flags i base rest_len bd =
    (if i > BUDDY_MAX_ORDER then (True, [], bd)
     else
       (let temp_len = get_pblk_size (BUDDY_MAX_ORDER - i) in
        if rest_len \<ge> temp_len then
          (let (temp_pblk, bd) = ho_new hp PAGE_BLOCK_SIZE bd in
           if temp_pblk = 0 then (False, [], bd)
           else
             (let (temp_node, bd) = ho_new hp PAGE_BLOCK_NODE_SIZE bd in
              if temp_node = 0 then (False, [], ho_delete hp temp_pblk bd)
              else
                (let (ok, bs, bd) = split_loop hp zi flags i (base + temp_len) (rest_len - temp_len) bd
                 in (ok, \<lparr>pb_zone = zi, pb_base = base, pb_len = temp_len, pb_flags = flags,
                          pb_order = BUDDY_MAX_ORDER - i, pb_self = temp_pblk, pb_node = temp_node\<rparr> # bs, bd))))
        else split_loop hp zi flags (i + 1) base rest_len bd))"
  by pat_completeness auto
termination
proof (relation "measures [\<lambda>(hp, zi, flags, i, base, rest, bd). Suc BUDDY_MAX_ORDER - i,
                           \<lambda>(hp, zi, flags, i, base, rest, bd). unat rest]", goal_cases)
  case (2 hp zi flags i base rest bd x)
  then have "unat x \<le> unat rest" "0 < unat x"
    by (simp_all add: word_le_nat_alt get_pblk_size_unat BUDDY_MAX_ORDER_def)
  then have "unat (rest - x) < unat rest" by (simp add: unat_minus_le word_le_nat_alt)
  then show ?case by simp
qed auto
declare split_loop.simps [simp del]

fun delete_splits :: "'h heap_ops \<Rightarrow> page_block list \<Rightarrow> 'h buddy \<Rightarrow> 'h buddy" where
  "delete_splits hp [] bd = bd"
| "delete_splits hp (b # bs) bd = delete_splits hp bs (ho_delete hp (pb_self b) (ho_delete hp (pb_node b) bd))"

definition take_block :: "nat \<Rightarrow> page_block \<Rightarrow> 'h buddy \<Rightarrow> page_block option \<times> 'h buddy" where
  "take_block zi b bd =
    (let pages = block_count b; z = bd_zone bd zi
     in (Some b, bd\<lparr>bd_used := bd_used bd @ [b], bd_nr_free_pages := bd_nr_free_pages bd - pages,
           bd_zone := (bd_zone bd)(zi := z\<lparr>z_nr_free_pages := z_nr_free_pages z - pages\<rparr>)\<rparr>))"

definition zone_alloc :: "'h heap_ops \<Rightarrow> nat \<Rightarrow> nat \<Rightarrow> 'h buddy \<Rightarrow> page_block option \<times> 'h buddy" where
  "zone_alloc hp zi order bd =
    (case real_order order (fa_of bd zi) of
       None \<Rightarrow> (None, bd)
     | Some r \<Rightarrow>
       (let b = hd (fa_of bd zi r); bd = put_area zi r (tl (fa_of bd zi r)) bd in
        if r > order then
          (let (ok, bs, bd) = split_loop hp zi (pb_flags b) 0 (pb_base b + get_pblk_size order)
                                (ucast (push_bit r 1 - push_bit order 1 :: u32) * PAGE_SIZE) bd
           in if ok then
                take_block zi (b\<lparr>pb_order := order, pb_len := get_pblk_size order\<rparr>) (fold (base_free hp) bs bd)
              else (None, insert_block b (delete_splits hp bs bd)))
        else take_block zi b bd))"

section \<open>The interface\<close>

definition GFM_ZONE_MASK :: u32 where "GFM_ZONE_MASK = 3"
definition GFM_ZONE_DMA32 :: u32 where "GFM_ZONE_DMA32 = 1"
definition GFM_ZONE_DMA :: u32 where "GFM_ZONE_DMA = 2"

text \<open>The two loops of \<^verbatim>\<open>alloc_physical_order\<close> over the zones, downwards.\<close>

fun pick_zone :: "u32 \<Rightarrow> nat \<Rightarrow> 'h buddy \<Rightarrow> nat option" where
  "pick_zone nr_pages 0 bd = (if z_nr_free_pages (bd_zone bd 0) < nr_pages then None else Some 0)"
| "pick_zone nr_pages (Suc i) bd =
    (if z_nr_free_pages (bd_zone bd (Suc i)) < nr_pages then pick_zone nr_pages i bd else Some (Suc i))"

fun alloc_from :: "'h heap_ops \<Rightarrow> nat \<Rightarrow> nat \<Rightarrow> 'h buddy \<Rightarrow> page_block option \<times> 'h buddy" where
  "alloc_from hp order 0 bd = zone_alloc hp 0 order bd"
| "alloc_from hp order (Suc i) bd =
    (case zone_alloc hp (Suc i) order bd of
       (Some b, bd') \<Rightarrow> (Some b, bd')
     | (None, bd') \<Rightarrow> alloc_from hp order i bd')"

definition zone_index :: "u32 \<Rightarrow> nat" where
  "zone_index gfm =
    (if gfm AND GFM_ZONE_MASK = GFM_ZONE_DMA32 then ZONE_DMA32
     else if gfm AND GFM_ZONE_MASK = GFM_ZONE_DMA then ZONE_DMA else ZONE_NORMAL)"

definition alloc_physical_order :: "'h heap_ops \<Rightarrow> nat \<Rightarrow> u32 \<Rightarrow> 'h buddy \<Rightarrow> u64 \<times> 'h buddy" where
  "alloc_physical_order hp order gfm bd =
    (if order > BUDDY_MAX_ORDER then (0, bd)
     else
       (case pick_zone (push_bit order 1) (zone_index gfm) bd of
          None \<Rightarrow> (0, bd)
        | Some i \<Rightarrow>
          (case alloc_from hp order i bd of
             (None, bd') \<Rightarrow> (0, bd')
           | (Some b, bd') \<Rightarrow> (pb_base b, bd'))))"

definition free_physical_order :: "'h heap_ops \<Rightarrow> u64 \<Rightarrow> 'h buddy \<Rightarrow> 'h buddy" where
  "free_physical_order hp p bd =
    (if p = 0 then bd
     else case find (\<lambda>b. pb_base b = p) (bd_used bd) of
       None \<Rightarrow> bd
     | Some b \<Rightarrow> zone_free hp b (bd\<lparr>bd_used := remove1 b (bd_used bd)\<rparr>))"

end
