(* ===== verification/Buddy_Correct.thy ===== *)
theory Buddy_Correct
  imports Buddy
begin

text \<open>
  Conservation of pages in the allocator of theory \<^verbatim>\<open>Buddy\<close>. \<open>balanced\<close> relates a state and the blocks an
  operation holds to a later state and the blocks held then: the pages are the same, no page is held
  twice, and the free-page counters are off by exactly the pages in hand. Every primitive is one
  such step, and the operations are their compositions.
\<close>

section \<open>Pages\<close>

definition first_page :: "page_block \<Rightarrow> nat" where
  "first_page b = unat (pb_base b) div 4096"

definition pages :: "page_block \<Rightarrow> nat multiset" where
  "pages b = mset [first_page b ..< first_page b + 2 ^ pb_order b]"

definition zone_low :: "nat \<Rightarrow> nat" where
  "zone_low zi = (if zi = ZONE_DMA then 0 else if zi = ZONE_DMA32 then 0x1000000 else 0x100000000)"

definition zone_high :: "nat \<Rightarrow> nat" where
  "zone_high zi = (if zi = ZONE_DMA then 0x1000000 else if zi = ZONE_DMA32 then 0x100000000 else 2 ^ 52)"

definition block_ok :: "page_block \<Rightarrow> bool" where
  "block_ok b \<longleftrightarrow> pb_zone b < 3 \<and> pb_order b \<le> BUDDY_MAX_ORDER \<and> unat (pb_len b) = 4096 * 2 ^ pb_order b \<and>
     4096 dvd unat (pb_base b) \<and> zone_low (pb_zone b) \<le> unat (pb_base b) \<and>
     unat (pb_base b) + unat (pb_len b) \<le> zone_high (pb_zone b)"

abbreviation list_pages :: "page_block list \<Rightarrow> nat multiset" where
  "list_pages ls \<equiv> (\<Sum>b\<leftarrow>ls. pages b)"

definition free_pages :: "'h buddy \<Rightarrow> nat \<Rightarrow> nat multiset" where
  "free_pages bd zi = (\<Sum>k\<le>BUDDY_MAX_ORDER. list_pages (fa_of bd zi k))"

definition all_free :: "'h buddy \<Rightarrow> nat multiset" where
  "all_free bd = free_pages bd 0 + free_pages bd 1 + free_pages bd 2"

definition all_pages :: "'h buddy \<Rightarrow> page_block multiset \<Rightarrow> nat multiset" where
  "all_pages bd B = all_free bd + list_pages (bd_used bd) + (\<Sum>b\<in>#B. pages b)"

text \<open>How far the free-page counters are ahead of the free lists: per zone, and (from index 3 on) globally.\<close>

definition slack :: "'h buddy \<Rightarrow> nat \<Rightarrow> u32" where
  "slack bd z = (if z < 3 then z_nr_free_pages (bd_zone bd z) - of_nat (size (free_pages bd z))
     else bd_nr_free_pages bd - of_nat (size (all_free bd)))"

definition weight :: "page_block \<Rightarrow> nat \<Rightarrow> u32" where
  "weight b z = (if z = pb_zone b \<or> 3 \<le> z then 2 ^ pb_order b else 0)"

definition gap :: "'h buddy \<Rightarrow> page_block multiset \<Rightarrow> nat \<Rightarrow> u32" where
  "gap bd B z = slack bd z - (\<Sum>b\<in>#B. weight b z)"

definition blocks_ok :: "('h \<Rightarrow> u64 set) \<Rightarrow> 'h buddy \<Rightarrow> page_block multiset \<Rightarrow> bool" where
  "blocks_ok owns bd B \<longleftrightarrow>
     (\<forall>zi k. \<forall>b\<in>set (fa_of bd zi k). block_ok b \<and> pb_zone b = zi \<and> pb_order b = k) \<and>
     (\<forall>b\<in>set (bd_used bd). block_ok b) \<and> (\<forall>b\<in>#B. block_ok b) \<and>
     (\<forall>p. count (all_pages bd B) p \<le> 1) \<and> 0 \<notin># all_pages bd B \<and>
     owns (bd_heap bd) \<subseteq> pb_base ` set (bd_used bd)"

definition clients :: "('h \<Rightarrow> u64 set) \<Rightarrow> 'h buddy \<Rightarrow> page_block multiset" where
  "clients owns bd = {#b \<in># mset (bd_used bd). pb_base b \<notin> owns (bd_heap bd)#}"

definition balanced ::
    "('h \<Rightarrow> u64 set) \<Rightarrow> 'h buddy \<Rightarrow> page_block multiset \<Rightarrow> 'h buddy \<Rightarrow> page_block multiset \<Rightarrow> bool" where
  "balanced owns bd B bd' B' \<longleftrightarrow> blocks_ok owns bd' B' \<and> all_pages bd' B' = all_pages bd B \<and> gap bd' B' = gap bd B"

definition quiet ::
    "('h \<Rightarrow> u64 set) \<Rightarrow> 'h buddy \<Rightarrow> page_block multiset \<Rightarrow> 'h buddy \<Rightarrow> page_block multiset \<Rightarrow> bool" where
  "quiet owns bd B bd' B' \<longleftrightarrow> balanced owns bd B bd' B' \<and> clients owns bd' = clients owns bd"

lemma quiet_refl [simp]: "blocks_ok owns bd B \<Longrightarrow> quiet owns bd B bd B"
  by (simp add: quiet_def balanced_def)

lemma quiet_trans:
  "quiet owns bd B bd' B' \<Longrightarrow> quiet owns bd' B' bd'' B'' \<Longrightarrow> quiet owns bd B bd'' B''"
  by (simp add: quiet_def balanced_def)

lemma quiet_ok: "quiet owns bd B bd' B' \<Longrightarrow> blocks_ok owns bd' B'"
  by (simp add: quiet_def balanced_def)

lemma size_pages [simp]: "size (pages b) = 2 ^ pb_order b"
  by (simp add: pages_def)

lemma mem_pages: "p \<in># pages b \<longleftrightarrow> first_page b \<le> p \<and> p < first_page b + 2 ^ pb_order b"
  by (simp add: pages_def)

lemma list_pages_mset: "list_pages ls = (\<Sum>b\<in>#mset ls. pages b)"
  by (metis mset_map sum_mset_sum_list)

section \<open>Moving a block between a free list and the hand\<close>

lemma free_pages_put:
  assumes "zi < 3" "k \<le> BUDDY_MAX_ORDER" "mset (fa_of bd zi k) = add_mset c (mset ls)"
  shows "free_pages bd z = (if z = zi then free_pages (put_area zi k ls bd) z + pages c else free_pages (put_area zi k ls bd) z)"
proof (cases "z = zi")
  case True
  have "list_pages (fa_of bd zi k) = list_pages ls + pages c"
    using assms(3) by (simp add: list_pages_mset)
  then show ?thesis using assms(2) True
    by (simp add: free_pages_def put_area_def sum.remove[of _ k] algebra_simps)
next
  case False
  then show ?thesis by (simp add: free_pages_def put_area_def)
qed

lemma all_free_put:
  assumes "zi < 3" "k \<le> BUDDY_MAX_ORDER" "mset (fa_of bd zi k) = add_mset c (mset ls)"
  shows "all_free bd = all_free (put_area zi k ls bd) + pages c"
proof -
  have "zi = 0 \<or> zi = 1 \<or> zi = 2" using assms(1) by arith
  then show ?thesis using free_pages_put[OF assms]
    by (auto simp: all_free_def)
qed

lemma slack_put:
  assumes "zi < 3" "k \<le> BUDDY_MAX_ORDER" "mset (fa_of bd zi k) = add_mset c (mset ls)" "pb_zone c = zi"
  shows "slack (put_area zi k ls bd) z = slack bd z + weight c z"
proof -
  have "z_nr_free_pages (bd_zone (put_area zi k ls bd) z) = z_nr_free_pages (bd_zone bd z)"
    "bd_nr_free_pages (put_area zi k ls bd) = bd_nr_free_pages bd"
    by (simp_all add: put_area_def)
  then show ?thesis
    using assms(4) free_pages_put[OF assms(1-3), of z] all_free_put[OF assms(1-3)]
    by (auto simp: slack_def weight_def)
qed

lemma put_other [simp]:
  "bd_used (put_area zi k ls bd) = bd_used bd" "bd_heap (put_area zi k ls bd) = bd_heap bd"
  "bd_arena (put_area zi k ls bd) = bd_arena bd"
  "clients owns (put_area zi k ls bd) = clients owns bd"
  by (simp_all add: put_area_def clients_def)

lemma fa_put: "fa_of (put_area zi k ls bd) z j = (if z = zi \<and> j = k then ls else fa_of bd z j)"
  by (simp add: put_area_def)

lemma list_block_bounds:
  assumes "blocks_ok owns bd B" "c \<in> set (fa_of bd zi k)"
  shows "block_ok c" "pb_zone c = zi" "pb_order c = k" "zi < 3" "k \<le> BUDDY_MAX_ORDER"
proof -
  have c: "block_ok c" "pb_zone c = zi" "pb_order c = k" using assms unfolding blocks_ok_def by blast+
  then show "block_ok c" "pb_zone c = zi" "pb_order c = k" "zi < 3" "k \<le> BUDDY_MAX_ORDER"
    by (simp_all add: c, auto simp: block_ok_def)
qed

lemma put_pages:
  assumes "zi < 3" "k \<le> BUDDY_MAX_ORDER" "mset (fa_of bd zi k) = add_mset c (mset ls)" "pb_zone c = zi"
  shows "all_pages (put_area zi k ls bd) (add_mset c B) = all_pages bd B"
    "gap (put_area zi k ls bd) (add_mset c B) = gap bd B"
  using all_free_put[OF assms(1-3)] slack_put[OF assms]
  by (auto simp: all_pages_def gap_def fun_eq_iff)

text \<open>Taking a block out of its list.\<close>

lemma remove_quiet:
  assumes "blocks_ok owns bd B" "mset (fa_of bd zi k) = add_mset c (mset ls)"
  shows "quiet owns bd B (put_area zi k ls bd) (add_mset c B)"
proof -
  have "c \<in> set (fa_of bd zi k)" using assms(2) by (metis set_mset_mset union_single_eq_member)
  note c = list_block_bounds[OF assms(1) this]
  have "set ls \<subseteq> set (fa_of bd zi k)" using assms(2) by (metis set_mset_mset set_mset_add_mset_insert subset_insertI)
  then show ?thesis
    using assms(1) c put_pages[OF c(4,5) assms(2) c(2), of B]
    by (auto simp: quiet_def balanced_def blocks_ok_def fa_put)
qed

text \<open>Putting a block in hand into its list.\<close>

lemma insert_quiet:
  assumes "blocks_ok owns bd (add_mset c B)" "mset ls = add_mset c (mset (fa_of bd (pb_zone c) (pb_order c)))"
  shows "quiet owns bd (add_mset c B) (put_area (pb_zone c) (pb_order c) ls bd) B"
proof -
  let ?bd = "put_area (pb_zone c) (pb_order c) ls bd"
  have c: "block_ok c" "pb_zone c < 3" "pb_order c \<le> BUDDY_MAX_ORDER"
    using assms(1) by (auto simp: blocks_ok_def block_ok_def)
  have undo: "put_area (pb_zone c) (pb_order c) (fa_of bd (pb_zone c) (pb_order c)) ?bd = bd"
    by (simp add: put_area_def)
  have "mset (fa_of ?bd (pb_zone c) (pb_order c)) = add_mset c (mset (fa_of bd (pb_zone c) (pb_order c)))"
    using assms(2) by (simp add: fa_put)
  note t = put_pages[OF c(2,3) this refl, of B, unfolded undo]
  have "set ls = insert c (set (fa_of bd (pb_zone c) (pb_order c)))"
    using assms(2) by (metis set_mset_mset set_mset_add_mset_insert)
  then show ?thesis
    using assms(1) c t by (auto simp: quiet_def balanced_def blocks_ok_def fa_put)
qed

lemma split_around: "before_block b ls @ after_block b ls = ls"
  by (simp add: before_block_def after_block_def)

lemma insert_block_quiet:
  assumes "blocks_ok owns bd (add_mset c B)"
  shows "quiet owns bd (add_mset c B) (insert_block c bd) B"
proof -
  let ?ls = "fa_of bd (pb_zone c) (pb_order c)"
  have "mset (before_block c ?ls @ c # after_block c ?ls) = add_mset c (mset (before_block c ?ls @ after_block c ?ls))"
    by simp
  then show ?thesis
    unfolding insert_block_def Let_def using insert_quiet[OF assms] by (simp add: split_around)
qed

text \<open>Replacing blocks in hand by others with the same pages in the same zone.\<close>

lemma rehand_quiet:
  assumes "blocks_ok owns bd (C + B)" "\<And>b. b \<in># D \<Longrightarrow> block_ok b"
    "(\<Sum>b\<in>#D. pages b) = (\<Sum>b\<in>#C. pages b)" "\<And>z. (\<Sum>b\<in>#D. weight b z) = (\<Sum>b\<in>#C. weight b z)"
  shows "quiet owns bd (C + B) bd (D + B)"
  using assms by (auto simp: quiet_def balanced_def blocks_ok_def all_pages_def gap_def)

lemma weight_sum:
  "(\<And>b. b \<in># D \<Longrightarrow> pb_zone b = zi) \<Longrightarrow>
   (\<Sum>b\<in>#D. weight b z) = (if z = zi \<or> 3 \<le> z then of_nat (size (\<Sum>b\<in>#D. pages b)) else 0)"
  by (induction D) (auto simp: weight_def)

lemma rehand_zone:
  assumes "blocks_ok owns bd (C + B)" "\<And>b. b \<in># D \<Longrightarrow> block_ok b \<and> pb_zone b = zi"
    "\<And>b. b \<in># C \<Longrightarrow> pb_zone b = zi" "(\<Sum>b\<in>#D. pages b) = (\<Sum>b\<in>#C. pages b)"
  shows "quiet owns bd (C + B) bd (D + B)"
  using assms by (intro rehand_quiet) (simp_all add: weight_sum[of _ zi])

section \<open>Merging\<close>

lemma block_end:
  assumes "block_ok b"
  shows "unat (pb_base b + pb_len b) = unat (pb_base b) + 4096 * 2 ^ pb_order b"
    "unat (pb_base b) + 4096 * 2 ^ pb_order b \<le> 2 ^ 52"
    "unat (pb_base b) = 4096 * first_page b"
proof -
  have "zone_high (pb_zone b) \<le> 2 ^ 52" by (simp add: zone_high_def)
  then show l: "unat (pb_base b) + 4096 * 2 ^ pb_order b \<le> 2 ^ 52"
    using assms unfolding block_ok_def by linarith
  then show "unat (pb_base b + pb_len b) = unat (pb_base b) + 4096 * 2 ^ pb_order b"
    using assms by (subst unat_plus_if_no_wrap) (auto simp: block_ok_def)
  show "unat (pb_base b) = 4096 * first_page b" using assms by (simp add: block_ok_def first_page_def)
qed

lemma grown_ok:
  assumes "block_ok b" "block_ok c" "pb_zone b = pb_zone c" "pb_order b = pb_order c" "pb_order b < BUDDY_MAX_ORDER"
    "pb_base b + pb_len b = pb_base c"
  shows "block_ok (grown b c)" "pages (grown b c) = pages b + pages c"
proof -
  have e: "unat (pb_base c) = unat (pb_base b) + 4096 * 2 ^ pb_order b"
    using block_end(1)[OF assms(1)] assms(6) by simp
  have u: "unat (pb_len b) = 4096 * 2 ^ pb_order b" "unat (pb_len c) = 4096 * 2 ^ pb_order b"
    using assms(1,2,4) by (auto simp: block_ok_def)
  have "unat (pb_len b + pb_len c) = 2 * (4096 * 2 ^ pb_order b)"
    using u block_end(2)[OF assms(1)] block_end(2)[OF assms(2)]
    by (subst unat_plus_if_no_wrap) (simp_all add: u assms(4))
  then show "block_ok (grown b c)"
    using assms(1-5) e u unfolding block_ok_def grown_def by auto
  have "first_page c = first_page b + 2 ^ pb_order b"
    using e block_end(3)[OF assms(1)] block_end(3)[OF assms(2)] by simp
  then have "[first_page b ..< first_page b + 2 ^ Suc (pb_order b)]
     = [first_page b ..< first_page c] @ [first_page c ..< first_page c + 2 ^ pb_order b]"
    using upt_add_eq_append[of "first_page b" "first_page c" "2 ^ pb_order b"] by (simp add: mult_2 add.assoc)
  moreover have "first_page (grown b c) = first_page b" "pb_order (grown b c) = Suc (pb_order b)"
    by (simp_all add: grown_def first_page_def)
  ultimately show "pages (grown b c) = pages b + pages c"
    using \<open>first_page c = _\<close> assms(4) by (simp add: pages_def)
qed

lemma merge_quiet:
  assumes "blocks_ok owns bd (add_mset b (add_mset c B))" "pb_zone b = pb_zone c" "pb_order b = pb_order c"
    "pb_order b < BUDDY_MAX_ORDER" "pb_base b + pb_len b = pb_base c"
  shows "quiet owns bd (add_mset b (add_mset c B)) bd (add_mset (grown b c) B)"
proof -
  have ok: "block_ok b" "block_ok c" using assms(1) by (auto simp: blocks_ok_def)
  note g = grown_ok[OF ok assms(2-5)]
  have "quiet owns bd ({#b, c#} + B) bd ({#grown b c#} + B)"
    using assms(1,2) g by (intro rehand_zone[where zi = "pb_zone b"]) (auto simp: grown_def)
  then show ?thesis by simp
qed

section \<open>The heap contract\<close>

text \<open>What the allocator needs of the kernel heap: a request may allocate and free pages of the heap's own,
  but it leaves the blocks of everybody else alone and keeps the allocator consistent.\<close>

locale kernel_heap =
  fixes hp :: "'h heap_ops" and owns :: "'h \<Rightarrow> u64 set"
  assumes new_laws: "blocks_ok owns bd {#} \<Longrightarrow> quiet owns bd {#} (snd (ho_new hp n bd)) {#}"
    and delete_laws: "blocks_ok owns bd {#} \<Longrightarrow> quiet owns bd {#} (ho_delete hp p bd) {#}"
begin

lemma lift:
  assumes "\<And>bd. blocks_ok owns bd {#} \<Longrightarrow> quiet owns bd {#} (f bd) {#}" "blocks_ok owns bd B"
  shows "quiet owns bd B (f bd) B"
proof -
  have split: "all_pages s B = all_pages s {#} + (\<Sum>b\<in>#B. pages b)" for s :: "'h buddy" by (simp add: all_pages_def)
  have "count (all_pages bd {#}) p \<le> count (all_pages bd B) p" for p by (simp add: split)
  then have "\<forall>p. count (all_pages bd {#}) p \<le> 1" using assms(2) unfolding blocks_ok_def by (meson le_trans)
  then have "blocks_ok owns bd {#}" using assms(2) split[of bd] by (auto simp: blocks_ok_def)
  from assms(1)[OF this] have q: "balanced owns bd {#} (f bd) {#}" "clients owns (f bd) = clients owns bd"
    by (simp_all add: quiet_def)
  have p: "all_pages (f bd) B = all_pages bd B" using q(1) split[of bd] split[of "f bd"] by (simp add: balanced_def)
  moreover have "gap (f bd) B = gap bd B"
    using q(1) by (simp add: balanced_def gap_def fun_eq_iff)
  moreover have "blocks_ok owns (f bd) B"
    using q(1) assms(2) p unfolding balanced_def blocks_ok_def by simp
  ultimately show ?thesis using q(2) by (simp add: quiet_def balanced_def)
qed

lemma new_quiet: "blocks_ok owns bd B \<Longrightarrow> ho_new hp n bd = (p, bd') \<Longrightarrow> quiet owns bd B bd' B"
  using lift[of "\<lambda>bd. snd (ho_new hp n bd)", OF new_laws] by (metis snd_conv)

lemma delete_quiet: "blocks_ok owns bd B \<Longrightarrow> quiet owns bd B (ho_delete hp p bd) B"
  using lift[of "ho_delete hp p", OF delete_laws] .

lemma destroy_quiet:
  assumes "blocks_ok owns bd B"
  shows "quiet owns bd B (destroy_buddy_metadata hp p n bd) B"
proof -
  define s where "s = (if p \<noteq> 0 \<and> \<not> arena_owns p (bd_arena bd) then ho_delete hp p bd else bd)"
  have "quiet owns bd B s B" using assms by (simp add: s_def delete_quiet)
  moreover from quiet_ok[OF this] have "quiet owns s B (destroy_buddy_metadata hp p n bd) B"
    by (simp add: destroy_buddy_metadata_def Let_def s_def[symmetric] delete_quiet)
  ultimately show ?thesis by (rule quiet_trans)
qed

text \<open>One merge: the neighbour \<open>c\<close> leaves the list, one of the two records is destroyed, the other one grows.\<close>

lemma join_quiet:
  assumes "blocks_ok owns bd (add_mset b B)" "mset (fa_of bd (pb_zone b) (pb_order b)) = add_mset c (mset ls)"
    "pb_order b < BUDDY_MAX_ORDER" "s = destroy_buddy_metadata hp p n (put_area (pb_zone b) (pb_order b) ls bd)"
  shows "pb_base b + pb_len b = pb_base c \<Longrightarrow> quiet owns bd (add_mset b B) s (add_mset (grown b c) B)"
    "pb_base c + pb_len c = pb_base b \<Longrightarrow> quiet owns bd (add_mset b B) s (add_mset (grown c b) B)"
proof -
  have "c \<in> set (fa_of bd (pb_zone b) (pb_order b))" using assms(2) by (metis set_mset_mset union_single_eq_member)
  note c = list_block_bounds[OF assms(1) this]
  note q1 = remove_quiet[OF assms(1,2)]
  have q: "quiet owns bd (add_mset b B) s (add_mset c (add_mset b B))"
    unfolding assms(4) using quiet_trans[OF q1 destroy_quiet[OF quiet_ok[OF q1]]] .
  note ok = quiet_ok[OF q]
  show "quiet owns bd (add_mset b B) s (add_mset (grown b c) B)" if "pb_base b + pb_len b = pb_base c"
    using quiet_trans[OF q] merge_quiet[of owns s b c B] ok c(2,3) assms(3) that by (simp add: add_mset_commute)
  show "quiet owns bd (add_mset b B) s (add_mset (grown c b) B)" if "pb_base c + pb_len c = pb_base b"
    using quiet_trans[OF q] merge_quiet[of owns s c b B] ok c(2,3) assms(3) that by simp
qed

lemma base_free_quiet:
  "blocks_ok owns bd (add_mset b B) \<Longrightarrow> quiet owns bd (add_mset b B) (base_free hp b bd) B"
proof (induction "BUDDY_MAX_ORDER - pb_order b" arbitrary: b bd rule: less_induct)
  case less
  define ls pre post where "ls = fa_of bd (pb_zone b) (pb_order b)" and "pre = before_block b ls"
    and "post = after_block b ls"
  have split: "ls = pre @ post" by (simp add: pre_def post_def split_around)
  have k: "pb_order b \<le> BUDDY_MAX_ORDER" using less.prems by (auto simp: blocks_ok_def block_ok_def)
  note unf = base_free.simps[of hp b bd] Let_def ls_def[symmetric] pre_def[symmetric] post_def[symmetric]
  consider "pb_order b = BUDDY_MAX_ORDER"
    | (nxt) "pb_order b < BUDDY_MAX_ORDER" "post \<noteq> []" "pb_base b + pb_len b = pb_base (hd post)"
    | (prv) "pb_order b < BUDDY_MAX_ORDER" "\<not> (post \<noteq> [] \<and> pb_base b + pb_len b = pb_base (hd post))"
        "pre \<noteq> []" "pb_base (last pre) + pb_len (last pre) = pb_base b"
    | (none) "pb_order b < BUDDY_MAX_ORDER" "\<not> (post \<noteq> [] \<and> pb_base b + pb_len b = pb_base (hd post))"
        "\<not> (pre \<noteq> [] \<and> pb_base (last pre) + pb_len (last pre) = pb_base b)"
    using k by linarith
  then show ?case
  proof cases
    case nxt
    have m: "mset ls = add_mset (hd post) (mset (pre @ tl post))" using nxt(2) split by (cases post) auto
    note q = join_quiet(1)[OF less.prems m[unfolded ls_def] nxt(1) refl nxt(3)]
    show ?thesis using nxt quiet_trans[OF q less.hyps[OF _ quiet_ok[OF q]]] by (simp add: unf grown_def)
  next
    case prv
    have m: "mset ls = add_mset (last pre) (mset (butlast pre @ post))"
      using prv(3) split by (cases pre rule: rev_cases) auto
    have "last pre \<in> set ls" using prv(3) split by simp
    then have "pb_order (last pre) = pb_order b"
      using list_block_bounds(3)[OF less.prems] by (simp add: ls_def)
    then have g: "(grown (last pre) b)\<lparr>pb_order := pb_order b + 1\<rparr> = grown (last pre) b" by (simp add: grown_def)
    note q = join_quiet(2)[OF less.prems m[unfolded ls_def] prv(1) refl prv(4)]
    show ?thesis using prv g \<open>pb_order (last pre) = pb_order b\<close> quiet_trans[OF q less.hyps[OF _ quiet_ok[OF q]]]
      by (auto simp: unf) (simp_all add: grown_def)
  qed (use insert_block_quiet[OF less.prems] in \<open>auto simp: unf\<close>)
qed

lemma delete_splits_quiet: "blocks_ok owns bd B \<Longrightarrow> quiet owns bd B (delete_splits hp bs bd) B"
proof (induction bs arbitrary: bd)
  case (Cons b bs)
  note q = delete_quiet[OF Cons.prems, of "pb_node b"]
  note q = quiet_trans[OF q delete_quiet[OF quiet_ok[OF q], of "pb_self b"]]
  show ?case using quiet_trans[OF q Cons.IH[OF quiet_ok[OF q]]] by simp
qed simp

lemma fold_base_free_quiet:
  "blocks_ok owns bd (mset bs + B) \<Longrightarrow> quiet owns bd (mset bs + B) (fold (base_free hp) bs bd) B"
proof (induction bs arbitrary: bd)
  case (Cons b bs)
  then have "quiet owns bd (mset (b # bs) + B) (base_free hp b bd) (mset bs + B)"
    using base_free_quiet[of bd b "mset bs + B"] by simp
  from quiet_trans[OF this Cons.IH[OF quiet_ok[OF this]]] show ?case by simp
qed simp

end

section \<open>Splitting\<close>

definition cut_ok :: "nat \<Rightarrow> u64 \<Rightarrow> u64 \<Rightarrow> bool" where
  "cut_ok zi base len \<longleftrightarrow> zi < 3 \<and> 4096 dvd unat base \<and> 4096 dvd unat len \<and>
     zone_low zi \<le> unat base \<and> unat base + unat len \<le> zone_high zi"

definition range_pages :: "u64 \<Rightarrow> u64 \<Rightarrow> nat multiset" where
  "range_pages base len = mset [unat base div 4096 ..< unat base div 4096 + unat len div 4096]"

lemma cut_step:
  assumes "cut_ok zi base len" "get_pblk_size k \<le> len" "k \<le> 10"
    "b = \<lparr>pb_zone = zi, pb_base = base, pb_len = get_pblk_size k, pb_flags = flags, pb_order = k, pb_self = s, pb_node = n\<rparr>"
  shows "block_ok b" "pb_zone b = zi" "cut_ok zi (base + get_pblk_size k) (len - get_pblk_size k)"
    "range_pages base len = pages b + range_pages (base + get_pblk_size k) (len - get_pblk_size k)"
proof -
  let ?t = "get_pblk_size k"
  have t: "unat ?t = 4096 * 2 ^ k" using assms(3) by (rule get_pblk_size_unat)
  have tl: "unat ?t \<le> unat len" using assms(2) by (simp add: word_le_nat_alt)
  have "zone_high zi \<le> 2 ^ 52" by (simp add: zone_high_def)
  then have hi: "unat base + unat len \<le> 2 ^ 52" using assms(1) unfolding cut_ok_def by linarith
  have u: "unat (base + ?t) = unat base + unat ?t" using hi tl by (intro unat_plus_if_no_wrap) simp
  have v: "unat (len - ?t) = unat len - unat ?t" using assms(2) by (rule unat_minus_le)
  show "block_ok b" "pb_zone b = zi"
    using assms(1,3) t tl unfolding block_ok_def cut_ok_def assms(4) by (auto simp: BUDDY_MAX_ORDER_def)
  show "cut_ok zi (base + ?t) (len - ?t)" using assms(1) t tl u v by (auto simp: cut_ok_def)
  have d: "(unat base + 4096 * 2 ^ k) div 4096 = unat base div 4096 + 2 ^ k" "2 ^ k \<le> unat len div 4096"
    "(unat len - 4096 * 2 ^ k) div 4096 = unat len div 4096 - 2 ^ k"
    using tl t by (simp_all add: div_mult_self1_is_m)
  show "range_pages base len = pages b + range_pages (base + ?t) (len - ?t)"
    using upt_add_eq_append[of "unat base div 4096" "unat base div 4096 + 2 ^ k" "unat len div 4096 - 2 ^ k"] d
    by (simp add: range_pages_def pages_def first_page_def assms(4) u v t add.commute)
qed

text \<open>What the loop leaves: the blocks made lie in the zone, and if all records could be had they hold
  exactly the pages of the range.\<close>

definition cut_into :: "nat \<Rightarrow> u64 \<Rightarrow> u64 \<Rightarrow> bool \<Rightarrow> page_block list \<Rightarrow> bool" where
  "cut_into zi base len ok bs \<longleftrightarrow>
     (\<forall>b\<in>set bs. block_ok b \<and> pb_zone b = zi) \<and> (ok \<longrightarrow> list_pages bs = range_pages base len)"

lemma cut_into_Nil: "\<not> ok \<or> unat len div 4096 = 0 \<Longrightarrow> cut_into zi base len ok []"
  by (auto simp: cut_into_def range_pages_def)

lemma split_loop_quiet:
  "kernel_heap hp owns \<Longrightarrow> blocks_ok owns bd B \<Longrightarrow> cut_ok zi base rest \<Longrightarrow> i \<le> 10 \<or> rest = 0 \<Longrightarrow>
   split_loop hp zi flags i base rest bd = (ok, bs, bd') \<Longrightarrow> quiet owns bd B bd' B \<and> cut_into zi base rest ok bs"
proof (induction hp zi flags i base rest bd arbitrary: ok bs bd' rule: split_loop.induct)
  case (1 hp zi flags i base rest bd)
  note IH = "1.IH" and prems = "1.prems" and heap = "1.prems"(1)
  let ?t = "get_pblk_size (10 - i)"
  have t: "unat ?t = 4096 * 2 ^ (10 - i)" by (rule get_pblk_size_unat) simp
  note unf = split_loop.simps[of hp zi flags i base rest bd] Let_def BUDDY_MAX_ORDER_def
  show ?case
  proof (cases "i > 10 \<or> \<not> ?t \<le> rest")
    case True
    show ?thesis
    proof (cases "i > 10")
      case True
      then have "bs = []" "bd' = bd" using prems(5) by (simp_all add: unf)
      moreover have "rest = 0" using prems(4) True by simp
      ultimately show ?thesis using prems(2) by (simp add: cut_into_Nil)
    next
      case False
      with True have le: "\<not> ?t \<le> rest" by simp
      have "i + 1 \<le> 10 \<or> rest = 0"
      proof (cases "i = 10")
        case True
        with le t have "unat rest < 4096" by (simp add: word_le_nat_alt)
        then have "unat rest = 0" using prems(3) by (auto simp: cut_ok_def)
        then show ?thesis by (simp add: unat_eq_0)
      qed (use False in simp)
      from IH(2)[OF _ refl _ prems(1-3) this] False le show ?thesis
        using prems(5) by (simp add: unf)
    qed
  next
    case False
    then have i: "i \<le> 10" "?t \<le> rest" by auto
    obtain p s1 where n1: "ho_new hp PAGE_BLOCK_SIZE bd = (p, s1)" by fastforce
    note q1 = kernel_heap.new_quiet[OF heap prems(2) n1]
    obtain n s2 where n2: "ho_new hp PAGE_BLOCK_NODE_SIZE s1 = (n, s2)" by fastforce
    note q2 = quiet_trans[OF q1 kernel_heap.new_quiet[OF heap quiet_ok[OF q1] n2]]
    let ?b = "\<lparr>pb_zone = zi, pb_base = base, pb_len = ?t, pb_flags = flags, pb_order = 10 - i, pb_self = p, pb_node = n\<rparr>"
    note step = cut_step[where b = ?b and flags = flags and s = p and n = n, OF prems(3) i(2) _ refl]
    consider "p = 0" | "p \<noteq> 0" "n = 0" | (both) "p \<noteq> 0" "n \<noteq> 0" by blast
    then show ?thesis
    proof cases
      case both
      obtain ok' bs' s3 where r: "split_loop hp zi flags i (base + ?t) (rest - ?t) s2 = (ok', bs', s3)"
        by (cases "split_loop hp zi flags i (base + ?t) (rest - ?t) s2") auto
      have eq: "ok = ok'" "bs = ?b # bs'" "bd' = s3"
        using prems(5) i both n1 n2 r by (simp_all add: unf)
      have "quiet owns s2 B s3 B \<and> cut_into zi (base + ?t) (rest - ?t) ok' bs'"
        using IH(1)[OF _ refl _ n1[symmetric] refl both(1) n2[symmetric] refl both(2) heap quiet_ok[OF q2] _ _ ]
          i step(3) r by (simp add: BUDDY_MAX_ORDER_def)
      then show ?thesis using quiet_trans[OF q2] step by (auto simp: eq cut_into_def)
    qed (use prems(5) i n1 n2 q1 quiet_trans[OF q2 kernel_heap.delete_quiet[OF heap quiet_ok[OF q2]]] in
         \<open>auto simp: unf cut_into_Nil\<close>)
  qed
qed

section \<open>Allocation and release\<close>

lemma block_count_eq: "block_count b = 2 ^ pb_order b"
  by (simp add: block_count_def push_bit_eq_mult)

lemma pages_of_member: "b \<in> set ls \<Longrightarrow> pages b \<subseteq># list_pages ls"
  by (induction ls) (auto intro: subset_mset.add_increasing2 subset_mset.add_increasing)

lemma base_not_used:
  assumes "blocks_ok owns bd (add_mset b B)"
  shows "pb_base b \<notin> pb_base ` set (bd_used bd)"
proof
  assume "pb_base b \<in> pb_base ` set (bd_used bd)"
  then obtain u where u: "u \<in> set (bd_used bd)" "pb_base u = pb_base b" by auto
  let ?p = "first_page b"
  have "?p \<in># pages b" "?p \<in># pages u" using u(2) by (simp_all add: mem_pages first_page_def)
  then have "?p \<in># list_pages (bd_used bd)" using pages_of_member[OF u(1)] by (blast dest: mset_subset_eqD)
  then have "1 \<le> count (list_pages (bd_used bd)) ?p" "1 \<le> count (pages b) ?p"
    using \<open>?p \<in># pages b\<close> by (auto simp only: count_greater_eq_one_iff)
  moreover have "count (all_pages bd (add_mset b B)) ?p = count (all_free bd) ?p + count (list_pages (bd_used bd)) ?p +
      (count (pages b) ?p + count (\<Sum>b\<in>#B. pages b) ?p)"
    by (simp add: all_pages_def)
  ultimately have "count (all_pages bd (add_mset b B)) ?p \<ge> 2" by linarith
  moreover have "count (all_pages bd (add_mset b B)) ?p \<le> 1" using assms unfolding blocks_ok_def by blast
  ultimately show False by simp
qed

lemma take_block_ok:
  assumes "blocks_ok owns bd (add_mset b B)" "take_block (pb_zone b) b bd = (r, bd')"
  shows "r = Some b" "balanced owns bd (add_mset b B) bd' B" "clients owns bd' = add_mset b (clients owns bd)"
proof -
  have bd': "bd' = snd (take_block (pb_zone b) b bd)" and r: "r = Some b"
    using assms(2) by (simp_all add: take_block_def Let_def)
  have f: "fa_of bd' zi k = fa_of bd zi k" "bd_used bd' = bd_used bd @ [b]" "bd_heap bd' = bd_heap bd" for zi k
    by (simp_all add: bd' take_block_def Let_def)
  have fp: "free_pages bd' = free_pages bd" "all_free bd' = all_free bd"
    by (simp_all add: fun_eq_iff free_pages_def all_free_def f)
  have z: "pb_zone b < 3" using assms(1) by (auto simp: blocks_ok_def block_ok_def)
  have n: "z_nr_free_pages (bd_zone bd' i) = z_nr_free_pages (bd_zone bd i) - (if i = pb_zone b then 2 ^ pb_order b else 0)"
    "bd_nr_free_pages bd' = bd_nr_free_pages bd - 2 ^ pb_order b" for i
    by (simp_all add: bd' take_block_def Let_def block_count_eq)
  have "slack bd' z = slack bd z - weight b z" for z
    using z by (auto simp: slack_def weight_def fp n)
  then have g: "gap bd' B = gap bd (add_mset b B)" by (simp add: gap_def fun_eq_iff)
  have p: "all_pages bd' B = all_pages bd (add_mset b B)" by (simp add: all_pages_def fp f)
  have nb: "pb_base b \<notin> owns (bd_heap bd)" using base_not_used[OF assms(1)] assms(1) by (auto simp: blocks_ok_def)
  show "r = Some b" by (rule r)
  show "balanced owns bd (add_mset b B) bd' B"
    using assms(1) g p unfolding balanced_def blocks_ok_def f by auto
  show "clients owns bd' = add_mset b (clients owns bd)" using nb by (simp add: clients_def f)
qed

lemma rest_len_unat:
  assumes "order < r" "r \<le> 10"
  shows "unat (ucast (push_bit r 1 - push_bit order 1 :: u32) * PAGE_SIZE) = 4096 * (2 ^ r - 2 ^ order)"
proof -
  have u: "unat (push_bit k 1 :: u32) = 2 ^ k" if "k \<le> 10" for k
  proof -
    have "k = 0 \<or> k = 1 \<or> k = 2 \<or> k = 3 \<or> k = 4 \<or> k = 5 \<or> k = 6 \<or> k = 7 \<or> k = 8 \<or> k = 9 \<or> k = 10"
      using that by arith
    then show ?thesis by auto
  qed
  have le: "(2::nat) ^ order \<le> 2 ^ r" using assms(1) by (simp add: power_increasing)
  then have d: "unat (push_bit r 1 - push_bit order 1 :: u32) = 2 ^ r - 2 ^ order"
    using assms u[of r] u[of order] by (subst unat_minus_le) (simp_all add: word_le_nat_alt)
  have "(2::nat) ^ r \<le> 2 ^ 10" using assms(2) by (rule power_increasing) simp
  then show ?thesis using d
    by (simp add: unat_word_ariths PAGE_SIZE_def unsigned_ucast_eq take_bit_nat_eq_self)
qed

lemma real_order_Some:
  "real_order order fa = Some r \<Longrightarrow> order \<le> r \<and> r \<le> 10 \<and> fa r \<noteq> []"
  by (auto simp: real_order_def find_Some_iff BUDDY_MAX_ORDER_def)

text \<open>Cutting a block down to a smaller order.\<close>

lemma cut_down:
  assumes "block_ok b" "pb_order b = r" "order < r"
  defines "b' \<equiv> b\<lparr>pb_order := order, pb_len := get_pblk_size order\<rparr>"
    and "rest \<equiv> ucast (push_bit r 1 - push_bit order 1 :: u32) * PAGE_SIZE"
  shows "block_ok b'" "cut_ok (pb_zone b) (pb_base b + get_pblk_size order) rest"
    "pages b = pages b' + range_pages (pb_base b + get_pblk_size order) rest"
proof -
  have r: "r \<le> 10" using assms(1,2) by (simp add: block_ok_def BUDDY_MAX_ORDER_def)
  have l: "unat (pb_len b) = 4096 * 2 ^ r" using assms(1,2) by (simp add: block_ok_def)
  have le: "(2::nat) ^ order \<le> 2 ^ r" using assms(3) by (simp add: power_increasing)
  have cut: "cut_ok (pb_zone b) (pb_base b) (pb_len b)" using assms(1) by (simp add: block_ok_def cut_ok_def)
  have size: "get_pblk_size order \<le> pb_len b" "order \<le> 10"
    using assms(3) r l le get_pblk_size_unat[of order] by (simp_all add: word_le_nat_alt)
  have "unat rest = unat (pb_len b - get_pblk_size order)"
    using rest_len_unat[OF assms(3) r] size get_pblk_size_unat[of order] l
    by (simp add: rest_def unat_minus_le diff_mult_distrib2)
  then have rest: "rest = pb_len b - get_pblk_size order" by (rule unsigned_word_eqI)
  have "b' = \<lparr>pb_zone = pb_zone b, pb_base = pb_base b, pb_len = get_pblk_size order, pb_flags = pb_flags b,
      pb_order = order, pb_self = pb_self b, pb_node = pb_node b\<rparr>"
    by (simp add: b'_def)
  note step = cut_step[OF cut size this]
  show "block_ok b'" "cut_ok (pb_zone b) (pb_base b + get_pblk_size order) rest" using step by (simp_all add: rest)
  have "pages b = range_pages (pb_base b) (pb_len b)"
    by (simp add: pages_def range_pages_def first_page_def l assms(2))
  then show "pages b = pages b' + range_pages (pb_base b + get_pblk_size order) rest" using step(4) by (simp add: rest)
qed

text \<open>The outcome of an allocation attempt on the zones up to \<open>zi\<close>.\<close>

definition handed ::
    "('h \<Rightarrow> u64 set) \<Rightarrow> nat \<Rightarrow> nat \<Rightarrow> 'h buddy \<Rightarrow> page_block option \<times> 'h buddy \<Rightarrow> bool" where
  "handed owns zi order bd res =
    (case res of
       (None, bd') \<Rightarrow> quiet owns bd {#} bd' {#}
     | (Some b, bd') \<Rightarrow> balanced owns bd {#} bd' {#} \<and> clients owns bd' = add_mset b (clients owns bd) \<and>
         block_ok b \<and> pb_zone b \<le> zi \<and> pb_order b = order)"

lemma handed_take:
  assumes "quiet owns bd {#} s {#b#}" "pb_zone b = zi" "pb_order b = order"
  shows "handed owns zi order bd (take_block zi b s)"
proof -
  obtain r bd' where t: "take_block zi b s = (r, bd')" by fastforce
  note h = take_block_ok[OF quiet_ok[OF assms(1)] t[folded assms(2)]]
  have "block_ok b" using quiet_ok[OF assms(1)] by (simp add: blocks_ok_def)
  then show ?thesis using assms h t by (simp add: handed_def quiet_def balanced_def)
qed

context kernel_heap begin

lemma zone_alloc_handed:
  assumes "blocks_ok owns bd {#}" "zi < 3" "order \<le> 10"
  shows "handed owns zi order bd (zone_alloc hp zi order bd)"
proof (cases "real_order order (fa_of bd zi)")
  case None
  then show ?thesis using assms(1) by (simp add: zone_alloc_def handed_def)
next
  case (Some r)
  define b s where "b = hd (fa_of bd zi r)" and "s = put_area zi r (tl (fa_of bd zi r)) bd"
  have r: "order \<le> r" "r \<le> 10" "fa_of bd zi r \<noteq> []" using real_order_Some[OF Some] by auto
  have "b \<in> set (fa_of bd zi r)" using r(3) by (simp add: b_def)
  note b = list_block_bounds[OF assms(1) this]
  have q: "quiet owns bd {#} s {#b#}" unfolding s_def b_def
    using r(3) by (intro remove_quiet[OF assms(1)]) (cases "fa_of bd zi r", auto)
  note unf = zone_alloc_def Let_def b_def[symmetric] s_def[symmetric]
  show ?thesis
  proof (cases "r > order")
    case False
    then show ?thesis using handed_take[OF q b(2)] b(3) r(1) Some by (simp add: unf)
  next
    case True
    let ?b = "b\<lparr>pb_order := order, pb_len := get_pblk_size order\<rparr>"
    note cut = cut_down[OF b(1,3) True]
    obtain ok bs s2 where sp: "split_loop hp zi (pb_flags b) 0 (pb_base b + get_pblk_size order)
        (ucast (push_bit r 1 - push_bit order 1 :: u32) * PAGE_SIZE) s = (ok, bs, s2)"
      by (cases "split_loop hp zi (pb_flags b) 0 (pb_base b + get_pblk_size order)
        (ucast (push_bit r 1 - push_bit order 1 :: u32) * PAGE_SIZE) s") auto
    have "quiet owns s {#b#} s2 {#b#}" and into: "cut_into zi (pb_base b + get_pblk_size order)
        (ucast (push_bit r 1 - push_bit order 1 :: u32) * PAGE_SIZE) ok bs"
      using split_loop_quiet[OF kernel_heap_axioms quiet_ok[OF q] _ _ sp] cut(2) b(2) by simp_all
    then have q2: "quiet owns bd {#} s2 {#b#}" using quiet_trans[OF q] by simp
    show ?thesis
    proof (cases ok)
      case True
      have pg: "(\<Sum>x\<in>#mset (?b # bs). pages x) = (\<Sum>x\<in>#{#b#}. pages x)"
        using into True cut(3) by (simp add: cut_into_def flip: list_pages_mset)
      have "\<And>x. x \<in># mset (?b # bs) \<Longrightarrow> block_ok x \<and> pb_zone x = zi"
        using into cut(1) b(2) by (auto simp: cut_into_def)
      from rehand_zone[where B = "{#}", OF _ this _ pg] have "quiet owns s2 {#b#} s2 (mset bs + {#?b#})"
        using quiet_ok[OF q2] b(2) by simp
      note q3 = quiet_trans[OF q2 this]
      note q4 = quiet_trans[OF q3 fold_base_free_quiet[OF quiet_ok[OF q3]]]
      show ?thesis using handed_take[OF q4] True \<open>r > order\<close> Some sp b(2) by (simp add: unf)
    next
      case False
      note q3 = quiet_trans[OF q2 delete_splits_quiet[OF quiet_ok[OF q2], of bs]]
      note q4 = quiet_trans[OF q3 insert_block_quiet[OF quiet_ok[OF q3]]]
      then show ?thesis using False \<open>r > order\<close> Some sp by (simp add: unf handed_def)
    qed
  qed
qed

lemma alloc_from_handed:
  "blocks_ok owns bd {#} \<Longrightarrow> zi < 3 \<Longrightarrow> order \<le> 10 \<Longrightarrow> handed owns zi order bd (alloc_from hp order zi bd)"
proof (induction zi arbitrary: bd)
  case 0
  then show ?case using zone_alloc_handed by simp
next
  case (Suc zi)
  obtain r s where r: "zone_alloc hp (Suc zi) order bd = (r, s)" by fastforce
  have h: "handed owns (Suc zi) order bd (r, s)" using zone_alloc_handed[OF Suc.prems] r by simp
  show ?case
  proof (cases r)
    case None
    then have q: "quiet owns bd {#} s {#}" using h by (simp add: handed_def)
    have "handed owns zi order s (alloc_from hp order zi s)" using Suc.IH[OF quiet_ok[OF q]] Suc.prems by simp
    then show ?thesis using q r None quiet_trans[OF q]
      by (auto simp: handed_def quiet_def balanced_def split: prod.splits option.splits)
  qed (use r h in simp)
qed

end

text \<open>Taking a used block back into the hand, and counting it as free once it is in its list.\<close>

lemma release_used:
  assumes "blocks_ok owns bd {#}" "b \<in> set (bd_used bd)" "pb_base b \<notin> owns (bd_heap bd)"
  defines "s \<equiv> bd\<lparr>bd_used := remove1 b (bd_used bd)\<rparr>"
  shows "blocks_ok owns s {#b#}" "all_pages s {#b#} = all_pages bd {#}" "slack s = slack bd"
    "add_mset b (clients owns s) = clients owns bd"
proof -
  have m: "mset (bd_used bd) = add_mset b (mset (remove1 b (bd_used bd)))" using assms(2) by simp
  have lp: "list_pages (bd_used bd) = list_pages (remove1 b (bd_used bd)) + pages b"
    unfolding list_pages_mset m by simp
  have f: "free_pages s = free_pages bd" "all_free s = all_free bd"
    by (simp_all add: s_def free_pages_def all_free_def fun_eq_iff)
  then show p: "all_pages s {#b#} = all_pages bd {#}"
    using lp by (simp add: all_pages_def s_def)
  show "slack s = slack bd" using f by (simp add: slack_def fun_eq_iff s_def)
  show "add_mset b (clients owns s) = clients owns bd"
    unfolding clients_def m using assms(3) by (simp add: s_def)
  have "owns (bd_heap bd) \<subseteq> pb_base ` set (remove1 b (bd_used bd))"
  proof
    fix x assume x: "x \<in> owns (bd_heap bd)"
    then obtain u where "u \<in> set (bd_used bd)" "pb_base u = x" using assms(1) by (auto simp: blocks_ok_def)
    moreover have "u \<noteq> b" using x assms(3) calculation by auto
    ultimately show "x \<in> pb_base ` set (remove1 b (bd_used bd))" by (auto simp: in_set_remove1)
  qed
  then show "blocks_ok owns s {#b#}"
    using assms(1,2) p unfolding blocks_ok_def by (auto simp: s_def dest: notin_set_remove1)
qed

lemma count_free:
  fixes s :: "'h buddy"
  assumes "pb_zone b < 3"
  defines "t \<equiv> s\<lparr>bd_zone := (bd_zone s)(pb_zone b := (bd_zone s (pb_zone b))\<lparr>z_nr_free_pages :=
            z_nr_free_pages (bd_zone s (pb_zone b)) + block_count b\<rparr>),
         bd_nr_free_pages := bd_nr_free_pages s + block_count b\<rparr>"
  shows "blocks_ok owns t B = blocks_ok owns s B" "all_pages t B = all_pages s B"
    "clients owns t = clients owns s" "slack t z = slack s z + weight b z"
proof -
  have f: "fa_of t zi k = fa_of s zi k" "bd_used t = bd_used s" "bd_heap t = bd_heap s" for zi k
    by (simp_all add: t_def)
  have fp: "free_pages t = free_pages s" "all_free t = all_free s"
    by (simp_all add: fun_eq_iff free_pages_def all_free_def f)
  then show p: "all_pages t B = all_pages s B" for B by (simp add: all_pages_def f)
  then show "blocks_ok owns t B = blocks_ok owns s B" by (simp add: blocks_ok_def f)
  show "clients owns t = clients owns s" by (simp add: clients_def f)
  have n: "z_nr_free_pages (bd_zone t i) = z_nr_free_pages (bd_zone s i) + (if i = pb_zone b then 2 ^ pb_order b else 0)"
    "bd_nr_free_pages t = bd_nr_free_pages s + 2 ^ pb_order b" for i
    by (simp_all add: t_def block_count_eq)
  show "slack t z = slack s z + weight b z" using assms(1) by (auto simp: slack_def weight_def fp n)
qed

context kernel_heap begin

lemma zone_free_ok:
  assumes "blocks_ok owns s {#b#}"
  shows "blocks_ok owns (zone_free hp b s) {#}" "all_pages (zone_free hp b s) {#} = all_pages s {#b#}"
    "slack (zone_free hp b s) = slack s" "clients owns (zone_free hp b s) = clients owns s"
proof -
  have z: "pb_zone b < 3" using assms by (auto simp: blocks_ok_def block_ok_def)
  have q: "quiet owns s {#b#} (base_free hp b s) {#}" using base_free_quiet[of s b "{#}"] assms by simp
  have "slack (base_free hp b s) z = slack s z - weight b z" for z
    using q by (simp add: quiet_def balanced_def gap_def fun_eq_iff)
  then show "blocks_ok owns (zone_free hp b s) {#}" "all_pages (zone_free hp b s) {#} = all_pages s {#b#}"
    "slack (zone_free hp b s) = slack s" "clients owns (zone_free hp b s) = clients owns s"
    using q unfolding zone_free_def Let_def count_free[OF z] fun_eq_iff by (auto simp: quiet_def balanced_def)
qed

end

end
