(* ===== verification/Buddy_Iface.thy ===== *)
theory Buddy_Iface
  imports Buddy_Correct
begin

lemma page_frame:
  assumes "4096 dvd unat p" "unat p < 2 ^ 52"
  shows "frame_of p = p"
proof (rule bit_word_eqI)
  fix n assume n: "n < LENGTH(64)"
  have m: "PAGING_DESCRIPTOR_ADDR_MASK = push_bit 12 (mask 40 :: u64)"
    by (simp add: PAGING_DESCRIPTOR_ADDR_MASK_def mask_eq_exp_minus_1)
  have "12 \<le> n \<and> n < 52" if b: "bit p n"
  proof -
    have o: "odd (unat p div 2 ^ n)" using b by (simp add: bit_unsigned_iff flip: bit_iff_odd)
    have "12 \<le> n"
    proof (rule ccontr)
      assume "\<not> 12 \<le> n"
      then have "(4096::nat) = 2 * 2 ^ (11 - n) * 2 ^ n" by (simp flip: power_add power_Suc)
      then have "\<exists>c. unat p = (2 * c) * 2 ^ n" using assms(1) by (metis dvdE mult.assoc mult.commute)
      then show False using o by auto
    qed
    moreover have "n < 52"
    proof (rule ccontr)
      assume "\<not> n < 52"
      then have "(2::nat) ^ 52 \<le> 2 ^ n" by (intro power_increasing) auto
      then have "unat p div 2 ^ n = 0" using assms(2) by (intro div_less) linarith
      then show False using o by simp
    qed
    ultimately show ?thesis by simp
  qed
  then show "bit (frame_of p) n = bit p n" using n by (auto simp: m bit_simps)
qed


section \<open>The allocator as a whole\<close>

text \<open>The invariant between operations: the blocks are well formed, no page is in two places, and the
  free-page counters of the zones and of the system are exact (modulo their width).\<close>

definition buddy_inv :: "('h \<Rightarrow> u64 set) \<Rightarrow> 'h buddy \<Rightarrow> bool" where
  "buddy_inv owns bd \<longleftrightarrow> blocks_ok owns bd {#} \<and> slack bd = (\<lambda>_. 0)"

definition buddy_frees :: "('h \<Rightarrow> u64 set) \<Rightarrow> 'h buddy \<Rightarrow> u64 set" where
  "buddy_frees owns bd = {p. \<forall>b\<in>#clients owns bd. pb_base b \<noteq> p}"

definition buddy_ops :: "'h heap_ops \<Rightarrow> 'h buddy frame_ops" where
  "buddy_ops hp = \<lparr>fo_alloc = alloc_physical_order hp 0 0, fo_free = free_physical_order hp\<rparr>"

lemma slack_zero: "balanced owns bd {#} bd' {#} \<Longrightarrow> slack bd' = slack bd"
  by (simp add: balanced_def gap_def fun_eq_iff)

lemma clients_used: "b \<in># clients owns bd \<Longrightarrow> b \<in> set (bd_used bd) \<and> pb_base b \<notin> owns (bd_heap bd)"
  by (simp add: clients_def)

text \<open>A block a client holds: it is found by its address, and shares no page with any other.\<close>

lemma client_block:
  assumes "blocks_ok owns bd {#}" "b \<in># clients owns bd"
  shows "find (\<lambda>x. pb_base x = pb_base b) (bd_used bd) = Some b" "pb_base b \<noteq> 0" "block_ok b"
    "c \<in># clients owns bd - {#b#} \<Longrightarrow> pb_base c \<noteq> pb_base b \<and> pages b \<inter># pages c = {#}"
proof -
  have b: "b \<in> set (bd_used bd)" "pb_base b \<notin> owns (bd_heap bd)" using clients_used[OF assms(2)] by auto
  define s where "s = bd\<lparr>bd_used := remove1 b (bd_used bd)\<rparr>"
  note rel = release_used[OF assms(1) b, folded s_def]
  have used: "bd_used s = remove1 b (bd_used bd)" by (simp add: s_def)
  have other: "x = b" if "x \<in> set (bd_used bd)" "pb_base x = pb_base b" for x
    using base_not_used[OF rel(1)] that unfolding used by (metis image_eqI in_set_remove1)
  have "find (\<lambda>x. pb_base x = pb_base b) (bd_used bd) \<noteq> None" using b(1) by (auto simp: find_None_iff)
  then obtain x where x: "find (\<lambda>x. pb_base x = pb_base b) (bd_used bd) = Some x" by blast
  then have "x \<in> set (bd_used bd)" "pb_base x = pb_base b" by (auto simp: find_Some_iff)
  then show "find (\<lambda>x. pb_base x = pb_base b) (bd_used bd) = Some b" using other x by simp
  show "block_ok b" using rel(1) by (simp add: blocks_ok_def)
  have "0 \<notin># pages b" using rel(1) by (auto simp: blocks_ok_def all_pages_def)
  then show "pb_base b \<noteq> 0" by (auto simp: mem_pages first_page_def)
  assume "c \<in># clients owns bd - {#b#}"
  then have "c \<in># clients owns s" using rel(4) by (metis add_mset_remove_trivial)
  then have c: "c \<in> set (bd_used s)" using clients_used by blast
  have "count (pages b) p = 0 \<or> count (pages c) p = 0" for p
  proof -
    have "count (pages c) p \<le> count (list_pages (bd_used s)) p"
      using pages_of_member[OF c] by (rule mset_subset_eq_count)
    moreover have "count (all_pages s {#b#}) p \<le> 1" using rel(1) by (simp add: blocks_ok_def)
    moreover have "count (all_pages s {#b#}) p =
        count (all_free s) p + count (list_pages (bd_used s)) p + count (pages b) p"
      by (simp add: all_pages_def)
    ultimately show ?thesis by linarith
  qed
  then have "pages b \<inter># pages c = {#}" by (intro multiset_eqI) (metis count_empty count_inter_mset min_0L min_0R)
  moreover have "pb_base c \<noteq> pb_base b" using base_not_used[OF rel(1)] c by (metis image_eqI)
  ultimately show "pb_base c \<noteq> pb_base b \<and> pages b \<inter># pages c = {#}" by simp
qed

lemma pick_zone_le: "pick_zone n i bd = Some j \<Longrightarrow> j \<le> i"
  by (induction n i bd rule: pick_zone.induct) (auto split: if_splits)

lemma zone_index_less: "zone_index gfm < 3"
  by (simp add: zone_index_def ZONE_DMA32_def ZONE_DMA_def ZONE_NORMAL_def)

lemma zone_high_mono: "i \<le> j \<Longrightarrow> j < 3 \<Longrightarrow> zone_high i \<le> zone_high j"
  by (auto simp: zone_high_def ZONE_DMA32_def ZONE_DMA_def)

lemma handed_block:
  assumes "handed owns zi order bd (Some b, bd')"
  shows "b \<in># clients owns bd'" "blocks_ok owns bd' {#}"
  using assms by (simp_all add: handed_def balanced_def)

context kernel_heap begin

lemma alloc_cases:
  assumes "blocks_ok owns bd {#}" "alloc_physical_order hp order gfm bd = (p, bd')"
  obtains (none) "p = 0" "quiet owns bd {#} bd' {#}"
    | (some) b where "p = pb_base b" "p \<noteq> 0" "balanced owns bd {#} bd' {#}"
        "clients owns bd' = add_mset b (clients owns bd)" "block_ok b" "pb_zone b \<le> zone_index gfm" "pb_order b = order"
proof -
  consider "(p, bd') = (0, bd)"
    | i where "order \<le> 10" "pick_zone (push_bit order 1) (zone_index gfm) bd = Some i"
        "(p, bd') = (case alloc_from hp order i bd of (None, s) \<Rightarrow> (0, s) | (Some b, s) \<Rightarrow> (pb_base b, s))"
    using assms(2) by (auto simp: alloc_physical_order_def BUDDY_MAX_ORDER_def split: if_splits option.splits)
  then show thesis
  proof cases
    case 1
    then show thesis using none assms(1) by simp
  next
    case 2
    have i: "i \<le> zone_index gfm" "i < 3" using pick_zone_le[OF 2(2)] zone_index_less[of gfm] by auto
    obtain r s where rs: "alloc_from hp order i bd = (r, s)" by fastforce
    have h: "handed owns i order bd (r, s)" using alloc_from_handed[OF assms(1) i(2) 2(1)] rs by simp
    show thesis
    proof (cases r)
      case None
      then show thesis using none 2(3) rs h by (simp add: handed_def)
    next
      case (Some b)
      then have "p = pb_base b" "bd' = s" using 2(3) rs by simp_all
      moreover have "pb_base b \<noteq> 0" using client_block(2) handed_block[of owns i order bd b s] h Some by blast
      ultimately show thesis using some[of b] h Some i(1) by (simp add: handed_def)
    qed
  qed
qed

lemma free_client:
  assumes "blocks_ok owns bd {#}" "b \<in># clients owns bd"
  defines "bd' \<equiv> free_physical_order hp (pb_base b) bd"
  shows "blocks_ok owns bd' {#}" "all_pages bd' {#} = all_pages bd {#}" "slack bd' = slack bd"
    "clients owns bd = add_mset b (clients owns bd')"
proof -
  note cb = client_block[OF assms(1,2)]
  note cu = clients_used[OF assms(2)]
  let ?s = "bd\<lparr>bd_used := remove1 b (bd_used bd)\<rparr>"
  have e: "bd' = zone_free hp b ?s" using cb(1,2) by (simp add: bd'_def free_physical_order_def)
  note rel = release_used[OF assms(1) cu[THEN conjunct1] cu[THEN conjunct2]]
  show "blocks_ok owns bd' {#}" "all_pages bd' {#} = all_pages bd {#}" "slack bd' = slack bd"
    "clients owns bd = add_mset b (clients owns bd')"
    using zone_free_ok[OF rel(1)] rel(2-4) by (simp_all add: e)
qed

end

sublocale kernel_heap \<subseteq> frames: frame_allocator "buddy_ops hp" "buddy_inv owns" "buddy_frees owns"
proof (unfold_locales, goal_cases)
  case (1 h p h')
  then have ok: "blocks_ok owns h {#}" and a: "alloc_physical_order hp 0 0 h = (p, h')"
    by (simp_all add: buddy_inv_def buddy_ops_def)
  from ok a show ?case
  proof (cases rule: alloc_cases)
    case none
    then show ?thesis using 1(1) slack_zero[of owns h h'] by (auto simp: quiet_def balanced_def buddy_inv_def buddy_frees_def)
  next
    case (some b)
    have inv: "buddy_inv owns h'" using 1(1) slack_zero[OF some(3)] some(3) by (simp add: buddy_inv_def balanced_def)
    have "frame_of p = p" using block_end(2,3)[OF some(5)] some(1,7) by (intro page_frame) auto
    moreover have "p \<in> buddy_frees owns h"
      using client_block(4)[of owns h' b] inv some(1,4) by (auto simp: buddy_frees_def buddy_inv_def)
    ultimately show ?thesis using inv some by (auto simp: buddy_frees_def)
  qed
next
  case (2 h p)
  then obtain b where b: "b \<in># clients owns h" "pb_base b = p" by (auto simp: buddy_frees_def)
  have ok: "blocks_ok owns h {#}" using 2(1) by (simp add: buddy_inv_def)
  show ?case using free_client[OF ok b(1)] 2(1) b(2) by (auto simp: buddy_inv_def buddy_ops_def buddy_frees_def)
qed

end
