(* ===== verification/Buddy_Boot.thy ===== *)
theory Buddy_Boot
  imports Buddy_Correct User_Mem
begin

text \<open>
  Filling the page allocator at boot (\<^verbatim>\<open>kernel/mm/buddy.cc\<close>): the arena the first block records come from, the
  memory map, and \<^verbatim>\<open>handle_ards\<close>, which cuts a usable region at the low memory limit, the kernel image and the
  zone limits and files the pieces as free blocks. A halt of the machine is the result \<open>None\<close>.
\<close>

section \<open>The metadata arena\<close>

definition EARLY_METADATA_PAGE_BLOCK_CAPACITY :: u32 where "EARLY_METADATA_PAGE_BLOCK_CAPACITY = 128 * 128"
definition EARLY_METADATA_LIST_NODE_CAPACITY :: u32 where "EARLY_METADATA_LIST_NODE_CAPACITY = EARLY_METADATA_PAGE_BLOCK_CAPACITY"
definition EARLY_METADATA_ALIGNMENT :: u64 where "EARLY_METADATA_ALIGNMENT = 16"

definition align_up_const :: "u64 \<Rightarrow> u64 \<Rightarrow> u64" where
  "align_up_const v alignment = (v + alignment - 1) AND NOT (alignment - 1)"

definition EARLY_METADATA_ARENA_BYTES :: u64 where
  "EARLY_METADATA_ARENA_BYTES =
     ucast EARLY_METADATA_PAGE_BLOCK_CAPACITY * align_up_const PAGE_BLOCK_SIZE EARLY_METADATA_ALIGNMENT +
     ucast EARLY_METADATA_LIST_NODE_CAPACITY * align_up_const PAGE_BLOCK_NODE_SIZE EARLY_METADATA_ALIGNMENT"

definition arena_init :: "u64 \<Rightarrow> u64 \<Rightarrow> metadata_arena" where
  "arena_init base capacity = \<lparr>ar_base = base, ar_capacity = capacity, ar_used = 0, ar_high_water = 0,
     ar_page_blocks = 0, ar_list_nodes = 0, ar_sealed = False\<rparr>"

definition arena_seal :: "metadata_arena \<Rightarrow> metadata_arena" where
  "arena_seal a = a\<lparr>ar_sealed := True\<rparr>"

definition arena_alloc :: "u64 \<Rightarrow> u64 \<Rightarrow> metadata_arena \<Rightarrow> u64 \<times> metadata_arena" where
  "arena_alloc sz alignment a =
    (if ar_sealed a \<or> alignment = 0 then (0, a)
     else
       (let current = ar_base a + ar_used a;
            aligned = (current + alignment - 1) AND NOT (alignment - 1);
            new_used = aligned - ar_base a + sz
        in if new_used > ar_capacity a then (0, a)
           else (aligned, a\<lparr>ar_used := new_used, ar_high_water := max new_used (ar_high_water a)\<rparr>)))"

definition alloc_page_block :: "metadata_arena \<Rightarrow> u64 \<times> metadata_arena" where
  "alloc_page_block a =
    (if ar_page_blocks a \<ge> EARLY_METADATA_PAGE_BLOCK_CAPACITY then (0, a)
     else
       (let (storage, a) = arena_alloc PAGE_BLOCK_SIZE 8 a
        in if storage = 0 then (0, a) else (storage, a\<lparr>ar_page_blocks := ar_page_blocks a + 1\<rparr>)))"

definition alloc_page_block_node :: "metadata_arena \<Rightarrow> u64 \<times> metadata_arena" where
  "alloc_page_block_node a =
    (if ar_list_nodes a \<ge> EARLY_METADATA_LIST_NODE_CAPACITY then (0, a)
     else
       (let (storage, a) = arena_alloc PAGE_BLOCK_NODE_SIZE 8 a
        in if storage = 0 then (0, a) else (storage, a\<lparr>ar_list_nodes := ar_list_nodes a + 1\<rparr>)))"

definition new_bootstrap_page_block :: "metadata_arena \<Rightarrow> (u64 \<times> metadata_arena) option" where
  "new_bootstrap_page_block a = (let (p, a) = alloc_page_block a in if p = 0 then None else Some (p, a))"

definition new_bootstrap_page_block_node :: "metadata_arena \<Rightarrow> (u64 \<times> metadata_arena) option" where
  "new_bootstrap_page_block_node a = (let (p, a) = alloc_page_block_node a in if p = 0 then None else Some (p, a))"

section \<open>Usable regions\<close>

definition KERNEL_BASE :: u64 where "KERNEL_BASE = 0x1000000"
definition DMA_LIMIT :: u64 where "DMA_LIMIT = 0x1000000"
definition DMA32_LIMIT :: u64 where "DMA32_LIMIT = 0x100000000"
definition LOWEST_LIMIT :: u64 where "LOWEST_LIMIT = 0x200000"

definition kernel_end_addr :: "u32 \<Rightarrow> u64" where
  "kernel_end_addr kernel_size = (ucast kernel_size + PAGE_SIZE - 1) div PAGE_SIZE * PAGE_SIZE + KERNEL_BASE"

function fill_loop :: "'h heap_ops \<Rightarrow> nat \<Rightarrow> nat \<Rightarrow> u64 \<Rightarrow> u64 \<Rightarrow> 'h buddy \<Rightarrow> 'h buddy option" where
  "fill_loop hp zi i base len bd =
    (if i > BUDDY_MAX_ORDER then Some bd
     else
       (let pblk_size = get_pblk_size (BUDDY_MAX_ORDER - i) in
        if len \<ge> pblk_size then
          (case new_bootstrap_page_block (bd_arena bd) of
             None \<Rightarrow> None
           | Some (pblk, a) \<Rightarrow>
             (case new_bootstrap_page_block_node a of
                None \<Rightarrow> None
              | Some (node, a) \<Rightarrow>
                fill_loop hp zi i (base + pblk_size) (len - pblk_size)
                  (new_free hp \<lparr>pb_zone = zi, pb_base = base, pb_len = pblk_size, pb_flags = 0,
                                pb_order = BUDDY_MAX_ORDER - i, pb_self = pblk, pb_node = node\<rparr>
                    (bd\<lparr>bd_arena := a\<rparr>))))
        else fill_loop hp zi (i + 1) base len bd))"
  by pat_completeness auto
termination
proof (relation "measures [\<lambda>(hp, zi, i, base, len, bd). Suc BUDDY_MAX_ORDER - i,
                           \<lambda>(hp, zi, i, base, len, bd). unat len]", goal_cases)
  case (2 hp zi i base len bd x)
  then have "unat x \<le> unat len" "0 < unat x"
    by (simp_all add: word_le_nat_alt get_pblk_size_unat BUDDY_MAX_ORDER_def)
  then have "unat (len - x) < unat len" by (simp add: unat_minus_le word_le_nat_alt)
  then show ?case by simp
qed auto
declare fill_loop.simps [simp del]

text \<open>The page alignment at the head of \<^verbatim>\<open>handle_ards\<close>; \<open>None\<close> if nothing is left.\<close>

definition align_region :: "u64 \<Rightarrow> u64 \<Rightarrow> (u64 \<times> u64) option" where
  "align_region base len =
    (let clip = (\<lambda>l. if l mod PAGE_SIZE \<noteq> 0 then l AND 0xfffffffffffff000 else l) in
     if base mod PAGE_SIZE \<noteq> 0 then
       (let aligned_base = (base AND 0xfffffffffffff000) + PAGE_SIZE; drop_size = aligned_base - base
        in if len \<le> drop_size then None else Some (aligned_base, clip (len - drop_size)))
     else Some (base, clip len))"

lemma align_region_len: "align_region base len = Some (b, l) \<Longrightarrow> unat l \<le> unat len"
proof -
  have clip: "unat (x AND 0xfffffffffffff000) \<le> unat x" for x :: u64
    by (simp add: word_and_le1 word_and_le2 flip: word_le_nat_alt)
  have sub: "unat (len - d) \<le> unat len" if "\<not> len \<le> d" for d
    using that by (simp add: unat_minus_le)
  assume "align_region base len = Some (b, l)"
  then show ?thesis using clip sub order_trans
    by (fastforce simp: align_region_def Let_def split: if_splits)
qed

lemma kernel_end_unat:
  "unat (kernel_end_addr ks) = (unat ks + 4095) div 4096 * 4096 + 0x1000000"
proof -
  define k w where "k = (unat ks + 4095) div 4096" and "w = ((ucast ks + PAGE_SIZE - 1) div PAGE_SIZE :: u64)"
  have b: "unat ks < 4294967296" by (rule u32_bound)
  then have "unat ks < 18446744073709551616" by linarith
  then have u: "unat (ucast ks :: u64) = unat ks" by (simp add: unsigned_ucast_eq take_bit_nat_eq_self_iff)
  have "unat ks + 4095 < 18446744073709551616" using b by linarith
  then have "unat (ucast ks + 4095 :: u64) = unat ks + 4095" using u by (subst unat_plus_if_no_wrap) simp_all
  moreover have "w = (ucast ks + 4095) div 4096" by (simp add: w_def PAGE_SIZE_def add.commute)
  ultimately have w: "unat w = k" by (simp add: k_def unat_div)
  have "k * 4096 \<le> unat ks + 4095" unfolding k_def by (rule div_times_less_eq_dividend)
  then have k: "k * 4096 < 4294971392" using b by linarith
  then have "unat (w * PAGE_SIZE) = k * 4096" by (simp add: unat_word_ariths w PAGE_SIZE_def)
  then have "unat (w * PAGE_SIZE + KERNEL_BASE) = k * 4096 + 0x1000000"
    using k by (subst unat_plus_if_no_wrap) (simp_all add: KERNEL_BASE_def)
  then show ?thesis by (simp add: kernel_end_addr_def w_def k_def)
qed

lemma kernel_end_ge: "KERNEL_BASE \<le> kernel_end_addr ks"
  by (simp add: word_le_nat_alt kernel_end_unat KERNEL_BASE_def)

lemma unat_sum_end: "(b :: u64) < b + l \<Longrightarrow> unat (b + l) = unat b + unat l"
proof (rule unat_plus_if_no_wrap, rule ccontr)
  assume b: "b < b + l" and n: "\<not> unat b + unat l < 2 ^ LENGTH(64)"
  have "unat b < 18446744073709551616" "unat l < 18446744073709551616"
    using unsigned_less[of b, where 'a = nat] unsigned_less[of l, where 'a = nat] by simp_all
  moreover have "unat (b + l) = (unat b + unat l) mod 18446744073709551616" by (simp add: unat_word_ariths)
  ultimately have "unat (b + l) = unat b + unat l - 18446744073709551616" using n by (simp add: mod_if)
  then show False using b \<open>unat l < _\<close> by (simp add: word_less_nat_alt)
qed

lemma shrink_end:
  assumes "(b :: u64) < b + l" "b < c" "c < b + l"
  shows "unat (b + l - c) < unat l" "unat (c - b) < unat l"
  using assms unat_sum_end[OF assms(1)] by (simp_all add: unat_minus_le word_less_nat_alt word_le_nat_alt)

lemma region_shrinks:
  assumes "align_region base0 len0 = Some (b, l)" "\<not> b + l \<le> b" "b < c" "c < b + l"
  shows "unat (b + l - c) < unat len0" "unat (c - b) < unat len0"
proof -
  have "b < b + l" using assms(2) by (simp only: not_le)
  from shrink_end[OF this assms(3,4)] align_region_len[OF assms(1)]
  show "unat (b + l - c) < unat len0" "unat (c - b) < unat len0" by linarith+
qed

function handle_ards :: "'h heap_ops \<Rightarrow> u32 \<Rightarrow> u64 \<Rightarrow> u64 \<Rightarrow> 'h buddy \<Rightarrow> 'h buddy option" where
  "handle_ards hp ks base0 len0 bd =
    (case align_region base0 len0 of
       None \<Rightarrow> Some bd
     | Some (base, len) \<Rightarrow>
       (let end_addr = base + len; kend = kernel_end_addr ks in
        if end_addr \<le> base then Some bd
        else if base < LOWEST_LIMIT then
          (if end_addr > LOWEST_LIMIT then handle_ards hp ks LOWEST_LIMIT (end_addr - LOWEST_LIMIT) bd else Some bd)
        else if base < KERNEL_BASE \<and> end_addr > KERNEL_BASE then
          (case handle_ards hp ks base (KERNEL_BASE - base) bd of
             None \<Rightarrow> None
           | Some bd \<Rightarrow> if end_addr > kend then handle_ards hp ks kend (end_addr - kend) bd else Some bd)
        else if \<not> base < KERNEL_BASE \<and> base < kend \<and> end_addr > kend then
          handle_ards hp ks kend (end_addr - kend) bd
        else if base < DMA_LIMIT then
          (if end_addr > DMA_LIMIT then
             (case handle_ards hp ks DMA_LIMIT (end_addr - DMA_LIMIT) bd of
                None \<Rightarrow> None
              | Some bd \<Rightarrow> fill_loop hp ZONE_DMA 0 base (DMA_LIMIT - base) bd)
           else fill_loop hp ZONE_DMA 0 base len bd)
        else if base < DMA32_LIMIT then
          (if end_addr > DMA32_LIMIT then
             (case handle_ards hp ks DMA32_LIMIT (end_addr - DMA32_LIMIT) bd of
                None \<Rightarrow> None
              | Some bd \<Rightarrow> fill_loop hp ZONE_DMA32 0 base (DMA32_LIMIT - base) bd)
           else fill_loop hp ZONE_DMA32 0 base len bd)
        else fill_loop hp ZONE_NORMAL 0 base len bd))"
  by pat_completeness auto
termination
proof (relation "measure (\<lambda>(hp, ks, base, len, bd). unat len)", goal_cases)
  case (4 hp ks base0 len0 bd p base len e kend bd')
  then have "base < kend" using kernel_end_ge[of ks] by auto
  then show ?case using 4 region_shrinks(1) by auto
qed (use region_shrinks in auto)
declare handle_ards.simps [simp del]

section \<open>The memory map\<close>

definition BOOT_MEMORY_TYPE_USABLE :: u32 where "BOOT_MEMORY_TYPE_USABLE = 1"
definition BOOT_MEMORY_TYPE_RESERVED :: u32 where "BOOT_MEMORY_TYPE_RESERVED = 2"
definition BOOT_MEMORY_TYPE_ACPI_RECLAIM :: u32 where "BOOT_MEMORY_TYPE_ACPI_RECLAIM = 3"
definition BOOT_MEMORY_TYPE_ACPI_NVS :: u32 where "BOOT_MEMORY_TYPE_ACPI_NVS = 4"
definition BOOT_MEMORY_TYPE_BAD_MEMORY :: u32 where "BOOT_MEMORY_TYPE_BAD_MEMORY = 8"

record boot_region =
  br_physical_base :: u64
  br_length :: u64
  br_normalized_type :: u32
  br_attributes :: u64
  br_source_value :: u64

record framebuffer_info =
  fb_physical_base :: u64
  fb_byte_size :: u64

record ards =
  ards_base :: u64
  ards_len :: u64
  ards_type :: u32
  ards_attrs :: u32

definition normalize_ards_type :: "u32 \<Rightarrow> u32" where
  "normalize_ards_type t =
    (if t = 1 then BOOT_MEMORY_TYPE_USABLE else if t = 2 then BOOT_MEMORY_TYPE_RESERVED
     else if t = 3 then BOOT_MEMORY_TYPE_ACPI_RECLAIM else if t = 4 then BOOT_MEMORY_TYPE_ACPI_NVS
     else if t = 5 then BOOT_MEMORY_TYPE_BAD_MEMORY else BOOT_MEMORY_TYPE_RESERVED)"

definition ards_attributes :: "ards \<Rightarrow> u64" where
  "ards_attributes a = push_bit 32 (ucast (ards_type a)) OR (if ards_attrs a AND 1 \<noteq> 0 then 2 else 0)"

definition ards_region :: "ards \<Rightarrow> boot_region" where
  "ards_region a = \<lparr>br_physical_base = ards_base a, br_length = ards_len a,
     br_normalized_type = normalize_ards_type (ards_type a), br_attributes = ards_attributes a,
     br_source_value = ucast (ards_type a)\<rparr>"

definition consume_region :: "'h heap_ops \<Rightarrow> u32 \<Rightarrow> boot_region \<Rightarrow> 'h buddy \<Rightarrow> (u32 \<times> 'h buddy) option" where
  "consume_region hp ks region bd =
    (if br_normalized_type region \<noteq> BOOT_MEMORY_TYPE_USABLE then Some (0, bd)
     else map_option (Pair 1) (handle_ards hp ks (br_physical_base region) (br_length region) bd))"

definition ranges_overlap :: "u64 \<Rightarrow> u64 \<Rightarrow> u64 \<Rightarrow> u64 \<Rightarrow> bool" where
  "ranges_overlap left_base left_len right_base right_len =
    (if left_len = 0 \<or> right_len = 0 then False
     else if left_base + left_len < left_base \<or> right_base + right_len < right_base then True
     else left_base < right_base + right_len \<and> right_base < left_base + left_len)"

definition consume_region_excluding_framebuffer ::
    "'h heap_ops \<Rightarrow> u32 \<Rightarrow> framebuffer_info option \<Rightarrow> boot_region \<Rightarrow> 'h buddy \<Rightarrow> (u32 \<times> 'h buddy) option" where
  "consume_region_excluding_framebuffer hp ks framebuffer region bd =
    (let base = br_physical_base region; len = br_length region in
     if br_normalized_type region \<noteq> BOOT_MEMORY_TYPE_USABLE then Some (0, bd)
     else
       (case framebuffer of
          None \<Rightarrow> map_option (Pair 1) (handle_ards hp ks base len bd)
        | Some fb \<Rightarrow>
          if \<not> ranges_overlap base len (fb_physical_base fb) (fb_byte_size fb)
          then map_option (Pair 1) (handle_ards hp ks base len bd)
          else
            (let region_end = base + len; fb_end = fb_physical_base fb + fb_byte_size fb in
             if region_end < base \<or> fb_end < fb_physical_base fb then Some (0, bd)
             else
               (case (if base < fb_physical_base fb
                      then map_option (Pair 1) (handle_ards hp ks base (fb_physical_base fb - base) bd)
                      else Some (0, bd)) of
                  None \<Rightarrow> None
                | Some (consumed, bd) \<Rightarrow>
                  if fb_end < region_end
                  then map_option (Pair (consumed + 1)) (handle_ards hp ks fb_end (region_end - fb_end) bd)
                  else Some (consumed, bd)))))"

fun consume_all :: "(boot_region \<Rightarrow> 'h buddy \<Rightarrow> (u32 \<times> 'h buddy) option) \<Rightarrow> boot_region list \<Rightarrow> 'h buddy \<Rightarrow>
    (u32 \<times> 'h buddy) option" where
  "consume_all f [] bd = Some (0, bd)"
| "consume_all f (r # rs) bd =
    (case f r bd of
       None \<Rightarrow> None
     | Some (n, bd) \<Rightarrow> (case consume_all f rs bd of None \<Rightarrow> None | Some (m, bd) \<Rightarrow> Some (n + m, bd)))"

definition consume_v2_memory_map ::
    "'h heap_ops \<Rightarrow> u32 \<Rightarrow> boot_region list option \<Rightarrow> framebuffer_info option \<Rightarrow> 'h buddy \<Rightarrow> (u32 \<times> 'h buddy) option" where
  \<comment> \<open>no regions if the section is missing or its size is not a multiple of the entry size\<close>
  "consume_v2_memory_map hp ks regions framebuffer bd =
    (case regions of
       None \<Rightarrow> Some (0, bd)
     | Some rs \<Rightarrow> consume_all (consume_region_excluding_framebuffer hp ks framebuffer) rs bd)"

definition consume_v1_memory_map :: "'h heap_ops \<Rightarrow> u32 \<Rightarrow> ards list \<Rightarrow> 'h buddy \<Rightarrow> (u32 \<times> 'h buddy) option" where
  "consume_v1_memory_map hp ks entries bd = consume_all (consume_region hp ks) (map ards_region entries) bd"

datatype boot_handoff =
    Handoff_V2 "u64 option" "boot_region list option" "framebuffer_info option"
  | Handoff_V1 u64 "ards list"
  | No_Handoff

definition init_buddy :: "'h heap_ops \<Rightarrow> u64 \<Rightarrow> boot_handoff \<Rightarrow> 'h buddy \<Rightarrow> 'h buddy option" where
  "init_buddy hp arena_storage handoff bd =
    (let bd = bd\<lparr>bd_arena := arena_init arena_storage EARLY_METADATA_ARENA_BYTES\<rparr> in
     case (case handoff of
             Handoff_V2 None regions fb \<Rightarrow> None
           | Handoff_V2 (Some ksize) regions fb \<Rightarrow> consume_v2_memory_map hp (ucast ksize) regions fb bd
           | Handoff_V1 ksize entries \<Rightarrow> consume_v1_memory_map hp (ucast ksize) entries bd
           | No_Handoff \<Rightarrow> None) of
       None \<Rightarrow> None
     | Some (usable_regions, bd) \<Rightarrow>
       if usable_regions = 0 then None else Some (bd\<lparr>bd_arena := arena_seal (bd_arena bd)\<rparr>))"

section \<open>What a region adds\<close>

definition adds :: "('h \<Rightarrow> u64 set) \<Rightarrow> 'h buddy \<Rightarrow> nat multiset \<Rightarrow> 'h buddy \<Rightarrow> bool" where
  "adds owns bd P bd' \<longleftrightarrow> blocks_ok owns bd' {#} \<and> all_pages bd' {#} = all_pages bd {#} + P \<and>
     slack bd' = slack bd \<and> clients owns bd' = clients owns bd"

definition fits :: "'h buddy \<Rightarrow> nat multiset \<Rightarrow> bool" where
  "fits bd P \<longleftrightarrow> (\<forall>p. count (all_pages bd {#} + P) p \<le> 1) \<and> 0 \<notin># P"

lemma adds_empty: "blocks_ok owns bd {#} \<Longrightarrow> adds owns bd {#} bd"
  by (simp add: adds_def)

lemma adds_trans:
  assumes "adds owns bd P bd'" "adds owns bd' Q bd''"
  shows "adds owns bd (P + Q) bd''"
  using assms by (simp add: adds_def)

lemma adds_fits: "adds owns bd P bd' \<Longrightarrow> fits bd (P + Q) \<Longrightarrow> fits bd' Q"
  by (simp add: adds_def fits_def add.assoc)

lemma fits_left: "fits bd (P + Q) \<Longrightarrow> fits bd P"
proof -
  assume f: "fits bd (P + Q)"
  have "count (all_pages bd {#} + P) p \<le> count (all_pages bd {#} + (P + Q)) p" for p by simp
  then show ?thesis using f unfolding fits_def by (meson le_trans union_iff)
qed

lemma arena_indep:
  "blocks_ok owns (bd\<lparr>bd_arena := a\<rparr>) B = blocks_ok owns bd B" "all_pages (bd\<lparr>bd_arena := a\<rparr>) B = all_pages bd B"
  "slack (bd\<lparr>bd_arena := a\<rparr>) = slack bd" "clients owns (bd\<lparr>bd_arena := a\<rparr>) = clients owns bd"
proof -
  have f: "free_pages (bd\<lparr>bd_arena := a\<rparr>) = free_pages bd" "all_free (bd\<lparr>bd_arena := a\<rparr>) = all_free bd"
    by (simp_all add: free_pages_def all_free_def fun_eq_iff)
  then show p: "all_pages (bd\<lparr>bd_arena := a\<rparr>) B = all_pages bd B" for B by (simp add: all_pages_def)
  then show "blocks_ok owns (bd\<lparr>bd_arena := a\<rparr>) B = blocks_ok owns bd B" by (simp add: blocks_ok_def)
  show "slack (bd\<lparr>bd_arena := a\<rparr>) = slack bd" using f by (simp add: slack_def fun_eq_iff)
qed (simp add: clients_def)

lemma count_total:
  fixes s :: "'h buddy" and zi :: nat and n m :: u32
  defines "t \<equiv> s\<lparr>bd_zone := (bd_zone s)(zi := (bd_zone s zi)\<lparr>z_nr_pages := n\<rparr>), bd_nr_pages := m\<rparr>"
  shows "blocks_ok owns t B = blocks_ok owns s B" "all_pages t B = all_pages s B"
    "clients owns t = clients owns s" "slack t = slack s"
proof -
  have f: "fa_of t z k = fa_of s z k" "bd_used t = bd_used s" "bd_heap t = bd_heap s"
    "z_nr_free_pages (bd_zone t z) = z_nr_free_pages (bd_zone s z)" "bd_nr_free_pages t = bd_nr_free_pages s" for z k
    by (simp_all add: t_def)
  have fp: "free_pages t = free_pages s" "all_free t = all_free s"
    by (simp_all add: fun_eq_iff free_pages_def all_free_def f)
  then show "all_pages t B = all_pages s B" for B by (simp add: all_pages_def f)
  then show "blocks_ok owns t B = blocks_ok owns s B" by (simp add: blocks_ok_def f)
  show "clients owns t = clients owns s" by (simp add: clients_def f)
  show "slack t = slack s" by (simp add: slack_def fun_eq_iff fp f)
qed

lemma new_free_counts:
  "new_free hp b bd = (let s = zone_free hp b bd in
     s\<lparr>bd_zone := (bd_zone s)(pb_zone b := (bd_zone s (pb_zone b))\<lparr>z_nr_pages := z_nr_pages (bd_zone s (pb_zone b)) + block_count b\<rparr>),
       bd_nr_pages := bd_nr_pages s + block_count b\<rparr>)"
  by (rule buddy.equality) (auto simp: new_free_def zone_free_def Let_def intro!: zone.equality)

context kernel_heap begin

lemma new_free_adds:
  assumes "blocks_ok owns bd {#}" "block_ok b" "fits bd (pages b)"
  shows "adds owns bd (pages b) (new_free hp b (bd\<lparr>bd_arena := a\<rparr>))"
proof -
  have p: "all_pages bd {#b#} = all_pages bd {#} + pages b" by (simp add: all_pages_def)
  have "blocks_ok owns bd {#b#}" using assms p by (auto simp: blocks_ok_def fits_def)
  then have "blocks_ok owns (bd\<lparr>bd_arena := a\<rparr>) {#b#}" by (simp add: arena_indep)
  note z = zone_free_ok[OF this]
  show ?thesis using z p unfolding new_free_counts Let_def adds_def count_total by (simp add: arena_indep)
qed

end

lemma fill_loop_adds:
  "kernel_heap hp owns \<Longrightarrow> blocks_ok owns bd {#} \<Longrightarrow> cut_ok zi base len \<Longrightarrow> i \<le> 10 \<or> len = 0 \<Longrightarrow>
   fits bd (range_pages base len) \<Longrightarrow> fill_loop hp zi i base len bd = Some bd' \<Longrightarrow>
   adds owns bd (range_pages base len) bd'"
proof (induction hp zi i base len bd rule: fill_loop.induct)
  case (1 hp zi i base len bd)
  note IH = "1.IH"[unfolded BUDDY_MAX_ORDER_def] and prems = "1.prems" and heap = "1.prems"(1)
  let ?t = "get_pblk_size (10 - i)"
  have t: "unat ?t = 4096 * 2 ^ (10 - i)" by (rule get_pblk_size_unat) simp
  note unf = fill_loop.simps[of hp zi i base len bd] Let_def BUDDY_MAX_ORDER_def
  consider (stop) "i > 10" | (next_order) "i \<le> 10" "\<not> ?t \<le> len" | (cut) "i \<le> 10" "?t \<le> len" by linarith
  then show ?case
  proof cases
    case stop
    then have "bd' = bd" using prems(6) by (simp add: unf)
    moreover have "range_pages base len = {#}" using prems(4) stop by (simp add: range_pages_def)
    ultimately show ?thesis using prems(2) adds_empty by simp
  next
    case next_order
    have "i + 1 \<le> 10 \<or> len = 0"
    proof (cases "i = 10")
      case True
      with next_order(2) t have "unat len < 4096" by (simp add: word_le_nat_alt)
      then have "unat len = 0" using prems(3) by (auto simp: cut_ok_def)
      then show ?thesis by (simp add: unat_eq_0)
    qed (use next_order in simp)
    with IH(2)[OF _ refl _ prems(1-3) this prems(5)] next_order prems(6) show ?thesis
      by (simp add: unf)
  next
    case cut
    obtain p a where p: "new_bootstrap_page_block (bd_arena bd) = Some (p, a)"
      using prems(6) cut by (auto simp: unf split: option.splits)
    obtain n a' where n: "new_bootstrap_page_block_node a = Some (n, a')"
      using prems(6) cut p by (auto simp: unf split: option.splits)
    let ?b = "\<lparr>pb_zone = zi, pb_base = base, pb_len = ?t, pb_flags = 0, pb_order = 10 - i, pb_self = p, pb_node = n\<rparr>"
    let ?s = "new_free hp ?b (bd\<lparr>bd_arena := a'\<rparr>)"
    note step = cut_step[where b = ?b and flags = 0 and s = p and n = n, OF prems(3) cut(2) _ refl]
    have f: "fits bd (pages ?b + range_pages (base + ?t) (len - ?t))" using prems(5) step(4) by simp
    have g: "adds owns bd (pages ?b) ?s"
      using kernel_heap.new_free_adds[OF heap prems(2) _ fits_left[OF f]] step(1) by simp
    have "fill_loop hp zi i (base + ?t) (len - ?t) ?s = Some bd'" using prems(6) cut p n by (simp add: unf)
    then have "adds owns ?s (range_pages (base + ?t) (len - ?t)) bd'"
      using IH(1)[OF _ refl _ p refl n refl heap _ _ _ adds_fits[OF g f[simplified]]] cut g step(3)
      by (simp add: adds_def)
    from adds_trans[OF g this] show ?thesis using step(4) by simp
  qed
qed

text \<open>The whole pages of an address range, and those of them the kernel may give away.\<close>

definition page_range :: "nat \<Rightarrow> nat \<Rightarrow> nat set" where
  "page_range x y = {p. x \<le> 4096 * p \<and> 4096 * p + 4096 \<le> y}"

definition kernel_page :: "u32 \<Rightarrow> nat \<Rightarrow> bool" where
  "kernel_page ks p \<longleftrightarrow> unat KERNEL_BASE \<le> 4096 * p \<and> 4096 * p < unat (kernel_end_addr ks)"

definition usable_range :: "u32 \<Rightarrow> nat \<Rightarrow> nat \<Rightarrow> nat set" where
  "usable_range ks x y = {p \<in> page_range x y. \<not> 4096 * p < unat LOWEST_LIMIT \<and> \<not> kernel_page ks p}"

abbreviation whole_pages :: "u64 \<Rightarrow> u64 \<Rightarrow> nat set" where
  "whole_pages base len \<equiv> page_range (unat base) (unat base + unat len)"

lemma clip_unat: "unat ((x :: u64) AND 0xfffffffffffff000) = unat x div 4096 * 4096"
proof -
  have m: "NOT (PAGE_SIZE - 1) = (0xfffffffffffff000 :: u64)" by (simp add: PAGE_SIZE_def)
  have "(x AND 0xfffffffffffff000) = align_down_page x" by (simp only: align_down_page_def m)
  then show ?thesis by (simp add: unat_align_down)
qed

lemma mod_page: "(x :: u64) mod PAGE_SIZE \<noteq> 0 \<longleftrightarrow> unat x mod 4096 \<noteq> 0"
  by (simp add: word_unat_eq_iff unat_mod PAGE_SIZE_def)

lemma clip_cases:
  defines "clip \<equiv> (\<lambda>l :: u64. if l mod PAGE_SIZE \<noteq> 0 then l AND 0xfffffffffffff000 else l)"
  shows "unat (clip l) = unat l div 4096 * 4096"
proof (cases "unat l mod 4096 = 0")
  case True
  then have "unat l div 4096 * 4096 = unat l" by (metis add.right_neutral div_mult_mod_eq)
  then show ?thesis using True unfolding clip_def mod_page by simp
next
  case False
  then show ?thesis unfolding clip_def mod_page by (simp add: clip_unat)
qed

lemma page_floor: "(t :: nat) < 4096 \<Longrightarrow> 4096 * x + 4096 \<le> 4096 * k + t \<longleftrightarrow> x + 1 \<le> k"
  by arith

lemma page_ceil: "0 < r \<Longrightarrow> (r :: nat) < 4096 \<Longrightarrow> 4096 * q + r \<le> 4096 * x \<longleftrightarrow> 4096 * q + 4096 \<le> 4096 * x"
proof (cases "Suc q \<le> x")
  case True
  then have "4096 * Suc q \<le> 4096 * x" by (intro mult_le_mono) simp_all
  then show "r < 4096 \<Longrightarrow> ?thesis" by simp
next
  case False
  then have "4096 * x \<le> 4096 * q" by simp
  then show "0 < r \<Longrightarrow> ?thesis" by linarith
qed

lemma align_region_spec:
  assumes "unat base + unat len \<le> 2 ^ 52"
  shows "align_region base len = None \<Longrightarrow> whole_pages base len = {}"
    "align_region base len = Some (b, l) \<Longrightarrow> 4096 dvd unat b \<and> 4096 dvd unat l \<and>
       unat base \<le> unat b \<and> unat b + unat l \<le> unat base + unat len \<and> whole_pages base len = whole_pages b l"
proof -
  let ?a = "(base AND 0xfffffffffffff000) + PAGE_SIZE"
  define q r where "q = unat base div 4096" and "r = unat base mod 4096"
  have qr: "unat base = 4096 * q + r" "r < 4096" by (simp_all add: q_def r_def)
  have a: "unat ?a = 4096 * q + 4096"
    using assms qr by (subst unat_plus_if_no_wrap) (simp_all add: clip_unat PAGE_SIZE_def q_def[symmetric])
  then have d: "unat (?a - base) = 4096 - r" using qr by (subst unat_minus_le) (simp_all add: word_le_nat_alt)
  show "whole_pages base len = {}" if n: "align_region base len = None"
  proof -
    have "r \<noteq> 0" "len \<le> ?a - base" using n unfolding align_region_def Let_def mod_page r_def by (auto split: if_splits)
    then have "unat len \<le> 4096 - r" using d by (simp add: word_le_nat_alt)
    then show ?thesis using qr \<open>r \<noteq> 0\<close> by (auto simp: page_range_def)
  qed
  assume s: "align_region base len = Some (b, l)"
  show "4096 dvd unat b \<and> 4096 dvd unat l \<and>
       unat base \<le> unat b \<and> unat b + unat l \<le> unat base + unat len \<and> whole_pages base len = whole_pages b l"
  proof (cases "r = 0")
    case True
    have b: "b = base" and l: "unat l = unat len div 4096 * 4096"
      using s True clip_cases[of len] unfolding align_region_def Let_def mod_page r_def[symmetric] by auto
    define m t where "m = unat len div 4096" and "t = unat len mod 4096"
    have mt: "unat len = 4096 * m + t" "t < 4096" by (simp_all add: m_def t_def)
    have "4096 * x + 4096 \<le> unat base + unat len \<longleftrightarrow> x + 1 \<le> q + m" for x
      using page_floor[OF mt(2), of x "q + m"] qr True mt(1) by (simp add: algebra_simps)
    moreover have "4096 * x + 4096 \<le> unat base + unat l \<longleftrightarrow> x + 1 \<le> q + m" for x
      using page_floor[of 0 x "q + m"] qr True l by (simp add: m_def algebra_simps)
    ultimately show ?thesis using qr True l unfolding page_range_def b by (simp add: m_def[symmetric] mt(1))
  next
    case False
    have b: "b = ?a" and len: "\<not> len \<le> ?a - base" and l: "unat l = unat (len - (?a - base)) div 4096 * 4096"
      using s False clip_cases[of "len - (?a - base)"] unfolding align_region_def Let_def mod_page r_def[symmetric]
      by (auto split: if_splits)
    have len': "unat (len - (?a - base)) = unat len - (4096 - r)" "4096 - r < unat len"
      using len d by (simp_all add: unat_minus_le word_le_nat_alt)
    define m t where "m = (unat len - (4096 - r)) div 4096" and "t = (unat len - (4096 - r)) mod 4096"
    have "unat len - (4096 - r) = 4096 * m + t" "t < 4096" by (simp_all add: m_def t_def)
    then have mt: "unat len = 4096 * m + t + (4096 - r)" "t < 4096" using len'(2) by linarith+
    have l': "unat l = 4096 * m" using l len'(1) by (simp add: m_def)
    have "4096 * x + 4096 \<le> unat base + unat len \<longleftrightarrow> x + 1 \<le> q + 1 + m" for x
      using page_floor[OF mt(2), of x "q + 1 + m"] qr mt(1) by (simp add: algebra_simps)
    moreover have "4096 * x + 4096 \<le> unat b + unat l \<longleftrightarrow> x + 1 \<le> q + 1 + m" for x
      using page_floor[of 0 x "q + 1 + m"] a l' b by (simp add: algebra_simps)
    moreover have "unat base \<le> 4096 * x \<longleftrightarrow> unat b \<le> 4096 * x" for x
      using page_ceil[of r q x] a b qr False by simp
    ultimately show ?thesis using a b l' qr mt(1) unfolding page_range_def by simp
  qed
qed


lemma finite_page_range [simp]: "finite (page_range x y)"
proof (rule finite_subset)
  show "page_range x y \<subseteq> {..y}" by (auto simp: page_range_def)
qed simp

lemma finite_usable [simp]: "finite (usable_range ks x y)"
  by (simp add: usable_range_def)

lemma usable_split:
  assumes "4096 dvd c" "x \<le> c" "c \<le> y"
  shows "usable_range ks x y = usable_range ks x c \<union> usable_range ks c y"
    "usable_range ks x c \<inter> usable_range ks c y = {}"
proof -
  obtain k where k: "c = 4096 * k" using assms(1) by (auto elim: dvdE)
  have "4096 * p + 4096 \<le> c \<or> c \<le> 4096 * p" for p
  proof (cases "Suc p \<le> k")
    case True
    then have "4096 * Suc p \<le> 4096 * k" by (intro mult_le_mono) simp_all
    then show ?thesis by (simp add: k)
  qed (simp add: k)
  then have "page_range x y = page_range x c \<union> page_range c y" using assms(2,3) by (force simp: page_range_def)
  then show "usable_range ks x y = usable_range ks x c \<union> usable_range ks c y" by (auto simp: usable_range_def)
  show "usable_range ks x c \<inter> usable_range ks c y = {}" by (auto simp: usable_range_def page_range_def)
qed

lemma usable_split_mset:
  assumes "4096 dvd c" "x \<le> c" "c \<le> y"
  shows "mset_set (usable_range ks x y) = mset_set (usable_range ks x c) + mset_set (usable_range ks c y)"
  using usable_split[OF assms, of ks] by (simp add: mset_set_Union)

lemma usable_low: "y \<le> unat LOWEST_LIMIT \<Longrightarrow> usable_range ks x y = {}"
  by (auto simp: usable_range_def page_range_def)

lemma usable_kernel: "unat KERNEL_BASE \<le> x \<Longrightarrow> y \<le> unat (kernel_end_addr ks) \<Longrightarrow> usable_range ks x y = {}"
  by (auto simp: usable_range_def page_range_def kernel_page_def)

lemma usable_all:
  assumes "unat LOWEST_LIMIT \<le> x" "y \<le> unat KERNEL_BASE \<or> unat (kernel_end_addr ks) \<le> x"
  shows "usable_range ks x y = page_range x y"
  using assms by (auto simp: usable_range_def page_range_def kernel_page_def)

lemma range_pages_set:
  assumes "4096 dvd unat base" "4096 dvd unat len"
  shows "range_pages base len = mset_set (whole_pages base len)"
proof -
  obtain m n where mn: "unat base = 4096 * m" "unat len = 4096 * n" using assms by (auto elim!: dvdE)
  have e: "4096 * m + 4096 * n = 4096 * (m + n)" by (rule distrib_left[symmetric])
  have c: "4096 * p + 4096 \<le> 4096 * (m + n) \<longleftrightarrow> p < m + n" for p
    using page_floor[of 0 p "m + n"] by (simp add: Suc_le_eq)
  have "p \<in> whole_pages base len \<longleftrightarrow> p \<in> {m..<m + n}" for p
    by (simp only: page_range_def mem_Collect_eq mn e c atLeastLessThan_iff) simp
  then have "whole_pages base len = {m..<m + n}" by blast
  then show ?thesis by (simp add: range_pages_def mn mset_upt)
qed

lemma limits_unat:
  "unat KERNEL_BASE = 0x1000000" "unat DMA_LIMIT = 0x1000000" "unat DMA32_LIMIT = 0x100000000" "unat LOWEST_LIMIT = 0x200000"
  by (simp_all add: KERNEL_BASE_def DMA_LIMIT_def DMA32_LIMIT_def LOWEST_LIMIT_def)

text \<open>A region not all of whose whole pages lie in the kernel image.\<close>

definition region_ok :: "u32 \<Rightarrow> nat \<Rightarrow> nat \<Rightarrow> bool" where
  "region_ok ks x y \<longleftrightarrow> y \<le> 2 ^ 52 \<and> (page_range x y \<noteq> {} \<longrightarrow> (\<exists>p\<in>page_range x y. \<not> kernel_page ks p))"

lemma region_okI:
  assumes "4096 dvd x" "4096 dvd y" "x < y" "y \<le> 2 ^ 52" "x < unat KERNEL_BASE \<or> unat (kernel_end_addr ks) \<le> x"
  shows "region_ok ks x y"
proof -
  obtain m n where mn: "x = 4096 * m" "y = 4096 * n" using assms(1,2) by (auto elim!: dvdE)
  then have "4096 * Suc m \<le> 4096 * n" using assms(3) by (intro mult_le_mono) simp_all
  then have "m \<in> page_range x y" by (simp add: page_range_def mn)
  moreover have "\<not> kernel_page ks m" using assms(5) by (auto simp: kernel_page_def mn)
  ultimately show ?thesis using assms(4) by (auto simp: region_ok_def)
qed

lemma kernel_end_dvd: "4096 dvd unat (kernel_end_addr ks)"
  unfolding kernel_end_unat by (intro dvd_add) simp_all

text \<open>The last part of \<^verbatim>\<open>handle_ards\<close>: a region inside one zone.\<close>

lemma fill_zone:
  assumes "kernel_heap hp owns" "blocks_ok owns bd {#}" "4096 dvd unat base" "4096 dvd unat len" "zi < 3"
    "zone_low zi \<le> unat base" "unat base + unat len \<le> zone_high zi"
    "fits bd (mset_set (whole_pages base len))" "fill_loop hp zi 0 base len bd = Some bd'"
  shows "adds owns bd (mset_set (whole_pages base len)) bd'"
  using fill_loop_adds[OF assms(1,2) _ _ _ assms(9)] assms(3-8) by (simp add: cut_ok_def range_pages_set)

lemma adds_then:
  assumes "4096 dvd c" "x \<le> c" "c \<le> y" "fits bd (mset_set (usable_range ks x y))"
  shows "fits bd (mset_set (usable_range ks x c))" "fits bd (mset_set (usable_range ks c y))"
    "adds owns bd (mset_set (usable_range ks x c)) bd1 \<Longrightarrow> fits bd1 (mset_set (usable_range ks c y))"
    "adds owns bd (mset_set (usable_range ks c y)) bd1 \<Longrightarrow> fits bd1 (mset_set (usable_range ks x c))"
    "adds owns bd (mset_set (usable_range ks x c)) bd1 \<Longrightarrow> adds owns bd1 (mset_set (usable_range ks c y)) bd2 \<Longrightarrow>
       adds owns bd (mset_set (usable_range ks x y)) bd2"
    "adds owns bd (mset_set (usable_range ks c y)) bd1 \<Longrightarrow> adds owns bd1 (mset_set (usable_range ks x c)) bd2 \<Longrightarrow>
       adds owns bd (mset_set (usable_range ks x y)) bd2"
proof -
  note f = assms(4)[unfolded usable_split_mset[OF assms(1-3)]]
  have f': "fits bd (mset_set (usable_range ks c y) + mset_set (usable_range ks x c))"
    using f by (simp only: add.commute)
  show "fits bd (mset_set (usable_range ks x c))" "fits bd (mset_set (usable_range ks c y))"
    using fits_left[OF f] fits_left[OF f'] by auto
  show "adds owns bd (mset_set (usable_range ks x c)) bd1 \<Longrightarrow> fits bd1 (mset_set (usable_range ks c y))"
    "adds owns bd (mset_set (usable_range ks c y)) bd1 \<Longrightarrow> fits bd1 (mset_set (usable_range ks x c))"
    using adds_fits f f' by blast+
  show "adds owns bd (mset_set (usable_range ks x c)) bd1 \<Longrightarrow> adds owns bd1 (mset_set (usable_range ks c y)) bd2 \<Longrightarrow>
       adds owns bd (mset_set (usable_range ks x y)) bd2"
    unfolding usable_split_mset[OF assms(1-3)] by (rule adds_trans)
  show "adds owns bd (mset_set (usable_range ks c y)) bd1 \<Longrightarrow> adds owns bd1 (mset_set (usable_range ks x c)) bd2 \<Longrightarrow>
       adds owns bd (mset_set (usable_range ks x y)) bd2"
    unfolding usable_split_mset[OF assms(1-3)] by (subst add.commute) (rule adds_trans)
qed

text \<open>Inside the induction: \<open>b\<close>, \<open>l\<close> is an aligned region, and shorter regions behave.\<close>

definition good_region :: "'h heap_ops \<Rightarrow> ('h \<Rightarrow> u64 set) \<Rightarrow> u32 \<Rightarrow> u64 \<Rightarrow> u64 \<Rightarrow> bool" where
  "good_region hp owns ks base len \<longleftrightarrow> (\<forall>bd bd'. blocks_ok owns bd {#} \<longrightarrow>
     region_ok ks (unat base) (unat base + unat len) \<longrightarrow>
     fits bd (mset_set (usable_range ks (unat base) (unat base + unat len))) \<longrightarrow>
     handle_ards hp ks base len bd = Some bd' \<longrightarrow>
     adds owns bd (mset_set (usable_range ks (unat base) (unat base + unat len))) bd')"

lemma good_regionD:
  assumes "good_region hp owns ks c (e - c)" "c \<le> e" "blocks_ok owns bd {#}" "region_ok ks (unat c) (unat e)"
    "fits bd (mset_set (usable_range ks (unat c) (unat e)))" "handle_ards hp ks c (e - c) bd = Some bd'"
  shows "adds owns bd (mset_set (usable_range ks (unat c) (unat e))) bd'"
proof -
  have "unat c + unat (e - c) = unat e" using assms(2) by (simp add: unat_minus_le word_le_nat_alt)
  then show ?thesis using assms(1)[unfolded good_region_def, rule_format, of bd bd'] assms(3-6) by simp
qed

lemma page_range_nonempty: "4096 dvd x \<Longrightarrow> 4096 dvd y \<Longrightarrow> x < y \<Longrightarrow> page_range x y \<noteq> {}"
proof -
  assume "4096 dvd x" "4096 dvd y" "x < y"
  then obtain m n where mn: "x = 4096 * m" "y = 4096 * n" "m < n" by (auto elim!: dvdE)
  then have "4096 * Suc m \<le> 4096 * n" by (intro mult_le_mono) simp_all
  then have "m \<in> page_range x y" by (simp add: page_range_def mn)
  then show ?thesis by blast
qed

text \<open>The induction hypothesis for a region from \<open>b\<close> to \<open>e\<close>: every proper prefix and suffix behaves.\<close>

definition shorter_good :: "'h heap_ops \<Rightarrow> ('h \<Rightarrow> u64 set) \<Rightarrow> u32 \<Rightarrow> u64 \<Rightarrow> u64 \<Rightarrow> bool" where
  "shorter_good hp owns ks b e \<longleftrightarrow> kernel_heap hp owns \<and> 4096 dvd unat b \<and> 4096 dvd unat e \<and> unat e \<le> 2 ^ 52 \<and>
     (\<forall>c. b < c \<longrightarrow> c < e \<longrightarrow> good_region hp owns ks c (e - c) \<and> good_region hp owns ks b (c - b))"

lemma suffix_adds:
  assumes "shorter_good hp owns ks b e" "b < c" "c < e" "4096 dvd unat c" "c < KERNEL_BASE \<or> kernel_end_addr ks \<le> c"
    "blocks_ok owns s {#}" "fits s (mset_set (usable_range ks (unat c) (unat e)))"
    "handle_ards hp ks c (e - c) s = Some s'"
  shows "adds owns s (mset_set (usable_range ks (unat c) (unat e))) s'"
proof (rule good_regionD[OF _ _ assms(6) _ assms(7,8)])
  show "good_region hp owns ks c (e - c)" using assms(1-3) by (auto simp: shorter_good_def)
  show "region_ok ks (unat c) (unat e)"
    using assms(1,3-5) by (intro region_okI) (auto simp: shorter_good_def word_less_nat_alt word_le_nat_alt)
qed (use assms(3) in simp)

lemma fill_adds:
  assumes "shorter_good hp owns ks b e" "b \<le> c" "4096 dvd unat c" "LOWEST_LIMIT \<le> b"
    "c \<le> KERNEL_BASE \<or> kernel_end_addr ks \<le> b" "zi < 3" "zone_low zi \<le> unat b" "unat c \<le> zone_high zi"
    "blocks_ok owns s {#}" "fits s (mset_set (usable_range ks (unat b) (unat c)))"
    "fill_loop hp zi 0 b (c - b) s = Some s'"
  shows "adds owns s (mset_set (usable_range ks (unat b) (unat c))) s'"
proof -
  have g: "kernel_heap hp owns" "4096 dvd unat b" using assms(1) by (simp_all add: shorter_good_def)
  have uc: "unat b + unat (c - b) = unat c" using assms(2) by (simp add: unat_minus_le word_le_nat_alt)
  have "4096 dvd unat (c - b)" using assms(2,3) g(2) by (simp add: unat_minus_le)
  moreover have "usable_range ks (unat b) (unat c) = whole_pages b (c - b)"
    using assms(4,5) unfolding uc by (intro usable_all) (auto simp: word_le_nat_alt)
  ultimately show ?thesis using fill_zone[OF g(1) assms(9) g(2) _ assms(6,7) _ _ assms(11)] assms(8,10) uc by simp
qed

lemma low_adds:
  assumes sg: "shorter_good hp owns ks b e" and ok: "blocks_ok owns bd {#}"
    and fit: "fits bd (mset_set (usable_range ks (unat b) (unat e)))" and low: "b < LOWEST_LIMIT"
    and run: "(if LOWEST_LIMIT < e then handle_ards hp ks LOWEST_LIMIT (e - LOWEST_LIMIT) bd else Some bd) = Some bd'"
  shows "adds owns bd (mset_set (usable_range ks (unat b) (unat e))) bd'"
proof (cases "LOWEST_LIMIT < e")
  case True
  have d: "4096 dvd unat LOWEST_LIMIT" by (simp add: limits_unat)
  have "usable_range ks (unat b) (unat e) = usable_range ks (unat LOWEST_LIMIT) (unat e)"
    using usable_split(1)[OF d, of "unat b" "unat e" ks] usable_low[of "unat LOWEST_LIMIT" ks] low True
    by (simp add: word_less_nat_alt)
  moreover have "LOWEST_LIMIT < KERNEL_BASE" by (simp add: LOWEST_LIMIT_def KERNEL_BASE_def)
  ultimately show ?thesis using suffix_adds[OF sg low True d _ ok, of bd'] run True fit by simp
next
  case False
  then have "usable_range ks (unat b) (unat e) = {}" by (intro usable_low) (simp add: word_less_nat_alt)
  moreover have "bd' = bd" using run False by simp
  ultimately show ?thesis using adds_empty[OF ok] by simp
qed

text \<open>Beyond the start of the kernel image, only what lies beyond its end is usable.\<close>

lemma usable_past_kernel:
  assumes "KERNEL_BASE \<le> c" "c \<le> kernel_end_addr ks" "kernel_end_addr ks < e"
  shows "usable_range ks (unat c) (unat e) = usable_range ks (unat (kernel_end_addr ks)) (unat e)"
  using usable_split(1)[OF kernel_end_dvd, of "unat c" ks "unat e" ks] usable_kernel[of "unat c" "unat (kernel_end_addr ks)" ks]
    assms by (simp add: word_le_nat_alt word_less_nat_alt)

lemma image_adds:
  assumes sg: "shorter_good hp owns ks b e" and ok: "blocks_ok owns bd {#}"
    and fit: "fits bd (mset_set (usable_range ks (unat b) (unat e)))" and b: "b < KERNEL_BASE" "KERNEL_BASE < e"
    and run: "(case handle_ards hp ks b (KERNEL_BASE - b) bd of None \<Rightarrow> None
       | Some s \<Rightarrow> if kernel_end_addr ks < e then handle_ards hp ks (kernel_end_addr ks) (e - kernel_end_addr ks) s
           else Some s) = Some bd'"
  shows "adds owns bd (mset_set (usable_range ks (unat b) (unat e))) bd'"
proof -
  let ?kend = "kernel_end_addr ks"
  have d: "4096 dvd unat KERNEL_BASE" "unat b \<le> unat KERNEL_BASE" "unat KERNEL_BASE \<le> unat e"
    using b by (simp_all add: limits_unat word_less_nat_alt)
  obtain s where s: "handle_ards hp ks b (KERNEL_BASE - b) bd = Some s" using run by (auto split: option.splits)
  have g: "good_region hp owns ks b (KERNEL_BASE - b)" using sg b by (auto simp: shorter_good_def)
  have r: "region_ok ks (unat b) (unat KERNEL_BASE)"
    using b sg d by (intro region_okI) (simp_all add: word_less_nat_alt limits_unat shorter_good_def)
  note at = adds_then[OF d fit]
  have a1: "adds owns bd (mset_set (usable_range ks (unat b) (unat KERNEL_BASE))) s"
    using good_regionD[OF g _ ok r at(1) s] b by simp
  then have oks: "blocks_ok owns s {#}" by (simp add: adds_def)
  have "adds owns s (mset_set (usable_range ks (unat KERNEL_BASE) (unat e))) bd'"
  proof (cases "?kend < e")
    case True
    have "b < ?kend" using b(1) kernel_end_ge[of ks] by simp
    then show ?thesis
      using suffix_adds[OF sg _ True kernel_end_dvd _ oks, of bd'] at(3)[OF a1] run s True
        usable_past_kernel[OF order_refl kernel_end_ge True] by simp
  next
    case False
    then have "usable_range ks (unat KERNEL_BASE) (unat e) = {}"
      by (intro usable_kernel) (simp_all add: word_less_nat_alt)
    moreover have "bd' = s" using run s False by simp
    ultimately show ?thesis using adds_empty[OF oks] by simp
  qed
  then show ?thesis by (rule at(5)[OF a1])
qed

lemma beyond_image:
  assumes "region_ok ks (unat b) (unat e)" "b < e" "4096 dvd unat b" "4096 dvd unat e" "KERNEL_BASE \<le> b"
    "kernel_end_addr ks \<le> b \<or> e \<le> kernel_end_addr ks"
  shows "kernel_end_addr ks \<le> b"
proof (rule ccontr)
  assume "\<not> kernel_end_addr ks \<le> b"
  then have "unat e \<le> unat (kernel_end_addr ks)" using assms(6) by (simp add: word_le_nat_alt)
  then have "kernel_page ks p" if "p \<in> page_range (unat b) (unat e)" for p
    using that assms(5) by (auto simp: page_range_def kernel_page_def word_le_nat_alt)
  moreover have "page_range (unat b) (unat e) \<noteq> {}"
    using page_range_nonempty[OF assms(3,4)] assms(2) by (simp add: word_less_nat_alt)
  ultimately show False using assms(1) by (auto simp: region_ok_def)
qed

lemma dma32_adds:
  assumes sg: "shorter_good hp owns ks b e" and ok: "blocks_ok owns bd {#}"
    and fit: "fits bd (mset_set (usable_range ks (unat b) (unat e)))"
    and b: "b < e" "KERNEL_BASE \<le> b" "kernel_end_addr ks \<le> b" "b < DMA32_LIMIT"
    and run: "(if DMA32_LIMIT < e then case handle_ards hp ks DMA32_LIMIT (e - DMA32_LIMIT) bd of None \<Rightarrow> None
         | Some s \<Rightarrow> fill_loop hp ZONE_DMA32 0 b (DMA32_LIMIT - b) s
       else fill_loop hp ZONE_DMA32 0 b (e - b) bd) = Some bd'"
  shows "adds owns bd (mset_set (usable_range ks (unat b) (unat e))) bd'"
proof -
  have z: "zone_low ZONE_DMA32 \<le> unat b" "ZONE_DMA32 < 3" "zone_high ZONE_DMA32 = unat DMA32_LIMIT" "LOWEST_LIMIT \<le> b"
    using b(2) by (simp_all add: zone_low_def zone_high_def ZONE_DMA_def ZONE_DMA32_def limits_unat word_le_nat_alt)
  have le: "b \<le> e" "b \<le> DMA32_LIMIT" "4096 dvd unat e" using b sg by (simp_all add: shorter_good_def)
  show ?thesis
  proof (cases "DMA32_LIMIT < e")
    case False
    then have "unat e \<le> unat DMA32_LIMIT" by (simp add: word_less_nat_alt)
    then show ?thesis using fill_adds[OF sg le(1,3) z(4) _ z(2,1) _ ok fit] run False z(3) b(3) by simp
  next
    case True
    have d: "4096 dvd unat DMA32_LIMIT" "unat b \<le> unat DMA32_LIMIT" "unat DMA32_LIMIT \<le> unat e"
      using b(4) True by (simp_all add: limits_unat word_less_nat_alt)
    note at = adds_then[OF d fit]
    obtain s where s: "handle_ards hp ks DMA32_LIMIT (e - DMA32_LIMIT) bd = Some s"
        "fill_loop hp ZONE_DMA32 0 b (DMA32_LIMIT - b) s = Some bd'"
      using run True by (auto split: option.splits)
    have "kernel_end_addr ks \<le> DMA32_LIMIT" using b(3,4) by simp
    then have a1: "adds owns bd (mset_set (usable_range ks (unat DMA32_LIMIT) (unat e))) s"
      using suffix_adds[OF sg b(4) True d(1) _ ok at(2) s(1)] by simp
    then have "adds owns s (mset_set (usable_range ks (unat b) (unat DMA32_LIMIT))) bd'"
      using fill_adds[OF sg le(2) d(1) z(4) _ z(2,1) _ _ at(4)[OF a1] s(2)] z(3) b(3) by (simp add: adds_def)
    then show ?thesis by (rule at(6)[OF a1])
  qed
qed

lemma aligned_region_adds:
  assumes al: "align_region base0 len0 = Some (b, l)" and e: "e = b + l" and sg: "shorter_good hp owns ks b e"
    and reg: "region_ok ks (unat b) (unat e)" and ok: "blocks_ok owns bd {#}"
    and fit: "fits bd (mset_set (usable_range ks (unat b) (unat e)))"
    and run: "handle_ards hp ks base0 len0 bd = Some bd'"
  shows "adds owns bd (mset_set (usable_range ks (unat b) (unat e))) bd'"
proof -
  let ?kend = "kernel_end_addr ks"
  note R = run[unfolded handle_ards.simps[of hp ks base0 len0 bd] al option.case prod.case Let_def, folded e]
  have dl: "DMA_LIMIT = KERNEL_BASE" by (simp add: DMA_LIMIT_def KERNEL_BASE_def)
  have l: "l = e - b" by (simp add: e)
  consider (empty) "e \<le> b" | (low) "\<not> e \<le> b" "b < LOWEST_LIMIT"
    | (image) "\<not> e \<le> b" "\<not> b < LOWEST_LIMIT" "b < KERNEL_BASE" "KERNEL_BASE < e"
    | (tail_end) "\<not> e \<le> b" "\<not> b < LOWEST_LIMIT" "\<not> b < KERNEL_BASE" "b < ?kend" "?kend < e"
    | (dma) "\<not> e \<le> b" "\<not> b < LOWEST_LIMIT" "b < KERNEL_BASE" "\<not> KERNEL_BASE < e"
    | (high) "\<not> e \<le> b" "\<not> b < LOWEST_LIMIT" "\<not> b < KERNEL_BASE" "\<not> (b < ?kend \<and> ?kend < e)"
    by blast
  then show ?thesis
  proof cases
    case empty
    then have "usable_range ks (unat b) (unat e) = {}" by (auto simp: usable_range_def page_range_def word_le_nat_alt)
    then show ?thesis using R empty adds_empty[OF ok] by simp
  next
    case low
    then show ?thesis using low_adds[OF sg ok fit] R by simp
  next
    case image
    then show ?thesis using image_adds[OF sg ok fit] R by simp
  next
    case tail_end
    have "usable_range ks (unat b) (unat e) = usable_range ks (unat ?kend) (unat e)"
      using tail_end by (intro usable_past_kernel) simp_all
    moreover have "handle_ards hp ks ?kend (e - ?kend) bd = Some bd'" using R tail_end by simp
    ultimately show ?thesis using suffix_adds[OF sg tail_end(4,5) kernel_end_dvd _ ok] fit by simp
  next
    case dma
    have "4096 dvd unat e" "unat e \<le> unat KERNEL_BASE"
      using sg dma(4) by (simp_all add: shorter_good_def word_less_nat_alt)
    moreover have "b \<le> e" "LOWEST_LIMIT \<le> b" "e \<le> KERNEL_BASE" using dma by (simp_all add: not_le not_less)
    ultimately show ?thesis using fill_adds[OF sg _ _ _ _ _ _ _ ok fit, of ZONE_DMA bd'] R dma dl l
      by (simp add: zone_low_def zone_high_def ZONE_DMA_def limits_unat)
  next
    case high
    have d: "4096 dvd unat b" "4096 dvd unat e" "unat e \<le> 2 ^ 52" using sg by (simp_all add: shorter_good_def)
    have le: "b \<le> e" "LOWEST_LIMIT \<le> b" "KERNEL_BASE \<le> b" "b < e" using high by (simp_all add: not_le not_less)
    have kb: "?kend \<le> b" using beyond_image[OF reg le(4) d(1,2) le(3)] high(4) by (auto simp: not_less)
    show ?thesis
    proof (cases "b < DMA32_LIMIT")
      case True
      then show ?thesis using dma32_adds[OF sg ok fit] R[unfolded l] high le kb dl by simp
    next
      case False
      then have "unat DMA32_LIMIT \<le> unat b" by (simp add: word_less_nat_alt)
      then show ?thesis using fill_adds[OF sg _ d(2) _ _ _ _ _ ok fit, of ZONE_NORMAL bd'] R high le kb dl l False d(3)
        by (simp add: zone_low_def zone_high_def ZONE_DMA_def ZONE_DMA32_def ZONE_NORMAL_def limits_unat)
    qed
  qed
qed

lemma handle_ards_good: "kernel_heap hp owns \<Longrightarrow> good_region hp owns ks base0 len0"
proof (induction "unat len0" arbitrary: base0 len0 rule: less_induct)
  case less
  note heap = less.prems
  show ?case
    unfolding good_region_def
  proof (intro allI impI)
    fix bd bd' assume ok: "blocks_ok owns bd {#}" and reg: "region_ok ks (unat base0) (unat base0 + unat len0)"
      and fit: "fits bd (mset_set (usable_range ks (unat base0) (unat base0 + unat len0)))"
      and run: "handle_ards hp ks base0 len0 bd = Some bd'"
    have hi: "unat base0 + unat len0 \<le> 2 ^ 52" using reg by (simp add: region_ok_def)
    note spec = align_region_spec[OF hi]
    show "adds owns bd (mset_set (usable_range ks (unat base0) (unat base0 + unat len0))) bd'"
    proof (cases "align_region base0 len0")
      case None
      then have "usable_range ks (unat base0) (unat base0 + unat len0) = {}" "bd' = bd"
        using spec(1) run by (simp_all add: usable_range_def handle_ards.simps)
      then show ?thesis using adds_empty[OF ok] by simp
    next
      case (Some bl)
      then obtain b l where al: "align_region base0 len0 = Some (b, l)" by (cases bl) auto
      note sp = spec(2)[OF al]
      have same: "usable_range ks (unat base0) (unat base0 + unat len0) = usable_range ks (unat b) (unat b + unat l)"
        using sp by (simp add: usable_range_def)
      have ue: "unat (b + l) = unat b + unat l" using sp hi by (intro unat_plus_if_no_wrap) simp
      have reg': "region_ok ks (unat b) (unat b + unat l)" using reg sp by (simp add: region_ok_def)
      have "good_region hp owns ks c (b + l - c) \<and> good_region hp owns ks b (c - b)" if "b < c" "c < b + l" for c
      proof -
        have n: "\<not> b + l \<le> b" using that by simp
        show ?thesis using less.hyps[OF region_shrinks(1)[OF al n that] heap] less.hyps[OF region_shrinks(2)[OF al n that] heap]
          by blast
      qed
      then have "shorter_good hp owns ks b (b + l)" using heap sp ue hi by (simp add: shorter_good_def)
      from aligned_region_adds[OF al refl this _ ok _ run] show ?thesis
        using reg' fit by (simp add: same ue)
    qed
  qed
qed

end
