(* ===== verification/Spec2Isabelle.thy ===== *)
theory Spec2Isabelle
  imports Ring Vfs_Types Addr_Space_Props Bytes Cred Signal Pipe Ktl_List Ktl_Bitset Ktl_Buffer
    Buddy_Iface Buddy_Boot
begin

text \<open>
  A verification development for the BigOS kernel, an x86_64 operating system in C++. This theory
  collects the components; each has its own theory, named after the part of the kernel it models.

  \<^bold>\<open>The program.\<close> A process owns a table of virtual memory areas, a root of four-level page tables
  and a signal state. System calls (\<^verbatim>\<open>kernel/core/syscall/syscall.cc\<close>) check user ranges against the
  areas, change areas and tables together, and copy bytes through the direct map. Page faults fill
  anonymous and file-backed pages on demand and split pages shared after a fork. Frames for tables
  and pages come from the page allocator, its metadata from the kernel heap, and both keep their
  bookkeeping in the containers of the kernel template library (\<^verbatim>\<open>cpp/\<close>). Pipes connect processes
  through a ring of bytes with two wait queues, and signals interrupt a process on its way back to
  user mode.

  \<^bold>\<open>Memory areas.\<close> Theory \<^verbatim>\<open>Vma\<close> models the area table of a process (\<^verbatim>\<open>proc.cc\<close>, \<^verbatim>\<open>proc.h\<close>): layout windows,
  range checks, and the staged \<^verbatim>\<open>munmap\<close> and \<^verbatim>\<open>mprotect\<close>, which build a new table and commit it only
  when everything fits. The abstract view is the permission of every address; the staged operations
  change it on exactly the requested range, and the check of a range equals the test of its every address.

  \<^bold>\<open>Page tables.\<close> \<^verbatim>\<open>Page_Table\<close> models the user half of \<^verbatim>\<open>kernel/mm/vmem.cc\<close>: the registry of tables with
  their counters of present entries, the walk, mapping with roll-back, unmapping with reclamation, tear-down
  and frame reference counts. \<^verbatim>\<open>Page_Table_Correct\<close> shows that the tables form a forest (a ghost
  function gives each table its root and its path), and that every operation keeps the forest and
  changes the leaf of one address only. The page allocator is the interface \<^verbatim>\<open>frame_allocator\<close> there.
  \<^verbatim>\<open>Page_Table_Props\<close> has the properties and their runs.

  \<^bold>\<open>User memory.\<close> \<^verbatim>\<open>User_Mem\<close> models the page-wise checks and copies of \<^verbatim>\<open>vmem.cc\<close>. Checks that look at
  one address of each page are equal to checks of every address; copies stay behind leaves that
  allow them.

  \<^bold>\<open>Address spaces.\<close> \<^verbatim>\<open>Process\<close> and \<^verbatim>\<open>Addr_Space\<close> put areas, tables and frame contents together: \<^verbatim>\<open>brk\<close>, \<^verbatim>\<open>mmap\<close>, file
  mappings, \<^verbatim>\<open>mprotect\<close>, user buffers, the three kinds of page fault, the directory of shared file pages
  and the copy a fork makes. \<^verbatim>\<open>Addr_Space_Correct\<close> and \<^verbatim>\<open>Addr_Space_Props\<close> show the invariant of the areas under any
  sequence of calls and faults, what a fault adds, that a copy-on-write split changes nobody else's
  bytes, and two cases in which the code does not do what it means to.

  \<^bold>\<open>Credentials and signals.\<close> \<^verbatim>\<open>Cred\<close> models the permission decisions of \<^verbatim>\<open>cred.cc\<close>, equal to the POSIX rule.
  \<^verbatim>\<open>Signal\<close> models \<^verbatim>\<open>signal.cc\<close> and the signal calls: pending and blocked sets, delivery with a frame on the
  user stack, \<^verbatim>\<open>sigreturn\<close> and \<^verbatim>\<open>kill\<close>. \<^verbatim>\<open>Bytes\<close> holds the little-endian layout of words in user memory.

  \<^bold>\<open>Pipes.\<close> \<^verbatim>\<open>Ring\<close> is the interface of a ring of bytes, with the loops over single puts and gets
  proved once. \<^verbatim>\<open>Pipe\<close> models \<^verbatim>\<open>pipe.cc\<close>, cut at the points where a call sleeps, as a step relation for
  any number of threads, and is an instance of \<^verbatim>\<open>Ring\<close>. \<^verbatim>\<open>Vfs_Types\<close> holds the status codes and the open-file
  object of \<^verbatim>\<open>vfs.h\<close>.

  \<^bold>\<open>Kernel template library.\<close> \<^verbatim>\<open>Ktl_List\<close> models the pointer operations of the intrusive list on a heap and
  refines them to lists, \<^verbatim>\<open>Ktl_Bitset\<close> the packed bit set with its first-fit scan, and \<^verbatim>\<open>Ktl_Buffer\<close> the
  ring buffer, again an instance of \<^verbatim>\<open>Ring\<close>, for every capacity.

  \<^bold>\<open>Conventions.\<close> Machine integers are words of their width, so wrap-around is that of the code. Addresses
  of kernel objects are numbers, null is 0. A failing operation returns an error value and the state it
  leaves behind, so that roll-back is something to prove. Operations of parts without a model are arguments
  of the definitions, and what is relied on is a named hypothesis of the lemmas: the page allocator,
  the answers of the scheduler, reads of files. Loops are recursive functions with a
  termination proof. A few loops over linked structures take fuel: \<^verbatim>\<open>reverse\<close> of a list, with the
  number of its nodes shown to be enough, and the return to user mode, repeated at most once per
  pending signal.

  \<^bold>\<open>Not modelled.\<close> The scheduler, interrupt entry, inter-processor interrupts and the drivers act on
  hardware state. The slab heap, the kernel half of \<^verbatim>\<open>vmem.cc\<close> and the boot code run mutually with
  them. File systems, the block cache, the network stack and the terminal are large components of their
  own and appear only as parameters. Parallel execution on several processors is modelled for pipes,
  whose calls run with interrupts off between sleeps; the other components are sequential. Translation
  caches are not modelled, so nothing is said about stale translations.
\<close>

end
